(* ===== verification/Prelude.thy ===== *)
theory Prelude
  imports Main "HOL-Library.Word" "HOL-Library.Multiset"
begin

unbundle bit_operations_syntax

text \<open>
  Shared vocabulary of the development.  The C++ code moves bytes around as
  \<^verbatim>\<open>char*\<close> ranges, \<^verbatim>\<open>std::string\<close> and \<^verbatim>\<open>Slice\<close> values; all of them are byte lists here.
  Machine integers keep their width as words.  The generic lemmas on lists and words that
  several components need are proved here once; the collections \<open>codec\<close> (rewrites for
  encoders and decoders), \<open>bitwise\<close> (word facts proved bit by bit) and \<open>inv_defs\<close>
  (definitions of invariants) carry the component proofs.
\<close>

named_theorems codec \<open>rewrite rules of the byte encoders and decoders\<close>
named_theorems bitwise \<open>facts about words, proved bit by bit\<close>
named_theorems inv_defs \<open>definitions of the component invariants\<close>

type_synonym byte = "8 word"
type_synonym bytes = "byte list"
type_synonym uint32 = "32 word"
type_synonym uint64 = "64 word"

subsection \<open>Reading a word seven bits at a time\<close>

lemma take_bit_or_push_drop [bitwise]:
  fixes w :: "'a::len word"
  shows "take_bit n w OR push_bit n (take_bit m (drop_bit n w)) = take_bit (n + m) w"
  by (rule bit_word_eqI) (auto simp: bit_simps)

lemma take_bit_or_push_drop_all [bitwise]:
  fixes w :: "'a::len word"
  shows "take_bit n w OR push_bit n (drop_bit n w) = w"
proof (rule bit_word_eqI)
  fix k assume "k < LENGTH('a)"
  then show "bit (take_bit n w OR push_bit n (drop_bit n w)) k = bit w k"
    by (cases "k < n") (auto simp: bit_simps)
qed

lemma unat_drop_bit_div: "unat (drop_bit n w) = unat w div 2 ^ n"
  by (simp only: unat_drop_bit_eq flip: drop_bit_eq_div)

lemma unat_of_nat_small: "n < 2 ^ LENGTH('a) \<Longrightarrow> unat (of_nat n :: 'a::len word) = n"
  by (simp add: unsigned_of_nat take_bit_nat_eq_self)

lemma drop_bit_ge_bound [bitwise]:
  fixes w :: "'a::len word"
  assumes "2 ^ m \<le> unat (drop_bit n w)"
  shows "n + m < LENGTH('a)"
proof (rule ccontr)
  assume "\<not> n + m < LENGTH('a)"
  then have le: "LENGTH('a) \<le> n + m" by simp
  have "unat w < 2 ^ (n + m)"
    using unsigned_less [of w] le by (meson order_less_le_trans one_le_numeral power_increasing)
  then have "unat w div 2 ^ n < 2 ^ m"
    by (simp add: less_mult_imp_div_less power_add mult.commute)
  with assms show False by (simp only: unat_drop_bit_div)
qed

lemma unat_drop_bit_less:
  fixes w :: "'a::len word"
  assumes "0 < n" and "0 < unat w"
  shows "unat (drop_bit n w) < unat w"
  using assms unfolding unat_drop_bit_div
  by (intro div_less_dividend one_less_power) simp_all

subsection \<open>Masks of the byte encoders\<close>

lemma and_127_eq [bitwise]: "(x :: 'a::len word) AND 127 = take_bit 7 x"
  by (simp add: take_bit_eq_mask mask_eq_exp_minus_1)

lemma and_255_eq [bitwise]: "(x :: 'a::len word) AND 255 = take_bit 8 x"
  by (simp add: take_bit_eq_mask mask_eq_exp_minus_1)

lemma and_128_eq_0_iff [bitwise]: "(x :: 'a::len word) AND 128 = 0 \<longleftrightarrow> \<not> bit x 7"
  using and_exp_eq_0_iff_not_bit [of x 7] by simp

lemma bit_128_iff [bitwise]:
  "bit (128 :: 'a::semiring_bit_operations) n \<longleftrightarrow> possible_bit TYPE('a) n \<and> n = 7"
  using bit_exp_iff [of 7 n, where 'a = 'a] by auto

lemma ucast_byte_and_255 [bitwise]:
  fixes x :: "'a::len word"
  assumes "8 \<le> LENGTH('a)"
  shows "ucast (ucast (x AND 255) :: byte) = take_bit 8 x"
  using assms by (intro bit_word_eqI) (auto simp: bit_simps and_255_eq)

lemma less_pow2_drop_bit_eq_0:
  fixes v :: "'a::len word"
  assumes "unat v < 2 ^ n"
  shows "drop_bit n v = 0"
proof -
  have "unat (drop_bit n v) = 0"
    using assms by (simp only: unat_drop_bit_div div_less)
  then show ?thesis by (simp only: unat_eq_zero)
qed

end
