(* ===== verification/Coding.thy ===== *)
theory Coding
  imports Prelude
begin

unbundle bit_operations_syntax

text \<open>
  The byte encodings of \<^verbatim>\<open>App/integration/coding.h\<close> and \<^verbatim>\<open>coding.cpp\<close>: little-endian
  fixed-width integers, base-128 varints and length-prefixed slices.  An encoder returns
  the bytes the C++ routine writes (or appends to its \<^verbatim>\<open>std::string\<close>); a decoder takes
  the bytes from its pointer up to the limit and returns the value with the bytes that
  are left, or \<open>None\<close> where the C++ routine returns \<^verbatim>\<open>NULL\<close> or \<^verbatim>\<open>false\<close>.
\<close>

subsection \<open>Fixed-width integers\<close>

definition EncodeFixed32 :: "uint32 \<Rightarrow> bytes" where
  "EncodeFixed32 value =
     [ucast (value AND 255), ucast (drop_bit 8 value AND 255),
      ucast (drop_bit 16 value AND 255), ucast (drop_bit 24 value AND 255)]"

definition EncodeFixed64 :: "uint64 \<Rightarrow> bytes" where
  "EncodeFixed64 value =
     [ucast (value AND 255), ucast (drop_bit 8 value AND 255),
      ucast (drop_bit 16 value AND 255), ucast (drop_bit 24 value AND 255),
      ucast (drop_bit 32 value AND 255), ucast (drop_bit 40 value AND 255),
      ucast (drop_bit 48 value AND 255), ucast (drop_bit 56 value AND 255)]"

definition PutFixed32 :: "bytes \<Rightarrow> uint32 \<Rightarrow> bytes" where
  "PutFixed32 dst value = dst @ EncodeFixed32 value"

definition PutFixed64 :: "bytes \<Rightarrow> uint64 \<Rightarrow> bytes" where
  "PutFixed64 dst value = dst @ EncodeFixed64 value"

text \<open>
  \<^verbatim>\<open>DecodeFixed32\<close> and \<^verbatim>\<open>DecodeFixed64\<close> copy four or eight bytes from the pointer without
  a bounds check.  Reading past the end is undefined in C++; it is \<open>None\<close> here.
\<close>

fun DecodeFixed32 :: "bytes \<Rightarrow> uint32 option" where
  "DecodeFixed32 (b0 # b1 # b2 # b3 # rest) =
     Some (ucast b0 OR push_bit 8 (ucast b1) OR push_bit 16 (ucast b2) OR push_bit 24 (ucast b3))"
| "DecodeFixed32 _ = None"

fun DecodeFixed64 :: "bytes \<Rightarrow> uint64 option" where
  "DecodeFixed64 (b0 # b1 # b2 # b3 # b4 # b5 # b6 # b7 # rest) =
     Some (ucast b0 OR push_bit 8 (ucast b1) OR push_bit 16 (ucast b2) OR push_bit 24 (ucast b3)
        OR push_bit 32 (ucast b4) OR push_bit 40 (ucast b5) OR push_bit 48 (ucast b6)
        OR push_bit 56 (ucast b7))"
| "DecodeFixed64 _ = None"

subsection \<open>Varints\<close>

text \<open>\<^verbatim>\<open>*(ptr++) = v | B\<close> stores the low byte of the word.\<close>

definition EncodeVarint32 :: "uint32 \<Rightarrow> bytes" where
  "EncodeVarint32 v =
     (if v < push_bit 7 1 then [ucast v]
      else if v < push_bit 14 1 then [ucast (v OR 128), ucast (drop_bit 7 v)]
      else if v < push_bit 21 1 then
        [ucast (v OR 128), ucast (drop_bit 7 v OR 128), ucast (drop_bit 14 v)]
      else if v < push_bit 28 1 then
        [ucast (v OR 128), ucast (drop_bit 7 v OR 128), ucast (drop_bit 14 v OR 128),
         ucast (drop_bit 21 v)]
      else
        [ucast (v OR 128), ucast (drop_bit 7 v OR 128), ucast (drop_bit 14 v OR 128),
         ucast (drop_bit 21 v OR 128), ucast (drop_bit 28 v)])"

definition PutVarint32 :: "bytes \<Rightarrow> uint32 \<Rightarrow> bytes" where
  "PutVarint32 dst v = dst @ EncodeVarint32 v"

function EncodeVarint64 :: "uint64 \<Rightarrow> bytes" where
  "EncodeVarint64 v =
     (if v \<ge> 128 then ucast ((v AND 127) OR 128) # EncodeVarint64 (drop_bit 7 v)
      else [ucast v])"
  by pat_completeness auto
termination
  by (relation "measure unat") (auto intro!: unat_drop_bit_less simp: word_le_nat_alt)

declare EncodeVarint64.simps [simp del]

definition PutVarint64 :: "bytes \<Rightarrow> uint64 \<Rightarrow> bytes" where
  "PutVarint64 dst v = dst @ EncodeVarint64 v"

function VarintLength_loop :: "uint64 \<Rightarrow> nat \<Rightarrow> nat" where
  "VarintLength_loop v len =
     (if v \<ge> 128 then VarintLength_loop (drop_bit 7 v) (len + 1) else len)"
  by pat_completeness auto
termination
  by (relation "measure (\<lambda>(v, len). unat v)")
    (auto intro!: unat_drop_bit_less simp: word_le_nat_alt)

declare VarintLength_loop.simps [simp del]

definition VarintLength :: "uint64 \<Rightarrow> nat" where
  "VarintLength v = VarintLength_loop v 1"

fun GetVarint32_loop :: "nat \<Rightarrow> uint32 \<Rightarrow> bytes \<Rightarrow> (uint32 \<times> bytes) option" where
  "GetVarint32_loop shift result [] = None"
| "GetVarint32_loop shift result (b # p) =
     (if shift \<le> 28 then
        (let byte = (ucast b :: uint32) in
         if byte AND 128 \<noteq> 0
         then GetVarint32_loop (shift + 7) (result OR push_bit shift (byte AND 127)) p
         else Some (result OR push_bit shift byte, p))
      else None)"

definition GetVarint32PtrFallback :: "bytes \<Rightarrow> (uint32 \<times> bytes) option" where
  "GetVarint32PtrFallback p = GetVarint32_loop 0 0 p"

fun GetVarint32Ptr :: "bytes \<Rightarrow> (uint32 \<times> bytes) option" where
  "GetVarint32Ptr [] = GetVarint32PtrFallback []"
| "GetVarint32Ptr (b # p) =
     (let result = (ucast b :: uint32) in
      if result AND 128 = 0 then Some (result, p) else GetVarint32PtrFallback (b # p))"

definition GetVarint32 :: "bytes \<Rightarrow> (uint32 \<times> bytes) option" where
  "GetVarint32 input = GetVarint32Ptr input"

fun GetVarint64_loop :: "nat \<Rightarrow> uint64 \<Rightarrow> bytes \<Rightarrow> (uint64 \<times> bytes) option" where
  "GetVarint64_loop shift result [] = None"
| "GetVarint64_loop shift result (b # p) =
     (if shift \<le> 63 then
        (let byte = (ucast b :: uint64) in
         if byte AND 128 \<noteq> 0
         then GetVarint64_loop (shift + 7) (result OR push_bit shift (byte AND 127)) p
         else Some (result OR push_bit shift byte, p))
      else None)"

definition GetVarint64Ptr :: "bytes \<Rightarrow> (uint64 \<times> bytes) option" where
  "GetVarint64Ptr p = GetVarint64_loop 0 0 p"

definition GetVarint64 :: "bytes \<Rightarrow> (uint64 \<times> bytes) option" where
  "GetVarint64 input = GetVarint64Ptr input"

subsection \<open>Length-prefixed slices\<close>

text \<open>The \<^verbatim>\<open>size_t\<close> length is converted to the \<^verbatim>\<open>uint32_t\<close> parameter of \<^verbatim>\<open>PutVarint32\<close>.\<close>

definition PutLengthPrefixedSlice :: "bytes \<Rightarrow> bytes \<Rightarrow> bytes" where
  "PutLengthPrefixedSlice dst value = PutVarint32 dst (of_nat (length value)) @ value"

definition GetLengthPrefixedSlice :: "bytes \<Rightarrow> (bytes \<times> bytes) option" where
  "GetLengthPrefixedSlice input =
     (case GetVarint32 input of
        None \<Rightarrow> None
      | Some (len, p) \<Rightarrow>
          if length p \<ge> unat len then Some (take (unat len) p, drop (unat len) p) else None)"

subsection \<open>Lemmas\<close>

lemma length_EncodeFixed32 [simp]: "length (EncodeFixed32 v) = 4"
  by (simp add: EncodeFixed32_def)

lemma length_EncodeFixed64 [simp]: "length (EncodeFixed64 v) = 8"
  by (simp add: EncodeFixed64_def)

lemma DecodeFixed32_Encode [codec]: "DecodeFixed32 (EncodeFixed32 v @ rest) = Some v"
  by (simp add: EncodeFixed32_def ucast_byte_and_255 take_bit_or_push_drop take_bit_word_eq_self
      flip: or.assoc)

lemma not_bit_byte: "8 \<le> n \<Longrightarrow> \<not> bit (b :: byte) n"
  using bit_imp_le_length [of b n] by auto

lemma EncodeFixed32_bytes:
  "EncodeFixed32 (ucast b0 OR push_bit 8 (ucast b1) OR push_bit 16 (ucast b2) OR push_bit 24 (ucast b3)) =
     [b0, b1, b2, b3]"
  unfolding EncodeFixed32_def list.inject and_255_eq
  by (intro conjI bit_word_eqI; simp add: bit_simps not_bit_byte)

lemma EncodeFixed64_bytes:
  "EncodeFixed64 (ucast b0 OR push_bit 8 (ucast b1) OR push_bit 16 (ucast b2) OR push_bit 24 (ucast b3)
      OR push_bit 32 (ucast b4) OR push_bit 40 (ucast b5) OR push_bit 48 (ucast b6)
      OR push_bit 56 (ucast b7)) =
     [b0, b1, b2, b3, b4, b5, b6, b7]"
  unfolding EncodeFixed64_def list.inject and_255_eq
  by (intro conjI bit_word_eqI; simp add: bit_simps not_bit_byte)

lemma EncodeFixed64_Decode:
  assumes "length p = 8" and "DecodeFixed64 p = Some v"
  shows "EncodeFixed64 v = p"
proof -
  obtain b0 b1 b2 b3 b4 b5 b6 b7 where "p = [b0, b1, b2, b3, b4, b5, b6, b7]"
    using assms(1) by (auto simp: numeral_eq_Suc length_Suc_conv)
  with assms(2) show ?thesis using EncodeFixed64_bytes by auto
qed

lemma DecodeFixed64_length: "(\<exists>v. DecodeFixed64 p = Some v) \<longleftrightarrow> 8 \<le> length p"
  by (cases p rule: DecodeFixed64.cases) auto

lemma DecodeFixed32_length: "(\<exists>v. DecodeFixed32 p = Some v) \<longleftrightarrow> 4 \<le> length p"
  by (cases p rule: DecodeFixed32.cases) auto

lemma DecodeFixed64_Encode [codec]: "DecodeFixed64 (EncodeFixed64 v @ rest) = Some v"
  by (simp add: EncodeFixed64_def ucast_byte_and_255 take_bit_or_push_drop take_bit_word_eq_self
      flip: or.assoc)

lemma varint_more_byte:
  fixes v :: "'a::len word"
  assumes "8 \<le> LENGTH('a)" and "8 \<le> LENGTH('b::len)"
  shows "ucast (ucast ((v AND 127) OR 128) :: byte) AND 127 = take_bit 7 (ucast v :: 'b word)"
    and "ucast (ucast ((v AND 127) OR 128) :: byte) AND 128 \<noteq> (0 :: 'b word)"
proof -
  show "ucast (ucast ((v AND 127) OR 128) :: byte) AND 127 = take_bit 7 (ucast v :: 'b word)"
    using assms by (intro bit_word_eqI) (auto simp: bit_simps and_127_eq bit_128_iff)
  show "ucast (ucast ((v AND 127) OR 128) :: byte) AND 128 \<noteq> (0 :: 'b word)"
    using assms by (simp add: and_128_eq_0_iff bit_simps bit_128_iff)
qed

lemma varint_last_byte:
  fixes v :: "'a::len word"
  assumes "8 \<le> LENGTH('a)" and "8 \<le> LENGTH('b::len)" and "unat v < 128"
  shows "ucast (ucast v :: byte) = (ucast v :: 'b word)" and "ucast v AND 128 = (0 :: 'b word)"
proof -
  have "drop_bit 7 v = 0"
    using assms less_pow2_drop_bit_eq_0 [of v 7] by simp
  then have *: "\<not> bit v (7 + k)" for k
    by (metis bit_0_eq bit_drop_bit_eq bot_apply comp_apply bot_bool_def)
  have **: "bit v n \<Longrightarrow> n < 8" for n
    using * [of "n - 7"] by (cases "n < 8") auto
  show "ucast (ucast v :: byte) = (ucast v :: 'b word)"
    using ** by (intro bit_word_eqI) (auto simp: bit_simps)
  show "ucast v AND 128 = (0 :: 'b word)"
    using * [of 0] by (simp add: and_128_eq_0_iff bit_simps)
qed

lemma varint32_more_byte:
  "(ucast ((v :: uint32) OR 128) :: byte) = ucast (((ucast v :: uint64) AND 127) OR 128)"
  by (rule bit_word_eqI) (auto simp: bit_simps and_127_eq bit_128_iff)

text \<open>The loop of \<^verbatim>\<open>GetVarint64Ptr\<close> undoes the loop of \<^verbatim>\<open>EncodeVarint64\<close> from any shift.\<close>

lemma GetVarint64_loop_Encode:
  "GetVarint64_loop shift (take_bit shift v) (EncodeVarint64 (drop_bit shift v) @ rest) =
     Some (v, rest)" if "shift \<le> 63"
  using that
proof (induction "drop_bit shift v" arbitrary: shift rule: EncodeVarint64.induct)
  case 1
  let ?w = "drop_bit shift v"
  show ?case
  proof (cases "128 \<le> ?w")
    case True
    then have "2 ^ 7 \<le> unat ?w" by (simp add: word_le_nat_alt)
    then have s: "shift + 7 < 64"
      using drop_bit_ge_bound [of 7 shift v] by simp
    have "GetVarint64_loop (shift + 7) (take_bit (shift + 7) v)
        (EncodeVarint64 (drop_bit (shift + 7) v) @ rest) = Some (v, rest)"
      using "1.hyps" [OF True, of "shift + 7"] s by (simp add: add.commute)
    with True s show ?thesis
      by (subst EncodeVarint64.simps)
        (simp add: varint_more_byte [where 'b = 64] Let_def take_bit_or_push_drop add.commute)
  next
    case False
    then have "unat ?w < 128" by (simp add: word_le_nat_alt)
    with False "1.prems" show ?thesis
      by (subst EncodeVarint64.simps)
        (simp add: varint_last_byte [where 'a = 64 and 'b = 64, simplified] Let_def take_bit_or_push_drop_all)
  qed
qed

lemma GetVarint64_Encode [codec]: "GetVarint64 (EncodeVarint64 v @ rest) = Some (v, rest)"
  using GetVarint64_loop_Encode [of 0 v rest] by (simp add: GetVarint64_def GetVarint64Ptr_def)

text \<open>The unrolled 32-bit encoder writes the bytes of the 64-bit loop.\<close>

lemma drop_bit_ucast_64: "drop_bit n (ucast (v :: uint32) :: uint64) = ucast (drop_bit n v)"
  by (rule bit_word_eqI) (auto simp: bit_simps dest: bit_imp_le_length)

lemma unat_ucast_64 [simp]: "unat (ucast (v :: uint32) :: uint64) = unat v"
  using unsigned_less [of v, where 'a = nat] by (simp add: unsigned_ucast_eq take_bit_nat_eq_self_iff)

lemma ucast_ucast_byte: "(ucast (ucast (v :: uint32) :: uint64) :: byte) = ucast v"
  by (rule bit_word_eqI) (auto simp: bit_simps)

lemma ucast_ucast_32: "(ucast (ucast (v :: uint32) :: uint64) :: uint32) = v"
  by (rule bit_word_eqI) (auto simp: bit_simps)

lemma EncodeVarint64_ucast_less:
  "unat (v :: uint32) < 128 \<Longrightarrow> EncodeVarint64 (ucast v) = [ucast v]"
  by (subst EncodeVarint64.simps) (simp add: word_le_nat_alt ucast_ucast_byte)

lemma EncodeVarint64_ucast_ge:
  "128 \<le> unat (v :: uint32) \<Longrightarrow>
   EncodeVarint64 (ucast v) = ucast (v OR 128) # EncodeVarint64 (ucast (drop_bit 7 v))"
  by (subst EncodeVarint64.simps)
    (simp add: word_le_nat_alt varint32_more_byte drop_bit_ucast_64)

lemma EncodeVarint32_eq_64: "EncodeVarint32 v = EncodeVarint64 (ucast v)"
proof -
  have v: "unat v < 2 ^ 32" using unsigned_less [of v] by simp
  consider "unat v < 2 ^ 7" | "2 ^ 7 \<le> unat v" "unat v < 2 ^ 14"
    | "2 ^ 14 \<le> unat v" "unat v < 2 ^ 21" | "2 ^ 21 \<le> unat v" "unat v < 2 ^ 28"
    | "2 ^ 28 \<le> unat v"
    by linarith
  then show ?thesis
    by cases (use v in \<open>simp_all add: EncodeVarint32_def word_less_nat_alt unat_drop_bit_div
      EncodeVarint64_ucast_less EncodeVarint64_ucast_ge\<close>)
qed

lemma GetVarint32_loop_Encode:
  "GetVarint32_loop shift (take_bit shift v) (EncodeVarint64 (ucast (drop_bit shift v)) @ rest) =
     Some (v, rest)" if "shift \<le> 28" and "7 dvd shift"
  using that
proof (induction "unat (drop_bit shift v)" arbitrary: shift rule: less_induct)
  case less
  let ?w = "drop_bit shift v"
  show ?case
  proof (cases "128 \<le> unat ?w")
    case True
    then have "shift + 7 < 32" using drop_bit_ge_bound [of 7 shift v] by simp
    with less.prems have s: "shift + 7 \<le> 28" "7 dvd shift + 7" by presburger+
    have "unat (drop_bit (shift + 7) v) < unat ?w"
      using unat_drop_bit_less [of 7 ?w] True by (simp add: add.commute)
    then have "GetVarint32_loop (shift + 7) (take_bit (shift + 7) v)
        (EncodeVarint64 (ucast (drop_bit (shift + 7) v)) @ rest) = Some (v, rest)"
      using less.hyps s by blast
    with True s show ?thesis
      by (simp add: EncodeVarint64_ucast_ge varint32_more_byte varint_more_byte [where 'b = 32]
          Let_def take_bit_or_push_drop add.commute ucast_ucast_32)
  next
    case False
    with less.prems show ?thesis
      by (simp add: EncodeVarint64_ucast_less varint_last_byte [where 'a = 32 and 'b = 32, simplified]
          Let_def take_bit_or_push_drop_all)
  qed
qed

text \<open>The one-byte fast path of \<^verbatim>\<open>GetVarint32Ptr\<close> agrees with the general loop.\<close>

lemma GetVarint32Ptr_eq_loop: "GetVarint32Ptr p = GetVarint32_loop 0 0 p"
  by (cases p) (simp_all add: GetVarint32PtrFallback_def Let_def)

lemma GetVarint32_Encode [codec]: "GetVarint32 (EncodeVarint32 v @ rest) = Some (v, rest)"
  using GetVarint32_loop_Encode [of 0 v rest]
  by (simp add: GetVarint32_def GetVarint32Ptr_eq_loop EncodeVarint32_eq_64)

lemma GetVarint32Ptr_Encode: "GetVarint32Ptr (EncodeVarint32 v @ rest) = Some (v, rest)"
  using GetVarint32_Encode [of v rest] by (simp add: GetVarint32_def)

lemma VarintLength_loop_eq:
  "0 < len \<Longrightarrow> VarintLength_loop v len = length (EncodeVarint64 v) + len - 1"
proof (induction v len rule: VarintLength_loop.induct)
  case (1 v len)
  then show ?case
    by (subst VarintLength_loop.simps, subst EncodeVarint64.simps) simp
qed

lemma VarintLength_eq: "VarintLength v = length (EncodeVarint64 v)"
  by (simp add: VarintLength_def VarintLength_loop_eq)

lemma EncodeVarint64_nonempty [simp]: "EncodeVarint64 v \<noteq> []"
  by (subst EncodeVarint64.simps) simp

lemma length_EncodeVarint64_aux:
  "unat v < 2 ^ (7 * Suc k) \<Longrightarrow> length (EncodeVarint64 v) \<le> Suc k"
proof (induction k arbitrary: v)
  case 0
  then show ?case by (subst EncodeVarint64.simps) (simp add: word_le_nat_alt)
next
  case (Suc k)
  have "unat (drop_bit 7 v) = unat v div 2 ^ 7"
    by (rule unat_drop_bit_div)
  also have "\<dots> < 2 ^ (7 * Suc k)"
    using Suc.prems by (simp add: less_mult_imp_div_less power_add)
  finally show ?case using Suc.IH [of "drop_bit 7 v"]
    by (subst EncodeVarint64.simps) simp
qed

lemma length_EncodeVarint64: "length (EncodeVarint64 v) \<le> 10"
proof -
  have "unat v < 2 ^ 64" using unsigned_less [of v, where 'a = nat] by simp
  then have "unat v < 2 ^ (7 * Suc 9)" by simp
  then show ?thesis using length_EncodeVarint64_aux [of v 9] by simp
qed

lemma length_EncodeVarint32: "length (EncodeVarint32 v) \<le> 5"
  by (simp add: EncodeVarint32_def)

lemma GetLengthPrefixedSlice_Put [codec]:
  assumes "length s < 2 ^ 32"
  shows "GetLengthPrefixedSlice (PutLengthPrefixedSlice [] s @ rest) = Some (s, rest)"
proof -
  have "unat (of_nat (length s) :: uint32) = length s"
    using assms by (simp add: unat_of_nat_small)
  then show ?thesis
    by (simp add: GetLengthPrefixedSlice_def PutLengthPrefixedSlice_def PutVarint32_def
        GetVarint32_Encode)
qed

lemma PutLengthPrefixedSlice_append:
  "PutLengthPrefixedSlice dst s = dst @ PutLengthPrefixedSlice [] s"
  by (simp add: PutLengthPrefixedSlice_def PutVarint32_def)

text \<open>The readers consume at least one byte.\<close>

lemma GetVarint32_loop_length: "GetVarint32_loop sh r p = Some (v, q) \<Longrightarrow> length q < length p"
  by (induction sh r p rule: GetVarint32_loop.induct) (force simp: Let_def split: if_splits)+

lemma GetVarint32_length: "GetVarint32 p = Some (v, q) \<Longrightarrow> length q < length p"
  unfolding GetVarint32_def GetVarint32Ptr_eq_loop by (rule GetVarint32_loop_length)

lemma GetLengthPrefixedSlice_length:
  "GetLengthPrefixedSlice p = Some (s, q) \<Longrightarrow> length q < length p"
  by (auto simp: GetLengthPrefixedSlice_def dest!: GetVarint32_length split: option.splits if_splits)

lemma GetVarint64_loop_length: "GetVarint64_loop sh r p = Some (v, q) \<Longrightarrow> length q < length p"
  by (induction sh r p rule: GetVarint64_loop.induct) (force simp: Let_def split: if_splits)+

lemma GetVarint64_length: "GetVarint64 p = Some (v, q) \<Longrightarrow> length q < length p"
  unfolding GetVarint64_def GetVarint64Ptr_def by (rule GetVarint64_loop_length)

subsection \<open>Properties\<close>

text \<open>
  C38: reading a 64-bit varint back from the front of any buffer gives the value and leaves the
  rest; \<^verbatim>\<open>VarintLength\<close> predicts the number of bytes, which fits the ten bytes that
  \<^verbatim>\<open>PutVarint64\<close> reserves.
\<close>

theorem varint64_roundtrip:
  "GetVarint64 (PutVarint64 [] v @ rest) = Some (v, rest) \<and>
   length (PutVarint64 [] v) = VarintLength v \<and> VarintLength v \<le> 10"
  using length_EncodeVarint64 [of v]
  by (simp add: PutVarint64_def VarintLength_eq GetVarint64_Encode)

text \<open>
  C39: the unrolled 32-bit encoder writes the same bytes as the 64-bit loop, at most five, and the
  32-bit reader with its one-byte fast path reads them back.
\<close>

theorem varint32_roundtrip:
  "EncodeVarint32 v = EncodeVarint64 (ucast v) \<and> length (EncodeVarint32 v) \<le> 5 \<and>
   GetVarint32 (PutVarint32 [] v @ rest) = Some (v, rest)"
  using length_EncodeVarint32 [of v] GetVarint32_Encode [of v rest]
  by (simp add: PutVarint32_def EncodeVarint32_eq_64)

end
