(* ===== verification/Bloom.thy ===== *)
theory Bloom
  imports Coding
begin

unbundle bit_operations_syntax

text \<open>
  The hash function (\<^verbatim>\<open>App/integration/hash.cpp\<close>) and the Bloom filter policy
  (\<^verbatim>\<open>App/integration/bloom.cpp\<close>).  The interface \<^verbatim>\<open>FilterPolicy\<close> of \<^verbatim>\<open>filter_policy.h\<close> is the
  locale \<open>filter_policy\<close>: a filter is appended to the destination and matches every key it
  was built from.
\<close>

subsection \<open>Hash\<close>

definition hash_m :: uint32 where "hash_m = 0xc6a4a793"

function Hash_loop :: "uint32 \<Rightarrow> bytes \<Rightarrow> uint32 \<times> bytes" where
  "Hash_loop h data =
     (case DecodeFixed32 data of
        None \<Rightarrow> (h, data)
      | Some w \<Rightarrow>
          (let h = h + w; h = h * hash_m; h = h XOR drop_bit 16 h
           in Hash_loop h (drop 4 data)))"
  by pat_completeness auto
termination
proof (relation "measure (\<lambda>(h, data). length data)")
  fix h :: uint32 and data :: bytes and w x y z
  assume "DecodeFixed32 data = Some w"
  then have "4 \<le> length data" using DecodeFixed32_length by blast
  then show "((z, drop 4 data), h, data) \<in> measure (\<lambda>(h, data). length data)" by simp
qed simp

declare Hash_loop.simps [simp del]

definition Hash_tail :: "uint32 \<Rightarrow> bytes \<Rightarrow> uint32" where
  "Hash_tail h data =
     (let n = length data;
          h = (if n = 3 then h + push_bit 16 (ucast (data ! 2)) else h);
          h = (if n = 3 \<or> n = 2 then h + push_bit 8 (ucast (data ! 1)) else h)
      in if n = 3 \<or> n = 2 \<or> n = 1
         then (let h = h + ucast (data ! 0); h = h * hash_m in h XOR drop_bit 24 h)
         else h)"

definition Hash :: "bytes \<Rightarrow> uint32 \<Rightarrow> uint32" where
  "Hash data seed =
     (let h = seed XOR (of_nat (length data) * hash_m);
          (h, rest) = Hash_loop h data
      in Hash_tail h rest)"

subsection \<open>The Bloom filter policy\<close>

definition BloomHash :: "bytes \<Rightarrow> uint32" where
  "BloomHash key = Hash key 0xbc9f1d34"

text \<open>
  The number of probes is \<^verbatim>\<open>bits_per_key * 0.69\<close> rounded down, clamped to 1..30.  From 44 bits
  per key on the clamp decides, and below that no product is near an integer, so the rounding
  of the floating-point product does not matter.
\<close>

record BloomFilterPolicy =
  bits_per_key :: nat
  bloom_k :: nat

definition mk_BloomFilterPolicy :: "nat \<Rightarrow> BloomFilterPolicy" where
  "mk_BloomFilterPolicy bpk =
     (let k = bpk * 69 div 100;
          k = (if k < 1 then 1 else k);
          k = (if k > 30 then 30 else k)
      in \<lparr>bits_per_key = bpk, bloom_k = k\<rparr>)"

definition rotate_17 :: "uint32 \<Rightarrow> uint32" where
  "rotate_17 h = drop_bit 17 h OR push_bit 15 h"

definition set_bit_at :: "bytes \<Rightarrow> nat \<Rightarrow> bytes" where
  "set_bit_at array bitpos =
     array[bitpos div 8 := array ! (bitpos div 8) OR push_bit (bitpos mod 8) 1]"

fun Create_probes :: "nat \<Rightarrow> uint32 \<Rightarrow> uint32 \<Rightarrow> nat \<Rightarrow> bytes \<Rightarrow> bytes" where
  "Create_probes bits h delta 0 array = array"
| "Create_probes bits h delta (Suc j) array =
     Create_probes bits (h + delta) delta j (set_bit_at array (unat h mod bits))"

fun Create_keys :: "nat \<Rightarrow> nat \<Rightarrow> bytes list \<Rightarrow> bytes \<Rightarrow> bytes" where
  "Create_keys k bits [] array = array"
| "Create_keys k bits (key # keys) array =
     (let h = BloomHash key; delta = rotate_17 h
      in Create_keys k bits keys (Create_probes bits h delta k array))"

definition Bloom_CreateFilter :: "BloomFilterPolicy \<Rightarrow> bytes list \<Rightarrow> bytes \<Rightarrow> bytes" where
  "Bloom_CreateFilter p keys dst =
     (let n = length keys;
          bits = n * bits_per_key p;
          bits = (if bits < 64 then 64 else bits);
          bytes = (bits + 7) div 8;
          bits = bytes * 8
      in dst @ Create_keys (bloom_k p) bits keys (replicate bytes 0) @ [of_nat (bloom_k p)])"

fun Match_probes :: "nat \<Rightarrow> uint32 \<Rightarrow> uint32 \<Rightarrow> nat \<Rightarrow> bytes \<Rightarrow> bool" where
  "Match_probes bits h delta 0 array = True"
| "Match_probes bits h delta (Suc j) array =
     (let bitpos = unat h mod bits in
      if array ! (bitpos div 8) AND push_bit (bitpos mod 8) 1 = 0 then False
      else Match_probes bits (h + delta) delta j array)"

definition Bloom_KeyMayMatch :: "bytes \<Rightarrow> bytes \<Rightarrow> bool" where
  "Bloom_KeyMayMatch key bloom_filter =
     (let len = length bloom_filter in
      if len < 2 then False
      else (let bits = (len - 1) * 8;
                k = unat (bloom_filter ! (len - 1))
            in if k > 30 then True
               else (let h = BloomHash key; delta = rotate_17 h
                     in Match_probes bits h delta k bloom_filter)))"

subsection \<open>The filter policy interface\<close>

locale filter_policy =
  fixes CreateFilter :: "bytes list \<Rightarrow> bytes \<Rightarrow> bytes" and KeyMayMatch :: "bytes \<Rightarrow> bytes \<Rightarrow> bool"
  assumes CreateFilter_appends: "CreateFilter keys dst = dst @ CreateFilter keys []"
    and no_false_negative: "key \<in> set keys \<Longrightarrow> KeyMayMatch key (CreateFilter keys [])"

subsection \<open>No false negatives\<close>

definition bit_at :: "bytes \<Rightarrow> nat \<Rightarrow> bool" where
  "bit_at array n \<longleftrightarrow> bit (array ! (n div 8)) (n mod 8)"

lemma and_push_bit_1: "(b :: byte) AND push_bit n 1 = 0 \<longleftrightarrow> \<not> bit b n"
  by (simp add: push_bit_eq_mult and_exp_eq_0_iff_not_bit)

lemma length_set_bit_at [simp]: "length (set_bit_at a n) = length a"
  by (simp add: set_bit_at_def)

lemma bit_at_set_bit_at:
  assumes "n div 8 < length a"
  shows "bit_at (set_bit_at a n) m \<longleftrightarrow> m = n \<or> bit_at a m"
proof (cases "m div 8 = n div 8")
  case True
  then have "m mod 8 = n mod 8 \<longleftrightarrow> m = n" by (metis div_mult_mod_eq)
  with True assms show ?thesis
    by (auto simp: set_bit_at_def bit_at_def bit_simps)
next
  case False
  then show ?thesis by (auto simp: set_bit_at_def bit_at_def)
qed

lemma length_Create_probes [simp]: "length (Create_probes bits h d k a) = length a"
  by (induction bits h d k a rule: Create_probes.induct) simp_all

lemma length_Create_keys [simp]: "length (Create_keys k bits keys a) = length a"
  by (induction k bits keys a rule: Create_keys.induct) (simp_all add: Let_def)

lemma bit_at_Create_probes:
  assumes "0 < bits" "bits = 8 * length a"
  shows "bit_at (Create_probes bits h d k a) m \<longleftrightarrow>
    bit_at a m \<or> (\<exists>j<k. m = unat (h + of_nat j * d) mod bits)"
  using assms
proof (induction bits h d k a rule: Create_probes.induct)
  case (2 bits h d j a)
  have "unat h mod bits div 8 < length a"
    using 2 mod_less_divisor [of bits "unat h"] by linarith
  then have IH: "bit_at (Create_probes bits h d (Suc j) a) m \<longleftrightarrow>
      (m = unat h mod bits \<or> bit_at a m) \<or> (\<exists>i<j. m = unat (h + d + of_nat i * d) mod bits)"
    using 2 by (simp add: bit_at_set_bit_at)
  moreover have "h + d + of_nat i * d = h + of_nat (Suc i) * d" for i
    by (simp add: algebra_simps)
  ultimately have "bit_at (Create_probes bits h d (Suc j) a) m \<longleftrightarrow>
      (m = unat h mod bits \<or> bit_at a m) \<or> (\<exists>i<j. m = unat (h + of_nat (Suc i) * d) mod bits)"
    by simp
  then show ?case by (auto simp: less_Suc_eq_0_disj)
qed simp

lemma bit_at_Create_keys:
  assumes "0 < bits" "bits = 8 * length a"
  shows "bit_at (Create_keys k bits keys a) m \<longleftrightarrow> bit_at a m \<or>
    (\<exists>key\<in>set keys. \<exists>j<k. m = unat (BloomHash key + of_nat j * rotate_17 (BloomHash key)) mod bits)"
  using assms
  by (induction k bits keys a rule: Create_keys.induct) (auto simp: Let_def bit_at_Create_probes)

lemma Match_probes_iff:
  "Match_probes bits h d k a \<longleftrightarrow> (\<forall>j<k. bit_at a (unat (h + of_nat j * d) mod bits))"
proof (induction bits h d k a rule: Match_probes.induct)
  case (2 bits h d j a)
  have "Match_probes bits h d (Suc j) a \<longleftrightarrow>
      bit_at a (unat h mod bits) \<and> Match_probes bits (h + d) d j a"
    by (simp add: Let_def bit_at_def and_exp_eq_0_iff_not_bit)
  moreover have "h + d + of_nat i * d = h + of_nat (Suc i) * d" for i
    by (simp add: algebra_simps)
  ultimately have "Match_probes bits h d (Suc j) a \<longleftrightarrow>
      bit_at a (unat h mod bits) \<and> (\<forall>i<j. bit_at a (unat (h + of_nat (Suc i) * d) mod bits))"
    using 2 by (metis (no_types, lifting) and_push_bit_1 bit_at_def)
  then show ?case by (auto simp: less_Suc_eq_0_disj)
qed simp

lemma bloom_k_bounds: "1 \<le> bloom_k (mk_BloomFilterPolicy bpk)" "bloom_k (mk_BloomFilterPolicy bpk) \<le> 30"
  by (simp_all add: mk_BloomFilterPolicy_def Let_def)

lemma Bloom_no_false_negative:
  assumes "key \<in> set keys" and k: "bloom_k p \<le> 30"
  shows "Bloom_KeyMayMatch key (Bloom_CreateFilter p keys [])"
proof -
  define bits where "bits = (if length keys * bits_per_key p < 64 then 64 else length keys * bits_per_key p)"
  define n where "n = (bits + 7) div 8"
  define a where "a = Create_keys (bloom_k p) (n * 8) keys (replicate n 0)"
  have "64 \<le> bits" by (simp add: bits_def)
  then have n: "0 < n" by (simp add: n_def div_greater_zero_iff)
  have f: "Bloom_CreateFilter p keys [] = a @ [of_nat (bloom_k p)]" "length a = n"
    by (simp_all add: Bloom_CreateFilter_def Let_def a_def n_def bits_def)
  have "unat (of_nat (bloom_k p) :: byte) = bloom_k p"
    using k by (intro unat_of_nat_small) simp
  moreover have "Match_probes (n * 8) (BloomHash key) (rotate_17 (BloomHash key)) (bloom_k p)
      (a @ [of_nat (bloom_k p)])"
    unfolding Match_probes_iff
  proof (intro allI impI)
    fix j assume "j < bloom_k p"
    let ?m = "unat (BloomHash key + of_nat j * rotate_17 (BloomHash key)) mod (n * 8)"
    have "bit_at a ?m"
      unfolding a_def using assms(1) n \<open>j < bloom_k p\<close> by (subst bit_at_Create_keys) auto
    moreover have "?m div 8 < length a"
      using n f(2) mod_less_divisor [of "n * 8"] by (simp add: div_less_iff_less_mult)
    ultimately show "bit_at (a @ [of_nat (bloom_k p)]) ?m" by (simp add: bit_at_def nth_append)
  qed
  ultimately show ?thesis
    using n f k by (simp add: Bloom_KeyMayMatch_def Let_def nth_append)
qed

interpretation bloom: filter_policy "Bloom_CreateFilter (mk_BloomFilterPolicy bpk)" Bloom_KeyMayMatch
  for bpk
  by unfold_locales (simp add: Bloom_CreateFilter_def Let_def, erule Bloom_no_false_negative [OF _ bloom_k_bounds(2)])

end
