(* ===== verification/Filter_Block.thy ===== *)
theory Filter_Block
  imports Bloom "HOL-Library.Sublist"
begin

unbundle bit_operations_syntax

text \<open>
  The filter block of a table (\<^verbatim>\<open>App/integration/filter_block.cpp\<close>): one filter for every 2 KB of
  data blocks, an array of filter offsets, and the reader that selects a filter by the offset
  of a data block.  Builder and reader are parameterised by the filter policy.
\<close>

definition kFilterBaseLg :: nat where "kFilterBaseLg = 11"

definition kFilterBase :: nat where "kFilterBase = 2 ^ kFilterBaseLg"

subsection \<open>The builder\<close>

record FilterBlockBuilder =
  fb_keys :: bytes
  fb_start :: "nat list"
  fb_result :: bytes
  fb_filter_offsets :: "uint32 list"

definition FilterBlockBuilder_init :: FilterBlockBuilder where
  "FilterBlockBuilder_init = \<lparr>fb_keys = [], fb_start = [], fb_result = [], fb_filter_offsets = []\<rparr>"

text \<open>\<open>create\<close> stands for \<^verbatim>\<open>policy_->CreateFilter\<close>.\<close>

definition GenerateFilter :: "(bytes list \<Rightarrow> bytes \<Rightarrow> bytes) \<Rightarrow> FilterBlockBuilder \<Rightarrow> FilterBlockBuilder" where
  "GenerateFilter create b =
     (let num_keys = length (fb_start b) in
      if num_keys = 0
      then b\<lparr>fb_filter_offsets := fb_filter_offsets b @ [of_nat (length (fb_result b))]\<rparr>
      else (let start = fb_start b @ [length (fb_keys b)];
                tmp_keys = map (\<lambda>i. take (start ! (i + 1) - start ! i) (drop (start ! i) (fb_keys b)))
                             [0..<num_keys]
            in \<lparr>fb_keys = [], fb_start = [],
                fb_result = create tmp_keys (fb_result b),
                fb_filter_offsets = fb_filter_offsets b @ [of_nat (length (fb_result b))]\<rparr>))"

text \<open>The loop of \<^verbatim>\<open>StartBlock\<close> runs as often as offsets are missing.\<close>

definition StartBlock ::
  "(bytes list \<Rightarrow> bytes \<Rightarrow> bytes) \<Rightarrow> uint64 \<Rightarrow> FilterBlockBuilder \<Rightarrow> FilterBlockBuilder" where
  "StartBlock create block_offset b =
     (let filter_index = unat block_offset div kFilterBase
      in (GenerateFilter create ^^ (filter_index - length (fb_filter_offsets b))) b)"

definition AddKey :: "bytes \<Rightarrow> FilterBlockBuilder \<Rightarrow> FilterBlockBuilder" where
  "AddKey k b = b\<lparr>fb_start := fb_start b @ [length (fb_keys b)], fb_keys := fb_keys b @ k\<rparr>"

definition Filter_Finish :: "(bytes list \<Rightarrow> bytes \<Rightarrow> bytes) \<Rightarrow> FilterBlockBuilder \<Rightarrow> bytes" where
  "Filter_Finish create b =
     (let b = (if fb_start b \<noteq> [] then GenerateFilter create b else b);
          array_offset = (of_nat (length (fb_result b)) :: uint32);
          result = foldl PutFixed32 (fb_result b) (fb_filter_offsets b)
      in PutFixed32 result array_offset @ [of_nat kFilterBaseLg])"

text \<open>The calls a table builder makes: for every data block its offset, then its keys.\<close>

definition build_filters ::
  "(bytes list \<Rightarrow> bytes \<Rightarrow> bytes) \<Rightarrow> (uint64 \<times> bytes list) list \<Rightarrow> FilterBlockBuilder" where
  "build_filters create blocks =
     foldl (\<lambda>b (offset, ks). foldl (\<lambda>b k. AddKey k b) (StartBlock create offset b) ks)
       FilterBlockBuilder_init blocks"

subsection \<open>The reader\<close>

text \<open>
  The pointers \<^verbatim>\<open>data_\<close> and \<^verbatim>\<open>offset_\<close> are the whole contents and a position in it; \<open>num = 0\<close> when
  the contents are malformed.
\<close>

record FilterBlockReader =
  fr_data :: bytes
  fr_offset :: nat
  fr_num :: nat
  fr_base_lg :: nat

definition mk_FilterBlockReader :: "bytes \<Rightarrow> FilterBlockReader" where
  "mk_FilterBlockReader contents =
     (let n = length contents; r = \<lparr>fr_data = [], fr_offset = 0, fr_num = 0, fr_base_lg = 0\<rparr> in
      if n < 5 then r
      else (let r = r\<lparr>fr_base_lg := unat (contents ! (n - 1))\<rparr> in
            case DecodeFixed32 (drop (n - 5) contents) of
              None \<Rightarrow> r
            | Some last_word \<Rightarrow>
                if unat last_word > n - 5 then r
                else r\<lparr>fr_data := contents, fr_offset := unat last_word,
                       fr_num := (n - 5 - unat last_word) div 4\<rparr>))"

text \<open>\<open>match\<close> stands for \<^verbatim>\<open>policy_->KeyMayMatch\<close>; a shift by 64 or more has no defined result.\<close>

definition FilterBlock_KeyMayMatch ::
  "(bytes \<Rightarrow> bytes \<Rightarrow> bool) \<Rightarrow> FilterBlockReader \<Rightarrow> uint64 \<Rightarrow> bytes \<Rightarrow> bool option" where
  "FilterBlock_KeyMayMatch match r block_offset key =
     (if fr_base_lg r \<ge> 64 then None
      else (let index = unat (drop_bit (fr_base_lg r) block_offset) in
        if index < fr_num r
        then (case (DecodeFixed32 (drop (fr_offset r + index * 4) (fr_data r)),
                    DecodeFixed32 (drop (fr_offset r + index * 4 + 4) (fr_data r))) of
                (Some start, Some limit) \<Rightarrow>
                  if start \<le> limit \<and> unat limit \<le> fr_offset r
                  then Some (match key (take (unat limit - unat start) (drop (unat start) (fr_data r))))
                  else if start = limit then Some False
                  else Some True
              | _ \<Rightarrow> None)
        else Some True))"

subsection \<open>The layout of the block\<close>

text \<open>
  A builder represents a list of finished filters \<open>fs\<close> and a list of keys \<open>ks\<close> that wait for
  the next filter.
\<close>

definition starts_of :: "bytes list \<Rightarrow> nat list" where
  "starts_of xs = map (\<lambda>i. length (concat (take i xs))) [0..<length xs]"

definition fb_rep :: "bytes list \<Rightarrow> bytes list \<Rightarrow> FilterBlockBuilder \<Rightarrow> bool" where
  "fb_rep fs ks b \<longleftrightarrow>
     fb_keys b = concat ks \<and> fb_start b = starts_of ks \<and>
     fb_result b = concat fs \<and> fb_filter_offsets b = map of_nat (starts_of fs)"

lemma length_starts_of [simp]: "length (starts_of xs) = length xs"
  by (simp add: starts_of_def)

lemma starts_of_Nil [simp]: "starts_of [] = []" "starts_of xs = [] \<longleftrightarrow> xs = []"
  by (auto simp: starts_of_def)

lemma starts_of_snoc: "starts_of (xs @ [x]) = starts_of xs @ [length (concat xs)]"
  by (simp add: starts_of_def)

lemma nth_starts_of: "i < length xs \<Longrightarrow> starts_of xs ! i = length (concat (take i xs))"
  by (simp add: starts_of_def)

lemma nth_starts_of_snoc:
  "i \<le> length xs \<Longrightarrow> (starts_of xs @ [length (concat xs)]) ! i = length (concat (take i xs))"
  by (auto simp: nth_append nth_starts_of)

lemma slice_concat:
  assumes "i < length xs"
  shows "take (length (concat (take (i + 1) xs)) - length (concat (take i xs)))
      (drop (length (concat (take i xs))) (concat xs @ ys)) = xs ! i"
proof -
  have "xs = take i xs @ xs ! i # drop (Suc i) xs" using assms by (rule id_take_nth_drop)
  then have "concat xs = concat (take i xs) @ xs ! i @ concat (drop (Suc i) xs)"
    by (metis concat.simps(2) concat_append)
  then have "concat xs @ ys = concat (take i xs) @ xs ! i @ concat (drop (Suc i) xs) @ ys" by simp
  moreover have "length (concat (take (i + 1) xs)) = length (concat (take i xs)) + length (xs ! i)"
    using assms by (simp add: take_Suc_conv_app_nth)
  ultimately show ?thesis by simp
qed

lemma fb_rep_init: "fb_rep [] [] FilterBlockBuilder_init"
  by (simp add: fb_rep_def FilterBlockBuilder_init_def)

lemma fb_rep_AddKey: "fb_rep fs ks b \<Longrightarrow> fb_rep fs (ks @ [k]) (AddKey k b)"
  by (simp add: fb_rep_def AddKey_def starts_of_snoc)

lemma tmp_keys_eq:
  assumes "fb_rep fs ks b"
  shows "map (\<lambda>i. take ((fb_start b @ [length (fb_keys b)]) ! (i + 1) - (fb_start b @ [length (fb_keys b)]) ! i)
      (drop ((fb_start b @ [length (fb_keys b)]) ! i) (fb_keys b))) [0..<length (fb_start b)] = ks"
proof (rule nth_equalityI)
  fix i
  assume "i < length (map (\<lambda>i. take ((fb_start b @ [length (fb_keys b)]) ! (i + 1) -
      (fb_start b @ [length (fb_keys b)]) ! i)
      (drop ((fb_start b @ [length (fb_keys b)]) ! i) (fb_keys b))) [0..<length (fb_start b)])"
  then have i: "i < length ks" using assms by (simp add: fb_rep_def)
  then show "map (\<lambda>i. take ((fb_start b @ [length (fb_keys b)]) ! (i + 1) -
      (fb_start b @ [length (fb_keys b)]) ! i)
      (drop ((fb_start b @ [length (fb_keys b)]) ! i) (fb_keys b))) [0..<length (fb_start b)] ! i = ks ! i"
    using assms slice_concat [OF i, of "[]"] nth_starts_of_snoc [of i ks] nth_starts_of_snoc [of "i + 1" ks]
    by (simp add: fb_rep_def)
qed (use assms in \<open>simp add: fb_rep_def\<close>)

subsection \<open>Fixed-width arrays\<close>

lemma foldl_PutFixed32: "foldl PutFixed32 r ws = r @ concat (map EncodeFixed32 ws)"
  by (induction ws arbitrary: r) (simp_all add: PutFixed32_def)

lemma length_concat_Fixed32 [simp]: "length (concat (map EncodeFixed32 ws)) = 4 * length ws"
  by (induction ws) simp_all

lemma DecodeFixed32_nth:
  "i < length ws \<Longrightarrow> DecodeFixed32 (drop (4 * i) (concat (map EncodeFixed32 ws) @ r)) = Some (ws ! i)"
proof (induction ws arbitrary: i)
  case (Cons w ws)
  then show ?case by (cases i) (simp_all add: DecodeFixed32_Encode)
qed simp

definition filter_layout :: "bytes list \<Rightarrow> bytes" where
  "filter_layout fs =
     concat fs @ concat (map EncodeFixed32 (map of_nat (starts_of fs) @ [of_nat (length (concat fs))])) @ [11]"

lemma starts_of_less: "i < length xs \<Longrightarrow> starts_of xs ! i \<le> length (concat xs)"
  by (metis append_take_drop_id concat_append le_add1 length_append nth_starts_of)

lemma layout_match:
  assumes small: "length (concat fs) < 2 ^ 32" and i: "unat offset div kFilterBase < length fs"
  shows "FilterBlock_KeyMayMatch match (mk_FilterBlockReader (filter_layout fs)) offset key =
    Some (match key (fs ! (unat offset div kFilterBase)))"
proof -
  define i where "i = unat offset div kFilterBase"
  define ws where "ws = map of_nat (starts_of fs) @ [of_nat (length (concat fs)) :: uint32]"
  let ?C = "concat fs"
  have lay: "filter_layout fs = ?C @ concat (map EncodeFixed32 ws) @ [11]"
    by (simp only: filter_layout_def ws_def)
  have lws: "length ws = Suc (length fs)" by (simp add: ws_def)
  have le: "length (concat (take j fs)) \<le> length ?C" for j
    by (metis append_take_drop_id concat_append le_add1 length_append)
  have sz: "unat (of_nat n :: uint32) = n" if "n \<le> length ?C" for n
    using that small by (intro unat_of_nat_small) simp
  have wj: "unat (ws ! j) = length (concat (take j fs))" if "j \<le> length fs" for j
    using that sz le [of j] by (auto simp: ws_def nth_append nth_starts_of)
  have word: "DecodeFixed32 (drop (length ?C + 4 * j) (filter_layout fs)) = Some (ws ! j)"
    if "j \<le> length fs" for j
    using DecodeFixed32_nth [of j ws "[11]"] that lws by (simp add: lay)
  have len: "length (filter_layout fs) = length ?C + 4 * length fs + 5"
    by (simp add: lay lws)
  have base: "filter_layout fs ! (4 + (length ?C + 4 * length fs)) = 11"
    by (simp add: lay nth_append lws)
  define r where "r = \<lparr>fr_data = filter_layout fs, fr_offset = length ?C, fr_num = length fs, fr_base_lg = 11\<rparr>"
  have "mk_FilterBlockReader (filter_layout fs) = r"
    using len word [of "length fs"] wj [of "length fs"] base
    by (simp add: mk_FilterBlockReader_def r_def Let_def)
  moreover have index: "unat (drop_bit 11 offset) = i"
    by (simp add: unat_drop_bit_div i_def kFilterBase_def kFilterBaseLg_def)
  moreover have il: "i < length fs" using i by (simp add: i_def)
  moreover have "DecodeFixed32 (drop (length ?C + i * 4) (filter_layout fs)) = Some (ws ! i)"
    "DecodeFixed32 (drop (length ?C + i * 4 + 4) (filter_layout fs)) = Some (ws ! (i + 1))"
    using word [of i] word [of "i + 1"] il by (simp_all add: algebra_simps)
  moreover have "ws ! i \<le> ws ! (i + 1)" "unat (ws ! (i + 1)) \<le> length ?C"
    using wj [of i] wj [of "i + 1"] il le [of "i + 1"]
    by (simp_all add: word_le_nat_alt take_Suc_conv_app_nth)
  moreover have "take (unat (ws ! (i + 1)) - unat (ws ! i)) (drop (unat (ws ! i)) (filter_layout fs)) = fs ! i"
  proof -
    have "unat (ws ! i) = length (concat (take i fs))" "unat (ws ! (i + 1)) = length (concat (take (i + 1) fs))"
      using il by (simp_all add: wj)
    then show ?thesis unfolding lay by (simp only: slice_concat [OF il])
  qed
  ultimately show ?thesis
    unfolding FilterBlock_KeyMayMatch_def by (simp add: r_def Let_def flip: i_def)
qed

subsection \<open>No false negatives, for every filter policy\<close>

context filter_policy
begin

definition filter_of :: "bytes list \<Rightarrow> bytes" where
  "filter_of ks = (if ks = [] then [] else CreateFilter ks [])"

definition fb_groups :: "bytes list list \<Rightarrow> bytes list \<Rightarrow> FilterBlockBuilder \<Rightarrow> bool" where
  "fb_groups gs ks b \<longleftrightarrow> fb_rep (map filter_of gs) ks b"

lemma groups_offsets: "fb_groups gs ks b \<Longrightarrow> length (fb_filter_offsets b) = length gs"
  by (simp add: fb_groups_def fb_rep_def)

lemma groups_Generate:
  assumes "fb_groups gs ks b"
  shows "fb_groups (gs @ [ks]) [] (GenerateFilter CreateFilter b)"
proof (cases "ks = []")
  case True
  with assms show ?thesis
    by (simp add: fb_groups_def fb_rep_def GenerateFilter_def filter_of_def starts_of_snoc)
next
  case False
  have rep: "fb_rep (map filter_of gs) ks b" using assms by (simp add: fb_groups_def)
  have "fb_start b \<noteq> []" using rep False by (simp add: fb_rep_def)
  then have "GenerateFilter CreateFilter b =
    \<lparr>fb_keys = [], fb_start = [], fb_result = CreateFilter ks (fb_result b),
     fb_filter_offsets = fb_filter_offsets b @ [of_nat (length (fb_result b))]\<rparr>"
    using tmp_keys_eq [OF rep] by (simp add: GenerateFilter_def Let_def)
  then show ?thesis
    using rep False CreateFilter_appends [of ks "fb_result b"]
    by (simp add: fb_groups_def fb_rep_def filter_of_def starts_of_snoc)
qed

lemma groups_Generate_iterate:
  "fb_groups gs [] b \<Longrightarrow> fb_groups (gs @ replicate n []) [] ((GenerateFilter CreateFilter ^^ n) b)"
proof (induction n)
  case (Suc n)
  then show ?case
    using groups_Generate [of "gs @ replicate n []" "[]"] by (simp add: replicate_append_same)
qed simp

lemma groups_StartBlock:
  assumes rep: "fb_groups gs ks b" and le: "length gs \<le> unat offset div kFilterBase"
  shows "\<exists>gs' ks'. fb_groups gs' ks' (StartBlock CreateFilter offset b) \<and>
    length gs' = unat offset div kFilterBase \<and> prefix (gs @ [ks]) (gs' @ [ks'])"
proof (cases "length gs = unat offset div kFilterBase")
  case True
  with rep show ?thesis by (auto simp: StartBlock_def groups_offsets [OF rep])
next
  case False
  then obtain n where n: "unat offset div kFilterBase = length gs + Suc n"
    using le by (metis add_Suc_right le_Suc_ex less_iff_Suc_add order_le_less)
  have "fb_groups (gs @ [ks] @ replicate n []) [] ((GenerateFilter CreateFilter ^^ Suc n) b)"
    using groups_Generate_iterate [OF groups_Generate [OF rep], of n]
    by (simp add: funpow_swap1)
  then show ?thesis
    using n groups_offsets [OF rep] by (intro exI [of _ "gs @ [ks] @ replicate n []"]) (auto simp: StartBlock_def)
qed

lemma groups_AddKeys: "fb_groups gs ks b \<Longrightarrow> fb_groups gs (ks @ kl) (foldl (\<lambda>b k. AddKey k b) b kl)"
proof (induction kl arbitrary: ks b)
  case (Cons k kl)
  then have "fb_groups gs (ks @ [k]) (AddKey k b)" by (simp add: fb_groups_def fb_rep_AddKey)
  from Cons.IH [OF this] show ?case by simp
qed simp

text \<open>After any run with non-decreasing offsets every key is in the group of its block.\<close>

definition grouped :: "bytes list list \<Rightarrow> (uint64 \<times> bytes list) list \<Rightarrow> bool" where
  "grouped gs blocks \<longleftrightarrow> (\<forall>(offset, kl)\<in>set blocks.
     unat offset div kFilterBase < length gs \<and> set kl \<subseteq> set (gs ! (unat offset div kFilterBase)))"

lemma grouped_prefix:
  assumes "grouped gs blocks" "prefix gs gs'"
  shows "grouped gs' blocks"
proof -
  obtain r where "gs' = gs @ r" using assms(2) by (auto simp: prefix_def)
  then show ?thesis using assms(1) by (fastforce simp: grouped_def nth_append)
qed

lemma grouped_more: "grouped (gs @ [ks]) blocks \<Longrightarrow> grouped (gs @ [ks @ kl]) blocks"
  by (fastforce simp: grouped_def nth_append split: if_splits)

lemma build_filters_groups:
  assumes "sorted (map fst blocks)"
  shows "\<exists>gs ks. fb_groups gs ks (build_filters CreateFilter blocks) \<and> grouped (gs @ [ks]) blocks \<and>
    length gs = (if blocks = [] then 0 else unat (fst (last blocks)) div kFilterBase)"
  using assms
proof (induction blocks rule: rev_induct)
  case Nil
  then show ?case
    using fb_rep_init by (intro exI [of _ "[]"]) (simp add: build_filters_def fb_groups_def grouped_def)
next
  case (snoc blk blocks)
  obtain offset kl where blk: "blk = (offset, kl)" by fastforce
  from snoc obtain gs ks where b: "fb_groups gs ks (build_filters CreateFilter blocks)"
    "grouped (gs @ [ks]) blocks"
    "length gs = (if blocks = [] then 0 else unat (fst (last blocks)) div kFilterBase)"
    by (auto simp: sorted_append)
  have "fst (last blocks) \<le> offset" if "blocks \<noteq> []"
    using snoc.prems that blk by (auto simp: sorted_append)
  then have "length gs \<le> unat offset div kFilterBase"
    using b(3) by (auto simp: word_le_nat_alt intro: div_le_mono)
  from groups_StartBlock [OF b(1) this] obtain gs' ks' where
    s: "fb_groups gs' ks' (StartBlock CreateFilter offset (build_filters CreateFilter blocks))"
    "length gs' = unat offset div kFilterBase" "prefix (gs @ [ks]) (gs' @ [ks'])" by blast
  have "fb_groups gs' (ks' @ kl) (build_filters CreateFilter (blocks @ [blk]))"
    using groups_AddKeys [OF s(1), of kl] by (simp add: build_filters_def blk)
  moreover have "grouped (gs' @ [ks' @ kl]) (blocks @ [blk])"
    using grouped_more [OF grouped_prefix [OF b(2) s(3)], of kl] s(2)
    by (auto simp: grouped_def blk nth_append)
  ultimately show ?case using s(2) by (intro exI [of _ gs'] exI [of _ "ks' @ kl"]) (simp add: blk)
qed

lemma Filter_Finish_layout:
  assumes rep: "fb_groups gs ks b"
  shows "Filter_Finish CreateFilter b = filter_layout (map filter_of (if ks = [] then gs else gs @ [ks]))"
proof -
  have fin: "PutFixed32 (foldl PutFixed32 (fb_result b') (fb_filter_offsets b'))
      (of_nat (length (fb_result b'))) @ [of_nat kFilterBaseLg] = filter_layout (map filter_of gs')"
    if "fb_groups gs' ks' b'" for gs' ks' b'
    using that by (simp add: fb_groups_def fb_rep_def foldl_PutFixed32 filter_layout_def PutFixed32_def
        kFilterBaseLg_def)
  have "fb_start b \<noteq> [] \<longleftrightarrow> ks \<noteq> []" using rep by (simp add: fb_groups_def fb_rep_def)
  then show ?thesis
    using fin [OF rep] fin [OF groups_Generate [OF rep]] by (simp add: Filter_Finish_def Let_def)
qed

lemma filter_block_no_false_negative:
  assumes sorted: "sorted (map fst blocks)"
    and small: "length (Filter_Finish CreateFilter (build_filters CreateFilter blocks)) < 2 ^ 32"
    and blk: "(offset, kl) \<in> set blocks" and k: "k \<in> set kl"
  shows "FilterBlock_KeyMayMatch KeyMayMatch
    (mk_FilterBlockReader (Filter_Finish CreateFilter (build_filters CreateFilter blocks))) offset k = Some True"
proof -
  from build_filters_groups [OF sorted] obtain gs ks where
    rep: "fb_groups gs ks (build_filters CreateFilter blocks)" and gr: "grouped (gs @ [ks]) blocks" by blast
  let ?i = "unat offset div kFilterBase" and ?gs = "if ks = [] then gs else gs @ [ks]"
  have i: "?i < length (gs @ [ks])" "k \<in> set ((gs @ [ks]) ! ?i)"
    using gr blk k by (auto simp: grouped_def)
  then have gi: "?i < length ?gs" "k \<in> set (?gs ! ?i)"
    by (auto simp: nth_append split: if_splits)
  have lay: "Filter_Finish CreateFilter (build_filters CreateFilter blocks) = filter_layout (map filter_of ?gs)"
    by (rule Filter_Finish_layout [OF rep])
  then have "length (concat (map filter_of ?gs)) < 2 ^ 32" using small by (simp add: filter_layout_def)
  moreover have "filter_of (?gs ! ?i) = CreateFilter (?gs ! ?i) []" using gi(2) by (auto simp: filter_of_def)
  ultimately show ?thesis
    unfolding lay using gi no_false_negative [OF gi(2)] by (subst layout_match) simp_all
qed

end

subsection \<open>Properties\<close>

text \<open>
  C30: the filter block of a table never hides a key: for data blocks with non-decreasing offsets, a
  reader opened on the finished block answers "may match" for every key added after the
  \<^verbatim>\<open>StartBlock\<close> of its data block, for Bloom filters of any number of bits per key.
\<close>

theorem bloom_filter_block_sound:
  assumes "sorted (map fst blocks)"
    and "length (Filter_Finish (Bloom_CreateFilter (mk_BloomFilterPolicy bpk))
      (build_filters (Bloom_CreateFilter (mk_BloomFilterPolicy bpk)) blocks)) < 2 ^ 32"
    and "(offset, kl) \<in> set blocks" and "k \<in> set kl"
  shows "FilterBlock_KeyMayMatch Bloom_KeyMayMatch
    (mk_FilterBlockReader (Filter_Finish (Bloom_CreateFilter (mk_BloomFilterPolicy bpk))
      (build_filters (Bloom_CreateFilter (mk_BloomFilterPolicy bpk)) blocks))) offset k = Some True"
  using assms by (rule bloom.filter_block_no_false_negative)

theorem bloom_filter_block_sound_witness:
  "FilterBlock_KeyMayMatch Bloom_KeyMayMatch
    (mk_FilterBlockReader (Filter_Finish (Bloom_CreateFilter (mk_BloomFilterPolicy 10))
      (build_filters (Bloom_CreateFilter (mk_BloomFilterPolicy 10)) [(0, [[1], [2]]), (2048, [[7]])]))) 2048 [7] =
     Some True"
proof (rule bloom_filter_block_sound [where kl = "[[7]]"])
  show "length (Filter_Finish (Bloom_CreateFilter (mk_BloomFilterPolicy 10))
      (build_filters (Bloom_CreateFilter (mk_BloomFilterPolicy 10)) [(0, [[1], [2]]), (2048, [[7]])])) < 2 ^ 32"
    by (simp add: Filter_Finish_def build_filters_def StartBlock_def AddKey_def GenerateFilter_def
        FilterBlockBuilder_init_def kFilterBase_def kFilterBaseLg_def foldl_PutFixed32 PutFixed32_def
        Bloom_CreateFilter_def mk_BloomFilterPolicy_def Let_def)
qed simp_all

end
