(* ===== verification/Status.thy ===== *)
theory Status
  imports Coding
begin

text \<open>
  Statuses (\<^verbatim>\<open>App/integration/status.h\<close>, \<^verbatim>\<open>status.cpp\<close>): a null pointer for success, otherwise an
  array holding the length of the message, the code and the message.
\<close>

text \<open>C string literals as byte lists.\<close>

definition str :: "string \<Rightarrow> bytes" where
  "str s = map of_char s"

lemma length_str [simp]: "length (str s) = length s"
  by (simp add: str_def)

datatype Code = kOk | kNotFound | kCorruption | kNotSupported | kInvalidArgument | kIOError

primrec Code_value :: "Code \<Rightarrow> byte" where
  "Code_value kOk = 0"
| "Code_value kNotFound = 1"
| "Code_value kCorruption = 2"
| "Code_value kNotSupported = 3"
| "Code_value kInvalidArgument = 4"
| "Code_value kIOError = 5"

text \<open>The field \<^verbatim>\<open>state_\<close>; \<open>None\<close> is the null pointer.\<close>

type_synonym Status = "bytes option"

text \<open>
  The private constructor asserts \<^verbatim>\<open>code != kOk\<close>.  The assertion is a precondition here: only the
  five named constructors below call it, each with another code.
\<close>

definition mk_Status :: "Code \<Rightarrow> bytes \<Rightarrow> bytes \<Rightarrow> Status" where
  "mk_Status code msg msg2 =
     (let len1 = of_nat (length msg) :: uint32;
          len2 = of_nat (length msg2) :: uint32;
          size = len1 + (if len2 \<noteq> 0 then 2 + len2 else 0)
      in Some (EncodeFixed32 size @ [Code_value code] @ msg @ (if len2 \<noteq> 0 then str '': '' @ msg2 else [])))"

definition Status_OK :: Status where
  "Status_OK = None"

definition NotFound :: "bytes \<Rightarrow> bytes \<Rightarrow> Status" where
  "NotFound msg msg2 = mk_Status kNotFound msg msg2"

definition Corruption :: "bytes \<Rightarrow> bytes \<Rightarrow> Status" where
  "Corruption msg msg2 = mk_Status kCorruption msg msg2"

definition NotSupported :: "bytes \<Rightarrow> bytes \<Rightarrow> Status" where
  "NotSupported msg msg2 = mk_Status kNotSupported msg msg2"

definition InvalidArgument :: "bytes \<Rightarrow> bytes \<Rightarrow> Status" where
  "InvalidArgument msg msg2 = mk_Status kInvalidArgument msg msg2"

definition IOError :: "bytes \<Rightarrow> bytes \<Rightarrow> Status" where
  "IOError msg msg2 = mk_Status kIOError msg msg2"

definition Status_ok :: "Status \<Rightarrow> bool" where
  "Status_ok s \<longleftrightarrow> s = None"

definition Status_code :: "Status \<Rightarrow> byte" where
  "Status_code s = (case s of None \<Rightarrow> Code_value kOk | Some st \<Rightarrow> st ! 4)"

definition IsNotFound :: "Status \<Rightarrow> bool" where
  "IsNotFound s \<longleftrightarrow> Status_code s = Code_value kNotFound"

definition IsCorruption :: "Status \<Rightarrow> bool" where
  "IsCorruption s \<longleftrightarrow> Status_code s = Code_value kCorruption"

definition IsIOError :: "Status \<Rightarrow> bool" where
  "IsIOError s \<longleftrightarrow> Status_code s = Code_value kIOError"

text \<open>\<^verbatim>\<open>CopyState\<close>, used by the copy constructor and by assignment.\<close>

definition CopyState :: "bytes \<Rightarrow> bytes" where
  "CopyState state = (let size = the (DecodeFixed32 state) in take (unat (size + 5)) state)"

definition Status_copy :: "Status \<Rightarrow> Status" where
  "Status_copy s = (case s of None \<Rightarrow> None | Some st \<Rightarrow> Some (CopyState st))"

definition Status_type :: "Code \<Rightarrow> bytes" where
  "Status_type c =
     (case c of kOk \<Rightarrow> str ''OK'' | kNotFound \<Rightarrow> str ''NotFound: '' | kCorruption \<Rightarrow> str ''Corruption: ''
      | kNotSupported \<Rightarrow> str ''Not implemented: '' | kInvalidArgument \<Rightarrow> str ''Invalid argument: ''
      | kIOError \<Rightarrow> str ''IO error: '')"

text \<open>
  \<^verbatim>\<open>ToString\<close>.  Only the constructors above build statuses, so the code is one of the six; the
  \<^verbatim>\<open>default\<close> branch for other codes is \<open>None\<close> here.
\<close>

definition Code_of :: "byte \<Rightarrow> Code option" where
  "Code_of b =
     (if b = 0 then Some kOk else if b = 1 then Some kNotFound else if b = 2 then Some kCorruption
      else if b = 3 then Some kNotSupported else if b = 4 then Some kInvalidArgument
      else if b = 5 then Some kIOError else None)"

definition Status_ToString :: "Status \<Rightarrow> bytes option" where
  "Status_ToString s =
     (case s of
        None \<Rightarrow> Some (str ''OK'')
      | Some st \<Rightarrow>
          (case Code_of (Status_code s) of
             None \<Rightarrow> None
           | Some c \<Rightarrow> Some (Status_type c @ take (unat (the (DecodeFixed32 st))) (drop 5 st))))"

subsection \<open>Lemmas\<close>

lemma Code_of_value [simp]: "Code_of (Code_value c) = Some c"
  by (cases c) (simp_all add: Code_of_def)

lemma Code_value_inj [simp]: "Code_value c = Code_value d \<longleftrightarrow> c = d"
  by (metis Code_of_value option.inject)

text \<open>The text of a status: the two messages, separated when there is a second one.\<close>

definition status_text :: "bytes \<Rightarrow> bytes \<Rightarrow> bytes" where
  "status_text msg msg2 = msg @ (if msg2 = [] then [] else str '': '' @ msg2)"

lemma mk_Status_eq:
  assumes "length msg + length msg2 + 7 < 2 ^ 32"
  shows "mk_Status c msg msg2 = Some (EncodeFixed32 (of_nat (length (status_text msg msg2))) @
    Code_value c # status_text msg msg2)"
proof -
  have "unat (of_nat (length msg2) :: uint32) = length msg2"
    using assms by (intro unat_of_nat_small) simp
  then have "(of_nat (length msg2) :: uint32) = 0 \<longleftrightarrow> msg2 = []"
    by (metis length_0_conv unat_eq_zero)
  then show ?thesis by (auto simp: mk_Status_def Let_def status_text_def add.assoc)
qed

lemma mk_Status_not_None [simp]: "mk_Status c m m2 \<noteq> None"
  by (simp add: mk_Status_def Let_def)

lemma Status_code_mk [simp]: "Status_code (mk_Status c m m2) = Code_value c"
  by (simp add: mk_Status_def Let_def Status_code_def EncodeFixed32_def)

lemma status_ok_simps [simp]:
  "Status_ok Status_OK" "\<not> Status_ok (NotFound m m2)" "\<not> Status_ok (Corruption m m2)"
  "\<not> Status_ok (NotSupported m m2)" "\<not> Status_ok (InvalidArgument m m2)" "\<not> Status_ok (IOError m m2)"
  by (simp_all only: Status_ok_def Status_OK_def NotFound_def Corruption_def NotSupported_def
      InvalidArgument_def IOError_def mk_Status_not_None not_False_eq_True)

lemma Status_eq_OK [simp]:
  "Corruption m m2 \<noteq> Status_OK" "Status_OK \<noteq> Corruption m m2"
  "IOError m m2 \<noteq> Status_OK" "Status_OK \<noteq> IOError m m2"
  by (metis status_ok_simps)+

lemma IsCorruption_simps [simp]: "IsCorruption (Corruption m m2)" "\<not> IsCorruption Status_OK"
  by (simp_all add: IsCorruption_def Corruption_def Status_OK_def Status_code_def [of None])

subsection \<open>Properties\<close>

text \<open>
  C40: a status built with a code other than \<^verbatim>\<open>kOk\<close>, as the constructor requires, keeps its code
  and its messages: it is not ok, the code and the predicates on it answer with the code it was
  built with, a copy of it is the same status, and its text is the prefix of the code followed by
  the messages, joined by a colon when the second is not empty.
\<close>

theorem status_roundtrip:
  assumes "c \<noteq> kOk" and "length msg + length msg2 + 12 < 2 ^ 32"
  shows "Status_code (mk_Status c msg msg2) = Code_value c \<and>
    (Status_ok (mk_Status c msg msg2) \<longleftrightarrow> Status_code (mk_Status c msg msg2) = Code_value kOk) \<and>
    (IsNotFound (mk_Status c msg msg2) \<longleftrightarrow> c = kNotFound) \<and>
    (IsCorruption (mk_Status c msg msg2) \<longleftrightarrow> c = kCorruption) \<and>
    (IsIOError (mk_Status c msg msg2) \<longleftrightarrow> c = kIOError) \<and>
    Status_copy (mk_Status c msg msg2) = mk_Status c msg msg2 \<and>
    Status_ToString (mk_Status c msg msg2) = Some (Status_type c @ msg @ (if msg2 = [] then [] else str '': '' @ msg2))"
proof -
  let ?t = "status_text msg msg2"
  have len: "length ?t + 5 < 2 ^ 32" using assms by (simp add: status_text_def)
  then have u: "unat (of_nat (length ?t) :: uint32) = length ?t"
    "unat ((of_nat (length ?t) :: uint32) + 5) = length ?t + 5"
    using unat_of_nat_small [where 'a = 32, of "length ?t"] unat_of_nat_small [where 'a = 32, of "length ?t + 5"]
    by simp_all
  note eq = mk_Status_eq [of msg msg2 c]
  have m: "mk_Status c msg msg2 = Some (EncodeFixed32 (of_nat (length ?t)) @ Code_value c # ?t)"
    using assms eq by simp
  have "Status_copy (mk_Status c msg msg2) = mk_Status c msg msg2"
    unfolding m by (simp add: Status_copy_def CopyState_def DecodeFixed32_Encode Let_def u)
  moreover have "Status_ToString (mk_Status c msg msg2) = Some (Status_type c @ ?t)"
    unfolding Status_ToString_def Status_code_mk unfolding m
    by (simp add: DecodeFixed32_Encode u)
  moreover have "Status_ok (mk_Status c msg msg2) \<longleftrightarrow> Status_code (mk_Status c msg msg2) = Code_value kOk"
    using assms(1) by (cases c) (simp_all add: Status_ok_def)
  ultimately show ?thesis
    unfolding IsNotFound_def IsCorruption_def IsIOError_def Status_code_mk Code_value_inj status_text_def
    by blast
qed

theorem status_roundtrip_witness:
  "Status_ToString (mk_Status kCorruption (str ''bad'') (str ''file'')) = Some (str ''Corruption: bad: file'')"
proof -
  have "Status_ToString (mk_Status kCorruption (str ''bad'') (str ''file'')) =
    Some (Status_type kCorruption @ str ''bad'' @ (if str ''file'' = [] then [] else str '': '' @ str ''file''))"
    using status_roundtrip [of kCorruption "str ''bad''" "str ''file''"] by simp
  then show ?thesis by (simp add: Status_type_def str_def)
qed

end
