(* ===== verification/Comparator.thy ===== *)
theory Comparator
  imports Coding "HOL-Library.List_Lexorder"
begin

unbundle bit_operations_syntax

text \<open>
  \<^verbatim>\<open>Slice::compare\<close> (\<^verbatim>\<open>App/integration/slice.h\<close>) and the bytewise comparator
  (\<^verbatim>\<open>App/integration/comparator.cpp\<close>).  The interface \<^verbatim>\<open>Comparator\<close> of
  \<^verbatim>\<open>comparator.h\<close> is the locale \<open>comparator\<close>, extended to \<open>shortening_comparator\<close>
  by the two key-shortening operations; components that work with any comparator are
  verified inside these locales.
\<close>

subsection \<open>Slice comparison\<close>

text \<open>\<^verbatim>\<open>memcmp\<close> of the C library, up to the magnitude of a non-zero result.\<close>

fun memcmp :: "bytes \<Rightarrow> bytes \<Rightarrow> nat \<Rightarrow> int" where
  "memcmp (x # a) (y # b) (Suc n) =
     (if x < y then -1 else if x > y then 1 else memcmp a b n)"
| "memcmp _ _ _ = 0"

definition Slice_compare :: "bytes \<Rightarrow> bytes \<Rightarrow> int" where
  "Slice_compare a b =
     (let min_len = (if length a < length b then length a else length b);
          r = memcmp a b min_len
      in if r = 0
         then (if length a < length b then -1 else if length a > length b then 1 else r)
         else r)"

definition Slice_eq :: "bytes \<Rightarrow> bytes \<Rightarrow> bool" where
  "Slice_eq x y \<longleftrightarrow> length x = length y \<and> memcmp x y (length x) = 0"

definition starts_with :: "bytes \<Rightarrow> bytes \<Rightarrow> bool" where
  "starts_with s x \<longleftrightarrow> length s \<ge> length x \<and> memcmp s x (length x) = 0"

subsection \<open>The bytewise comparator\<close>

definition Bytewise_Compare :: "bytes \<Rightarrow> bytes \<Rightarrow> int" where
  "Bytewise_Compare a b = Slice_compare a b"

function diff_index_loop :: "bytes \<Rightarrow> bytes \<Rightarrow> nat \<Rightarrow> nat \<Rightarrow> nat" where
  "diff_index_loop start limit min_length diff_index =
     (if diff_index < min_length \<and> start ! diff_index = limit ! diff_index
      then diff_index_loop start limit min_length (diff_index + 1)
      else diff_index)"
  by pat_completeness auto
termination
  by (relation "measure (\<lambda>(s, l, m, d). m - d)") auto

declare diff_index_loop.simps [simp del]

definition Bytewise_FindShortestSeparator :: "bytes \<Rightarrow> bytes \<Rightarrow> bytes" where
  "Bytewise_FindShortestSeparator start limit =
     (let min_length = min (length start) (length limit);
          diff_index = diff_index_loop start limit min_length 0
      in if diff_index \<ge> min_length then start
         else (let diff_byte = start ! diff_index in
               if diff_byte < 0xff \<and> uint diff_byte + 1 < uint (limit ! diff_index)
               then take (diff_index + 1) (start[diff_index := start ! diff_index + 1])
               else start))"

fun FindShortSuccessor_loop :: "bytes \<Rightarrow> nat \<Rightarrow> nat \<Rightarrow> bytes" where
  "FindShortSuccessor_loop key i 0 = key"
| "FindShortSuccessor_loop key i (Suc n) =
     (let byte = key ! i in
      if byte \<noteq> 0xff then take (i + 1) (key[i := byte + 1])
      else FindShortSuccessor_loop key (i + 1) n)"

definition Bytewise_FindShortSuccessor :: "bytes \<Rightarrow> bytes" where
  "Bytewise_FindShortSuccessor key = FindShortSuccessor_loop key 0 (length key)"

subsection \<open>The comparator interface\<close>

text \<open>
  \<open>ok\<close> is the set of keys the comparator is used on (an internal key has at least eight
  bytes).  The comparator is a three-way comparison of a strict weak order on them; for a
  \<open>comparator\<close> the order is linear, that is, only equal keys compare as equal.
\<close>

locale weak_comparator =
  fixes ok :: "'k \<Rightarrow> bool" and Compare :: "'k \<Rightarrow> 'k \<Rightarrow> int"
  assumes Compare_flip: "ok a \<Longrightarrow> ok b \<Longrightarrow> Compare a b > 0 \<longleftrightarrow> Compare b a < 0"
    and Compare_trans: "ok a \<Longrightarrow> ok b \<Longrightarrow> ok c \<Longrightarrow>
      Compare a b < 0 \<Longrightarrow> Compare b c < 0 \<Longrightarrow> Compare a c < 0"
    and Compare_less_eq: "ok a \<Longrightarrow> ok b \<Longrightarrow> ok c \<Longrightarrow>
      Compare a b < 0 \<Longrightarrow> Compare b c = 0 \<Longrightarrow> Compare a c < 0"

locale comparator = weak_comparator +
  assumes Compare_eq_0: "ok a \<Longrightarrow> ok b \<Longrightarrow> Compare a b = 0 \<longleftrightarrow> a = b"
begin

lemma Compare_refl: "ok a \<Longrightarrow> Compare a a = 0"
  by (simp add: Compare_eq_0)

lemma Compare_le_trans:
  assumes "ok a" "ok b" "ok c" "Compare a b \<le> 0" "Compare b c \<le> 0"
  shows "Compare a c \<le> 0"
proof (cases "a = b \<or> b = c")
  case False
  with assms have "Compare a b < 0" "Compare b c < 0"
    using Compare_eq_0 by fastforce+
  with assms(1-3) have "Compare a c < 0" by (rule Compare_trans)
  then show ?thesis by simp
qed (use assms in auto)

lemma Compare_le_less_trans:
  "ok a \<Longrightarrow> ok b \<Longrightarrow> ok c \<Longrightarrow> Compare a b \<le> 0 \<Longrightarrow> Compare b c < 0 \<Longrightarrow> Compare a c < 0"
  by (metis Compare_eq_0 Compare_trans order_le_less)

lemma Compare_less_le_trans:
  "ok a \<Longrightarrow> ok b \<Longrightarrow> ok c \<Longrightarrow> Compare a b < 0 \<Longrightarrow> Compare b c \<le> 0 \<Longrightarrow> Compare a c < 0"
  by (metis Compare_eq_0 Compare_trans order_le_less)

lemma Compare_not_less: "ok a \<Longrightarrow> ok b \<Longrightarrow> \<not> Compare a b < 0 \<longleftrightarrow> Compare b a \<le> 0"
  by (metis Compare_flip linorder_not_le)

lemma Compare_antisym: "ok a \<Longrightarrow> ok b \<Longrightarrow> Compare a b \<le> 0 \<Longrightarrow> Compare b a \<le> 0 \<Longrightarrow> a = b"
  by (metis Compare_eq_0 Compare_not_less order_le_less)

end

locale shortening_comparator = comparator +
  fixes FindShortestSeparator :: "'k \<Rightarrow> 'k \<Rightarrow> 'k" and FindShortSuccessor :: "'k \<Rightarrow> 'k"
  assumes separator_ok: "ok start \<Longrightarrow> ok limit \<Longrightarrow> ok (FindShortestSeparator start limit)"
    and separator_between: "ok start \<Longrightarrow> ok limit \<Longrightarrow> Compare start limit < 0 \<Longrightarrow>
      Compare start (FindShortestSeparator start limit) \<le> 0 \<and>
      Compare (FindShortestSeparator start limit) limit < 0"
    and successor_ok: "ok key \<Longrightarrow> ok (FindShortSuccessor key)"
    and successor_ge: "ok key \<Longrightarrow> Compare key (FindShortSuccessor key) \<le> 0"
begin

text \<open>
  The separator splits the keys of two neighbouring blocks: a target is at or before the
  separator iff it may be in the first block.
\<close>

lemma separator_splits:
  assumes "ok lo" "ok hi" "ok t" "Compare lo hi < 0"
  shows "Compare t lo \<le> 0 \<Longrightarrow> Compare t (FindShortestSeparator lo hi) \<le> 0"
    and "Compare hi t \<le> 0 \<Longrightarrow> Compare (FindShortestSeparator lo hi) t < 0"
  using assms separator_ok [of lo hi] separator_between [of lo hi]
  by (blast intro: Compare_le_trans Compare_less_le_trans)+

end

subsection \<open>Slice comparison is lexicographic\<close>

lemma memcmp_eq_0: "n \<le> length a \<Longrightarrow> n \<le> length b \<Longrightarrow> memcmp a b n = 0 \<longleftrightarrow> take n a = take n b"
  by (induction a b n rule: memcmp.induct) auto

lemma Slice_compare_Nil [simp]:
  "Slice_compare [] [] = 0" "Slice_compare [] (y # b) = -1" "Slice_compare (x # a) [] = 1"
  by (simp_all add: Slice_compare_def)

lemma Slice_compare_Cons [simp]:
  "Slice_compare (x # a) (y # b) = (if x < y then -1 else if x > y then 1 else Slice_compare a b)"
  by (simp add: Slice_compare_def Let_def)

lemma Slice_compare_lex:
  "(Slice_compare a b < 0 \<longleftrightarrow> a < b) \<and> (Slice_compare a b = 0 \<longleftrightarrow> a = b)"
proof (induction a arbitrary: b)
  case Nil
  then show ?case by (cases b) auto
next
  case (Cons x a)
  then show ?case by (cases b) auto
qed

lemmas Slice_compare_less = Slice_compare_lex [THEN conjunct1]
lemmas Slice_compare_0 = Slice_compare_lex [THEN conjunct2]

lemma Slice_compare_gt: "Slice_compare a b > 0 \<longleftrightarrow> b < a"
  using Slice_compare_less [of a b] Slice_compare_0 [of a b] by fastforce

lemma Slice_compare_le: "Slice_compare a b \<le> 0 \<longleftrightarrow> a \<le> b"
  by (meson Slice_compare_gt linorder_not_less)

lemma Slice_eq_iff: "Slice_eq x y \<longleftrightarrow> x = y"
  by (auto simp: Slice_eq_def memcmp_eq_0)

lemma starts_with_iff: "starts_with s x \<longleftrightarrow> (\<exists>t. s = x @ t)"
  by (auto simp: starts_with_def memcmp_eq_0 min_def) (metis append_take_drop_id)

subsection \<open>The bytewise comparator implements the interface\<close>

lemma diff_index_loop_eq:
  assumes "d \<le> m" and "m \<le> length s" and "m \<le> length l" and "take d s = take d l"
    and r: "diff_index_loop s l m d = r"
  shows "r \<le> m \<and> take r s = take r l \<and> (r < m \<longrightarrow> s ! r \<noteq> l ! r)"
  using assms
proof (induction s l m d rule: diff_index_loop.induct)
  case (1 s l m d)
  show ?case
  proof (cases "d < m \<and> s ! d = l ! d")
    case True
    then have "take (d + 1) s = take (d + 1) l"
      using "1.prems" by (simp add: take_Suc_conv_app_nth)
    with True "1.prems" "1.IH" show ?thesis
      by (simp add: diff_index_loop.simps [of s l m d])
  next
    case False
    with "1.prems" show ?thesis by (auto simp: diff_index_loop.simps [of s l m d])
  qed
qed

lemma take_append_less:
  fixes a b :: bytes
  assumes "i < length a" "i < length b" "take i a = take i b" "a ! i < b ! i"
  shows "a < b"
proof -
  have a: "a = take i a @ a ! i # drop (Suc i) a" using assms by (intro id_take_nth_drop)
  have b: "b = take i b @ b ! i # drop (Suc i) b" using assms by (intro id_take_nth_drop)
  have "p @ x # q < p @ y # r" if "x < y" for p q r :: bytes and x y
    using that by (induction p) simp_all
  from this [OF assms(4), of "take i a"] show ?thesis using a b assms(3) by metis
qed

lemma Bytewise_separator:
  assumes "start < limit"
  shows "start \<le> Bytewise_FindShortestSeparator start limit \<and>
    Bytewise_FindShortestSeparator start limit < limit"
proof -
  let ?m = "min (length start) (length limit)"
  define d where "d = diff_index_loop start limit ?m 0"
  have d: "d \<le> ?m" "take d start = take d limit" "d < ?m \<longrightarrow> start ! d \<noteq> limit ! d"
    using diff_index_loop_eq [of 0 ?m start limit d] by (auto simp: d_def)
  show ?thesis
  proof (cases "d < ?m \<and> start ! d < 0xff \<and> uint (start ! d) + 1 < uint (limit ! d)")
    case True
    define s' where "s' = take (d + 1) (start[d := start ! d + 1])"
    have eq: "Bytewise_FindShortestSeparator start limit = s'"
      using True by (auto simp: Bytewise_FindShortestSeparator_def Let_def d_def [symmetric] s'_def)
    have u: "uint (start ! d + 1) = uint (start ! d) + 1"
      using True uint_lt2p [of "limit ! d"] by (simp add: uint_word_ariths)
    have nth: "s' ! d = start ! d + 1" "take d s' = take d start" "d < length s'"
      using True by (auto simp: s'_def)
    have "start < s'"
      by (rule take_append_less [of d]) (use True nth u in \<open>auto simp: word_less_def\<close>)
    moreover have "s' < limit"
      by (rule take_append_less [of d]) (use True nth u d in \<open>auto simp: word_less_def\<close>)
    ultimately show ?thesis using eq by simp
  next
    case False
    then have "Bytewise_FindShortestSeparator start limit = start"
      using d(1) by (auto simp: Bytewise_FindShortestSeparator_def Let_def d_def [symmetric])
    with assms show ?thesis by simp
  qed
qed

lemma FindShortSuccessor_loop_ge:
  "i + n = length key \<Longrightarrow> key \<le> FindShortSuccessor_loop key i n"
proof (induction key i n rule: FindShortSuccessor_loop.induct)
  case (2 key i n)
  show ?case
  proof (cases "key ! i = 0xff")
    case True
    with 2 show ?thesis by simp
  next
    case False
    then have "uint (key ! i) \<noteq> 255" by (simp add: word_uint_eq_iff)
    then have "uint (key ! i) + 1 < 2 ^ 8" using uint_lt2p [of "key ! i"] by simp
    then have u: "uint (key ! i + 1) = uint (key ! i) + 1"
      by (simp add: uint_word_ariths)
    have "key < take (i + 1) (key[i := key ! i + 1])"
      by (rule take_append_less [of i]) (use 2 u in \<open>auto simp: word_less_def\<close>)
    with False show ?thesis by (simp add: Let_def)
  qed
qed simp

interpretation bytewise: comparator "\<lambda>_. True" Bytewise_Compare
  by unfold_locales
    (auto simp: Bytewise_Compare_def Slice_compare_0 Slice_compare_gt Slice_compare_less)

interpretation bytewise: shortening_comparator "\<lambda>_. True" Bytewise_Compare
  Bytewise_FindShortestSeparator Bytewise_FindShortSuccessor
  by unfold_locales
    (auto simp: Bytewise_Compare_def Slice_compare_le Slice_compare_less Bytewise_separator
      Bytewise_FindShortSuccessor_def FindShortSuccessor_loop_ge)

subsection \<open>Properties\<close>

lemma Bytewise_separator_length: "length (Bytewise_FindShortestSeparator start limit) \<le> length start"
  by (auto simp: Bytewise_FindShortestSeparator_def Let_def)

text \<open>
  C37: \<^verbatim>\<open>FindShortestSeparator\<close> shortens the start key without leaving the interval: the result is
  at or after the start, strictly before the limit and never longer than the start; and
  \<^verbatim>\<open>FindShortSuccessor\<close> never goes below its key.
\<close>

theorem Bytewise_shortening:
  assumes "Bytewise_Compare start limit < 0"
  shows "Bytewise_Compare start (Bytewise_FindShortestSeparator start limit) \<le> 0 \<and>
    Bytewise_Compare (Bytewise_FindShortestSeparator start limit) limit < 0 \<and>
    length (Bytewise_FindShortestSeparator start limit) \<le> length start \<and>
    Bytewise_Compare start (Bytewise_FindShortSuccessor start) \<le> 0"
  using assms bytewise.separator_between bytewise.successor_ge Bytewise_separator_length by blast

theorem Bytewise_shortening_witness:
  "Bytewise_Compare [1, 2, 3] (Bytewise_FindShortestSeparator [1, 2, 3] [1, 9]) \<le> 0 \<and>
   Bytewise_Compare (Bytewise_FindShortestSeparator [1, 2, 3] [1, 9]) [1, 9] < 0"
  using Bytewise_shortening [of "[1, 2, 3]" "[1, 9]"] by (simp add: Bytewise_Compare_def)

end
