(* ===== verification/Skiplist.thy ===== *)
theory Skiplist
  imports Comparator "HOL-Library.Monad_Syntax"
begin

unbundle bit_operations_syntax

text \<open>
  The skip list of the memtable (\<^verbatim>\<open>App/integration/skiplist.h\<close>) and the random number generator
  that chooses node heights (\<^verbatim>\<open>App/integration/random.h\<close>).  Nodes are addresses; the heap of the
  list maps an address to its key and its links.  The search loops follow links through the
  heap and may in principle not end, so they are partial functions; inside the locale of
  comparators the list is shown to represent a sorted list, on which every loop ends.
\<close>

subsection \<open>Random numbers\<close>

definition Random_M :: uint32 where "Random_M = 2147483647"

definition mk_Random :: "uint32 \<Rightarrow> uint32" where
  "mk_Random s =
     (let seed = s AND 0x7fffffff in if seed = 0 \<or> seed = 2147483647 then 1 else seed)"

definition Random_Next :: "uint32 \<Rightarrow> uint32" where
  "Random_Next seed =
     (let product = (ucast seed :: uint64) * 16807;
          seed = (ucast (drop_bit 31 product + (product AND ucast Random_M)) :: uint32)
      in if seed > Random_M then seed - Random_M else seed)"

subsection \<open>The list and its search loops\<close>

definition kMaxHeight :: nat where "kMaxHeight = 12"

type_synonym node = nat

record 'k SkipList =
  node_key :: "node \<Rightarrow> 'k"
  node_next :: "node \<Rightarrow> nat \<Rightarrow> node option"
  max_height :: nat
  rnd_seed :: uint32
  next_free :: node

abbreviation (input) head_node :: node where "head_node \<equiv> 0"

definition mk_SkipList :: "'k \<Rightarrow> 'k SkipList" where
  "mk_SkipList any_key =
     \<lparr>node_key = (\<lambda>_. any_key), node_next = (\<lambda>_ _. None), max_height = 1,
      rnd_seed = mk_Random 0xdeadbeef, next_free = 1\<rparr>"

definition KeyIsAfterNode :: "('k \<Rightarrow> 'k \<Rightarrow> int) \<Rightarrow> 'k SkipList \<Rightarrow> 'k \<Rightarrow> node option \<Rightarrow> bool" where
  "KeyIsAfterNode cmp s key n =
     (case n of None \<Rightarrow> False | Some m \<Rightarrow> cmp (node_key s m) key < 0)"

text \<open>\<^verbatim>\<open>prev\<close> collects the last node before the key on every level; \<open>None\<close> is a slot not yet written.\<close>

partial_function (option) FindGE_loop ::
  "('k \<Rightarrow> 'k \<Rightarrow> int) \<Rightarrow> 'k SkipList \<Rightarrow> 'k \<Rightarrow> node \<Rightarrow> nat \<Rightarrow> (nat \<Rightarrow> node option) \<Rightarrow>
   (node option \<times> (nat \<Rightarrow> node option)) option" where
  "FindGE_loop cmp s key x level prev =
     (if KeyIsAfterNode cmp s key (node_next s x level)
      then FindGE_loop cmp s key (the (node_next s x level)) level prev
      else if level = 0 then Some (node_next s x level, prev(level := Some x))
      else FindGE_loop cmp s key x (level - 1) (prev(level := Some x)))"

definition FindGreaterOrEqual ::
  "('k \<Rightarrow> 'k \<Rightarrow> int) \<Rightarrow> 'k SkipList \<Rightarrow> 'k \<Rightarrow> (node option \<times> (nat \<Rightarrow> node option)) option" where
  "FindGreaterOrEqual cmp s key = FindGE_loop cmp s key head_node (max_height s - 1) (\<lambda>_. None)"

partial_function (option) FindLT_loop ::
  "('k \<Rightarrow> 'k \<Rightarrow> int) \<Rightarrow> 'k SkipList \<Rightarrow> 'k \<Rightarrow> node \<Rightarrow> nat \<Rightarrow> node option" where
  "FindLT_loop cmp s key x level =
     (case node_next s x level of
        None \<Rightarrow> if level = 0 then Some x else FindLT_loop cmp s key x (level - 1)
      | Some next \<Rightarrow>
          if cmp (node_key s next) key \<ge> 0
          then (if level = 0 then Some x else FindLT_loop cmp s key x (level - 1))
          else FindLT_loop cmp s key next level)"

definition FindLessThan :: "('k \<Rightarrow> 'k \<Rightarrow> int) \<Rightarrow> 'k SkipList \<Rightarrow> 'k \<Rightarrow> node option" where
  "FindLessThan cmp s key = FindLT_loop cmp s key head_node (max_height s - 1)"

partial_function (option) FindLast_loop :: "'k SkipList \<Rightarrow> node \<Rightarrow> nat \<Rightarrow> node option" where
  "FindLast_loop s x level =
     (case node_next s x level of
        None \<Rightarrow> if level = 0 then Some x else FindLast_loop s x (level - 1)
      | Some next \<Rightarrow> FindLast_loop s next level)"

definition FindLast :: "'k SkipList \<Rightarrow> node option" where
  "FindLast s = FindLast_loop s head_node (max_height s - 1)"

subsection \<open>Insertion\<close>

fun RandomHeight_loop :: "nat \<Rightarrow> nat \<Rightarrow> uint32 \<Rightarrow> nat \<times> uint32" where
  "RandomHeight_loop 0 height seed = (height, seed)"
| "RandomHeight_loop (Suc n) height seed =
     (let r = Random_Next seed in
      if r mod 4 = 0 then RandomHeight_loop n (height + 1) r else (height, r))"

definition RandomHeight :: "uint32 \<Rightarrow> nat \<times> uint32" where
  "RandomHeight seed = RandomHeight_loop (kMaxHeight - 1) 1 seed"

definition set_next :: "node \<Rightarrow> nat \<Rightarrow> node option \<Rightarrow> 'k SkipList \<Rightarrow> 'k SkipList" where
  "set_next n level x s = s\<lparr>node_next := (node_next s)(n := (node_next s n)(level := x))\<rparr>"

fun link_levels :: "node \<Rightarrow> (nat \<Rightarrow> node option) \<Rightarrow> nat list \<Rightarrow> 'k SkipList \<Rightarrow> 'k SkipList option" where
  "link_levels x prev [] s = Some s"
| "link_levels x prev (i # is) s =
     (case prev i of
        None \<Rightarrow> None
      | Some p \<Rightarrow> link_levels x prev is (set_next p i (Some x) (set_next x i (node_next s p i) s)))"

definition SkipList_Insert :: "('k \<Rightarrow> 'k \<Rightarrow> int) \<Rightarrow> 'k \<Rightarrow> 'k SkipList \<Rightarrow> 'k SkipList option" where
  "SkipList_Insert cmp key s =
     do {
       (_, prev) \<leftarrow> FindGreaterOrEqual cmp s key;
       let (height, seed) = RandomHeight (rnd_seed s);
       let prev = (if height > max_height s
                   then (\<lambda>i. if max_height s \<le> i \<and> i < height then Some head_node else prev i)
                   else prev);
       let x = next_free s;
       let s = s\<lparr>rnd_seed := seed, max_height := max height (max_height s),
                 node_key := (node_key s)(x := key), next_free := x + 1\<rparr>;
       link_levels x prev [0..<height] s
     }"

definition Contains :: "('k \<Rightarrow> 'k \<Rightarrow> int) \<Rightarrow> 'k SkipList \<Rightarrow> 'k \<Rightarrow> bool option" where
  "Contains cmp s key =
     do {
       (x, _) \<leftarrow> FindGreaterOrEqual cmp s key;
       Some (case x of None \<Rightarrow> False | Some n \<Rightarrow> cmp key (node_key s n) = 0)
     }"

subsection \<open>Iterators\<close>

text \<open>An iterator is a node, or \<open>None\<close> when it is not valid.\<close>

definition SkipIter_Next :: "'k SkipList \<Rightarrow> node \<Rightarrow> node option" where
  "SkipIter_Next s n = node_next s n 0"

definition SkipIter_Prev :: "('k \<Rightarrow> 'k \<Rightarrow> int) \<Rightarrow> 'k SkipList \<Rightarrow> node \<Rightarrow> node option option" where
  "SkipIter_Prev cmp s n =
     do { m \<leftarrow> FindLessThan cmp s (node_key s n); Some (if m = head_node then None else Some m) }"

definition SkipIter_Seek :: "('k \<Rightarrow> 'k \<Rightarrow> int) \<Rightarrow> 'k SkipList \<Rightarrow> 'k \<Rightarrow> node option option" where
  "SkipIter_Seek cmp s target = do { (x, _) \<leftarrow> FindGreaterOrEqual cmp s target; Some x }"

definition SkipIter_SeekToFirst :: "'k SkipList \<Rightarrow> node option" where
  "SkipIter_SeekToFirst s = node_next s head_node 0"

definition SkipIter_SeekToLast :: "'k SkipList \<Rightarrow> node option option" where
  "SkipIter_SeekToLast s = do { m \<leftarrow> FindLast s; Some (if m = head_node then None else Some m) }"

subsection \<open>Representation of a sorted list\<close>

fun chain :: "'k SkipList \<Rightarrow> nat \<Rightarrow> node \<Rightarrow> node list \<Rightarrow> bool" where
  "chain s l x [] \<longleftrightarrow> node_next s x l = None"
| "chain s l x (y # ys) \<longleftrightarrow> node_next s x l = Some y \<and> chain s l y ys"

abbreviation on_level :: "(node \<Rightarrow> nat) \<Rightarrow> nat \<Rightarrow> node list \<Rightarrow> node list" where
  "on_level ht l ns \<equiv> filter (\<lambda>n. l < ht n) ns"

definition skip_rep :: "'k SkipList \<Rightarrow> (node \<Rightarrow> nat) \<Rightarrow> node list \<Rightarrow> bool" where
  "skip_rep s ht ns \<longleftrightarrow>
     distinct ns \<and> (\<forall>n\<in>set ns. 0 < n \<and> n < next_free s \<and> 1 \<le> ht n \<and> ht n \<le> max_height s) \<and>
     1 \<le> max_height s \<and> max_height s \<le> kMaxHeight \<and> 0 < next_free s \<and>
     (\<forall>l. chain s l head_node (on_level ht l ns))"

lemma chain_append:
  "chain s l x (us @ vs) \<Longrightarrow> chain s l (last (x # us)) vs"
  by (induction us arbitrary: x) auto

lemma chain_cong:
  "(\<And>n. n \<in> set (x # ys) \<Longrightarrow> node_next s' n l = node_next s n l) \<Longrightarrow> chain s' l x ys \<longleftrightarrow> chain s l x ys"
  by (induction ys arbitrary: x) auto

lemma chain_hd: "chain s l x ys \<Longrightarrow> node_next s x l = (case ys of [] \<Rightarrow> None | y # _ \<Rightarrow> Some y)"
  by (cases ys) auto

lemma rep_on_level_0: "skip_rep s ht ns \<Longrightarrow> on_level ht 0 ns = ns"
  by (auto simp: skip_rep_def filter_id_conv)

lemma rep_on_level_high: "skip_rep s ht ns \<Longrightarrow> max_height s \<le> l \<Longrightarrow> on_level ht l ns = []"
  by (fastforce simp: skip_rep_def filter_empty_conv)

text \<open>A node that starts the search on level \<open>l\<close>: the head or a node of that level.\<close>

lemma on_level_suffix:
  assumes "distinct ns" "head_node \<notin> set ns" "x \<in> insert head_node (set (on_level ht l before))"
  shows "\<exists>us vs. head_node # on_level ht l before = us @ x # vs"
  using assms(3) split_list [of x "head_node # on_level ht l before"] by auto

lemma chain_from:
  assumes "chain s l head_node (on_level ht l before @ ws)"
    and "x \<in> insert head_node (set (on_level ht l before))"
  shows "\<exists>vs. set vs \<subseteq> set (on_level ht l before) \<and> chain s l x (vs @ ws) \<and>
    last (x # vs) = last (head_node # on_level ht l before)"
proof -
  let ?b = "on_level ht l before"
  obtain us vs where split: "head_node # ?b = us @ x # vs"
    using assms(2) split_list [of x "head_node # ?b"] by auto
  have "set vs \<subseteq> set ?b" using split by (cases us) auto
  moreover have "last (x # vs) = last (head_node # ?b)" unfolding split by simp
  moreover have "chain s l x (vs @ ws)"
  proof (cases us)
    case Nil
    with split assms(1) show ?thesis by simp
  next
    case (Cons u us')
    then have "?b = us' @ [x] @ vs" using split by simp
    then have "chain s l head_node ((us' @ [x]) @ vs @ ws)" using assms(1) by simp
    from chain_append [OF this] show ?thesis by simp
  qed
  ultimately show ?thesis by blast
qed

lemma on_level_mono: "j \<le> l \<Longrightarrow> set (on_level ht l ns) \<subseteq> set (on_level ht j ns)"
  by auto

lemma last_on_level_in: "last (head_node # on_level ht (Suc l) ns) \<in> insert head_node (set (on_level ht l ns))"
  using on_level_mono [of l "Suc l" ht ns] last_in_set [of "on_level ht (Suc l) ns"] by auto

lemma link_levels_next:
  assumes "distinct is" "\<And>i. i \<in> set is \<Longrightarrow> prev i = Some (p i)" "\<And>i. i \<in> set is \<Longrightarrow> p i \<noteq> x"
  shows "\<exists>s'. link_levels x prev is s = Some s' \<and>
    (\<forall>n l. node_next s' n l =
       (if l \<in> set is then (if n = p l then Some x else if n = x then node_next s (p l) l else node_next s n l)
        else node_next s n l)) \<and>
    node_key s' = node_key s \<and> max_height s' = max_height s \<and> next_free s' = next_free s"
  using assms
proof (induction "is" arbitrary: s)
  case (Cons i "is")
  let ?s = "set_next (p i) i (Some x) (set_next x i (node_next s (p i) i) s)"
  have nx: "node_next ?s n l = (if l = i then (if n = p i then Some x else if n = x then node_next s (p i) i
      else node_next s n i) else node_next s n l)" for n l
    using Cons.prems(3) by (auto simp: set_next_def)
  have rest: "node_key ?s = node_key s" "max_height ?s = max_height s" "next_free ?s = next_free s"
    by (simp_all add: set_next_def)
  obtain s' where s': "link_levels x prev is ?s = Some s'"
    "\<forall>n l. node_next s' n l =
       (if l \<in> set is then (if n = p l then Some x else if n = x then node_next ?s (p l) l else node_next ?s n l)
        else node_next ?s n l)"
    "node_key s' = node_key ?s \<and> max_height s' = max_height ?s \<and> next_free s' = next_free ?s"
    using Cons.IH [of ?s] Cons.prems by auto
  have "link_levels x prev (i # is) s = Some s'" using s'(1) Cons.prems(2) by simp
  moreover have "node_next s' n l =
      (if l \<in> set (i # is) then (if n = p l then Some x else if n = x then node_next s (p l) l else node_next s n l)
       else node_next s n l)" for n l
    using s'(2) Cons.prems(1) by (auto simp: nx)
  ultimately show ?case using s'(3) rest by auto
qed auto

lemma chain_insert:
  assumes ch: "chain s l h (us @ ws)" and x: "x \<notin> set (h # us @ ws)" and dist: "distinct (h # us @ ws)"
    and nx: "\<And>n. node_next s' n l = (if n = last (h # us) then Some x
        else if n = x then node_next s (last (h # us)) l else node_next s n l)"
  shows "chain s' l h (us @ x # ws)"
  using ch x dist nx
proof (induction us arbitrary: h)
  case Nil
  have "chain s' l x ws"
  proof (cases ws)
    case Nil
    with \<open>chain s l h ([] @ ws)\<close> \<open>x \<notin> set (h # [] @ ws)\<close> show ?thesis using "Nil.prems"(4) by auto
  next
    case (Cons w ws')
    have "chain s' l w ws' \<longleftrightarrow> chain s l w ws'"
      using "Nil.prems" Cons by (intro chain_cong) auto
    with Cons "Nil.prems" show ?thesis by auto
  qed
  then show ?case using "Nil.prems"(4) [of h] by simp
next
  case (Cons u us)
  have "node_next s' h l = Some u"
  proof -
    have "h \<noteq> last (h # u # us)" using Cons.prems(3) last_in_set [of "u # us"] by auto
    moreover have "h \<noteq> x" using Cons.prems(2) by auto
    ultimately show ?thesis using Cons.prems(1,4) by simp
  qed
  moreover have "chain s' l u (us @ x # ws)"
  proof (rule Cons.IH)
    show "node_next s' n l = (if n = last (u # us) then Some x
        else if n = x then node_next s (last (u # us)) l else node_next s n l)" for n
      using Cons.prems(4) [of n] by simp
  qed (use Cons.prems(1-3) in simp_all)
  ultimately show ?case by simp
qed

lemma RandomHeight_loop_bounds:
  "RandomHeight_loop n h seed = (h', seed') \<Longrightarrow> h \<le> h' \<and> h' \<le> h + n"
  by (induction n h seed rule: RandomHeight_loop.induct) (fastforce simp: Let_def split: if_splits)+

lemma RandomHeight_bounds: "RandomHeight seed = (h, seed') \<Longrightarrow> 1 \<le> h \<and> h \<le> kMaxHeight"
  using RandomHeight_loop_bounds [of "kMaxHeight - 1" 1 seed h seed'] by (simp add: RandomHeight_def kMaxHeight_def)

text \<open>Linking a fresh node of height \<open>h\<close> between \<open>before\<close> and \<open>after\<close>.\<close>

lemma skip_rep_insert:
  assumes rep: "skip_rep s ht (before @ after)" and h: "1 \<le> h" "h \<le> kMaxHeight"
    and x: "x = next_free s"
    and s': "next_free s' = x + 1" "max_height s' = max h (max_height s)"
      "\<And>n l. node_next s' n l = (if l < h then (if n = last (head_node # on_level ht l before) then Some x
         else if n = x then node_next s (last (head_node # on_level ht l before)) l else node_next s n l)
       else node_next s n l)"
  shows "skip_rep s' (ht(x := h)) (before @ x # after)"
proof -
  have fresh: "x \<notin> set (before @ after)" and x0: "x \<noteq> 0" and n0: "0 \<notin> set (before @ after)"
    and dist: "distinct (before @ after)"
    using rep by (auto simp: skip_rep_def x)
  have lev: "on_level (ht(x := h)) l ns = on_level ht l ns" if "x \<notin> set ns" for l ns
    using that by (intro filter_cong) auto
  have "chain s' l head_node (on_level (ht(x := h)) l (before @ x # after))" for l
  proof (cases "l < h")
    case True
    have "chain s l head_node (on_level ht l before @ on_level ht l after)"
      using rep by (metis filter_append skip_rep_def)
    moreover have "x \<notin> set (head_node # on_level ht l before @ on_level ht l after)"
      using fresh x0 by auto
    moreover have "distinct (head_node # on_level ht l before @ on_level ht l after)"
      using dist n0 by auto
    ultimately have "chain s' l head_node (on_level ht l before @ x # on_level ht l after)"
      by (rule chain_insert) (simp add: s'(3) True)
    then show ?thesis using True fresh lev [of before l] lev [of after l] by simp
  next
    case False
    have "chain s' l head_node (on_level ht l (before @ after)) \<longleftrightarrow> chain s l head_node (on_level ht l (before @ after))"
      by (rule chain_cong) (simp add: s'(3) False)
    then show ?thesis
      using False fresh rep lev [of before l] lev [of after l] by (simp add: skip_rep_def)
  qed
  then show ?thesis
    using rep fresh h by (auto simp: skip_rep_def x s'(1,2) less_Suc_eq max.coboundedI2)
qed

lemma FindLast_walk:
  "chain s l x vs \<Longrightarrow> FindLast_loop s x l =
     (if l = 0 then Some (last (x # vs)) else FindLast_loop s (last (x # vs)) (l - 1))"
proof (induction vs arbitrary: x)
  case Nil
  then show ?case by (subst FindLast_loop.simps) simp
next
  case (Cons v vs)
  then have "FindLast_loop s x l = FindLast_loop s v l" by (subst FindLast_loop.simps) simp
  with Cons show ?case by simp
qed

lemma FindLast_levels:
  assumes rep: "skip_rep s ht ns" and x: "x \<in> insert head_node (set (on_level ht l ns))"
  shows "FindLast_loop s x l = Some (last (head_node # ns))"
  using x
proof (induction l arbitrary: x)
  case 0
  have "chain s 0 head_node (on_level ht 0 ns @ [])" using rep by (simp add: skip_rep_def)
  from chain_from [OF this 0] obtain vs where "chain s 0 x vs" "last (x # vs) = last (head_node # on_level ht 0 ns)"
    by auto
  then show ?case using FindLast_walk [of s 0 x vs] rep_on_level_0 [OF rep] by simp
next
  case (Suc l)
  have "chain s (Suc l) head_node (on_level ht (Suc l) ns @ [])" using rep by (simp add: skip_rep_def)
  from chain_from [OF this Suc.prems] obtain vs where
    "chain s (Suc l) x vs" "last (x # vs) = last (head_node # on_level ht (Suc l) ns)" by auto
  then have "FindLast_loop s x (Suc l) = FindLast_loop s (last (head_node # on_level ht (Suc l) ns)) l"
    using FindLast_walk [of s "Suc l" x vs] by simp
  then show ?case using Suc.IH [OF last_on_level_in] by simp
qed

lemma SeekToLast_spec:
  assumes rep: "skip_rep s ht ns"
  shows "SkipIter_SeekToLast s = Some (if ns = [] then None else Some (last ns))"
proof -
  have "FindLast s = Some (last (head_node # ns))"
    using FindLast_levels [OF rep, of head_node] by (simp add: FindLast_def)
  moreover have "last ns \<noteq> head_node" if "ns \<noteq> []"
    using rep last_in_set [OF that] by (auto simp: skip_rep_def)
  ultimately show ?thesis by (cases "ns = []") (simp_all add: SkipIter_SeekToLast_def)
qed

lemma Next_spec:
  assumes rep: "skip_rep s ht (us @ n # vs)"
  shows "SkipIter_Next s n = (case vs of [] \<Rightarrow> None | m # _ \<Rightarrow> Some m)"
proof -
  have "chain s 0 head_node (us @ n # vs)"
    using rep rep_on_level_0 [OF rep] by (metis skip_rep_def)
  then have "chain s 0 n vs" using chain_append [of s 0 head_node "us @ [n]" vs] by simp
  then show ?thesis by (simp add: SkipIter_Next_def chain_hd)
qed

context weak_comparator
begin

definition key_less :: "'k SkipList \<Rightarrow> 'k \<Rightarrow> node \<Rightarrow> bool" where
  "key_less s key n \<longleftrightarrow> Compare (node_key s n) key < 0"

lemma FindGE_walk:
  assumes "chain s l x (vs @ ws)" "\<forall>v\<in>set vs. key_less s key v" "\<forall>w\<in>set ws. \<not> key_less s key w"
  shows "FindGE_loop Compare s key x l prev =
    (let y = last (x # vs); nx = (case ws of [] \<Rightarrow> None | w # _ \<Rightarrow> Some w) in
     if l = 0 then Some (nx, prev(l := Some y))
     else FindGE_loop Compare s key y (l - 1) (prev(l := Some y)))"
  using assms
proof (induction vs arbitrary: x)
  case Nil
  then have "node_next s x l = (case ws of [] \<Rightarrow> None | w # _ \<Rightarrow> Some w)" using chain_hd by fastforce
  moreover from this have "\<not> KeyIsAfterNode Compare s key (node_next s x l)"
    using Nil.prems(3) by (cases ws) (auto simp: KeyIsAfterNode_def key_less_def)
  ultimately show ?case by (subst FindGE_loop.simps) (auto simp: Let_def)
next
  case (Cons v vs)
  then have "node_next s x l = Some v" "KeyIsAfterNode Compare s key (Some v)"
    by (auto simp: KeyIsAfterNode_def key_less_def)
  then have "FindGE_loop Compare s key x l prev = FindGE_loop Compare s key v l prev"
    by (subst FindGE_loop.simps) simp
  with Cons show ?case by simp
qed

lemma FindGE_levels:
  assumes rep: "skip_rep s ht (before @ after)"
    and lt: "\<forall>v\<in>set before. key_less s key v" and ge: "\<forall>w\<in>set after. \<not> key_less s key w"
    and x: "x \<in> insert head_node (set (on_level ht l before))"
  shows "\<exists>prev'. FindGE_loop Compare s key x l prev =
      Some (case after of [] \<Rightarrow> None | w # _ \<Rightarrow> Some w, prev') \<and>
    (\<forall>j\<le>l. prev' j = Some (last (head_node # on_level ht j before))) \<and> (\<forall>j>l. prev' j = prev j)"
  using x
proof (induction l arbitrary: x prev)
  case 0
  have "chain s 0 head_node (on_level ht 0 before @ after)"
  proof -
    have "\<forall>n\<in>set (before @ after). 1 \<le> ht n" using rep unfolding skip_rep_def by blast
    then have "on_level ht 0 after = after" by (intro filter_True) (simp add: Suc_le_eq)
    moreover have "chain s 0 head_node (on_level ht 0 before @ on_level ht 0 after)"
      using rep by (metis filter_append skip_rep_def)
    ultimately show ?thesis by simp
  qed
  from chain_from [OF this 0] obtain vs where vs: "set vs \<subseteq> set (on_level ht 0 before)"
    "chain s 0 x (vs @ after)" "last (x # vs) = last (head_node # on_level ht 0 before)" by blast
  then have "\<forall>v\<in>set vs. key_less s key v" using lt by auto
  from FindGE_walk [OF vs(2) this ge, of prev] vs(3) show ?case by (simp add: Let_def)
next
  case (Suc l)
  have "chain s (Suc l) head_node (on_level ht (Suc l) before @ on_level ht (Suc l) after)"
    using rep by (metis filter_append skip_rep_def)
  from chain_from [OF this Suc.prems] obtain vs where vs: "set vs \<subseteq> set (on_level ht (Suc l) before)"
    "chain s (Suc l) x (vs @ on_level ht (Suc l) after)"
    "last (x # vs) = last (head_node # on_level ht (Suc l) before)" by blast
  let ?y = "last (head_node # on_level ht (Suc l) before)"
  have "\<forall>v\<in>set vs. key_less s key v" using vs(1) lt by auto
  from FindGE_walk [OF vs(2) this, of prev] ge vs(3)
  have "FindGE_loop Compare s key x (Suc l) prev = FindGE_loop Compare s key ?y l (prev(Suc l := Some ?y))"
    by (simp add: Let_def)
  moreover obtain prev' where
    "FindGE_loop Compare s key ?y l (prev(Suc l := Some ?y)) =
       Some (case after of [] \<Rightarrow> None | w # _ \<Rightarrow> Some w, prev')"
    "\<forall>j\<le>l. prev' j = Some (last (head_node # on_level ht j before))"
    "\<forall>j>l. prev' j = (prev(Suc l := Some ?y)) j"
    using Suc.IH [OF last_on_level_in, of "prev(Suc l := Some ?y)"] by blast
  ultimately show ?case by (intro exI [of _ prev']) (auto simp: le_Suc_eq)
qed

lemma key_split:
  assumes "sorted_wrt (\<lambda>a b. Compare (node_key s a) (node_key s b) < 0) ns"
    and "\<forall>n\<in>set ns. ok (node_key s n)" "ok key"
  shows "\<forall>w\<in>set (dropWhile (key_less s key) ns). \<not> key_less s key w"
  using assms
proof (induction ns)
  case (Cons n ns)
  show ?case
  proof (cases "key_less s key n")
    case True
    with Cons show ?thesis by simp
  next
    case False
    have "\<not> key_less s key m" if "m \<in> set ns" for m
      using False Cons.prems that Compare_trans [of "node_key s n" "node_key s m" key]
      by (auto simp: key_less_def)
    with False show ?thesis by auto
  qed
qed simp

definition skip_list :: "'k SkipList \<Rightarrow> node list \<Rightarrow> bool" where
  "skip_list s ns \<longleftrightarrow> (\<exists>ht. skip_rep s ht ns) \<and> (\<forall>n\<in>set ns. ok (node_key s n)) \<and>
     sorted_wrt (\<lambda>a b. Compare (node_key s a) (node_key s b) < 0) ns"

lemma skip_list_init: "skip_list (mk_SkipList k) []"
  by (auto simp: skip_list_def skip_rep_def mk_SkipList_def kMaxHeight_def)

lemma FindGreaterOrEqual_spec:
  assumes sl: "skip_rep s ht ns" "\<forall>n\<in>set ns. ok (node_key s n)"
      "sorted_wrt (\<lambda>a b. Compare (node_key s a) (node_key s b) < 0) ns" and key: "ok key"
  shows "\<exists>prev. FindGreaterOrEqual Compare s key =
      Some (case dropWhile (key_less s key) ns of [] \<Rightarrow> None | w # _ \<Rightarrow> Some w, prev) \<and>
    (\<forall>j<max_height s. prev j = Some (last (head_node # on_level ht j (takeWhile (key_less s key) ns))))"
proof -
  let ?b = "takeWhile (key_less s key) ns" and ?a = "dropWhile (key_less s key) ns"
  have "\<forall>v\<in>set ?b. key_less s key v" by (meson set_takeWhileD)
  moreover have "\<forall>w\<in>set ?a. \<not> key_less s key w" using key_split sl(2,3) key by blast
  moreover have "skip_rep s ht (?b @ ?a)" using sl(1) by simp
  moreover have "0 < max_height s" using sl(1) by (simp add: skip_rep_def)
  ultimately show ?thesis
    using FindGE_levels [of s ht ?b ?a key head_node "max_height s - 1" "\<lambda>_. None"]
    by (force simp: FindGreaterOrEqual_def)
qed

lemma Insert_spec:
  assumes sl: "skip_list s ns" and key: "ok key" and new: "\<forall>n\<in>set ns. Compare key (node_key s n) \<noteq> 0"
  shows "\<exists>s' ns'. SkipList_Insert Compare key s = Some s' \<and> skip_list s' ns' \<and>
    map (node_key s') ns' = takeWhile (\<lambda>k. Compare k key < 0) (map (node_key s) ns) @ key #
      dropWhile (\<lambda>k. Compare k key < 0) (map (node_key s) ns)"
proof -
  let ?b = "takeWhile (key_less s key) ns" and ?a = "dropWhile (key_less s key) ns" and ?x = "next_free s"
  from sl obtain ht where rep: "skip_rep s ht ns" and okk: "\<forall>n\<in>set ns. ok (node_key s n)"
    and sorted: "sorted_wrt (\<lambda>a b. Compare (node_key s a) (node_key s b) < 0) ns"
    by (auto simp: skip_list_def)
  from FindGreaterOrEqual_spec [OF rep okk sorted key] obtain prev nx where
    find: "FindGreaterOrEqual Compare s key = Some (nx, prev)"
    and prev: "\<forall>j<max_height s. prev j = Some (last (head_node # on_level ht j ?b))" by blast
  obtain h seed where rh: "RandomHeight (rnd_seed s) = (h, seed)" by fastforce
  have h: "1 \<le> h" "h \<le> kMaxHeight" using RandomHeight_bounds [OF rh] by simp_all
  define p where "p = (\<lambda>l. last (head_node # on_level ht l ?b))"
  define prev' where "prev' = (if h > max_height s
      then (\<lambda>i. if max_height s \<le> i \<and> i < h then Some head_node else prev i) else prev)"
  have high: "on_level ht i ?b = []" if "max_height s \<le> i" for i
    using rep_on_level_high [OF rep that] by (metis append_is_Nil_conv filter_append takeWhile_dropWhile_id)
  have prev': "prev' i = Some (p i)" if "i < h" for i
    using that prev high [of i] by (auto simp: prev'_def p_def)
  have px: "p i \<noteq> ?x" for i
  proof -
    have "p i \<in> insert 0 (set ns)"
      using last_in_set [of "on_level ht i ?b"] by (auto simp: p_def dest: set_takeWhileD)
    then show ?thesis using rep by (auto simp: skip_rep_def)
  qed
  let ?s = "s\<lparr>rnd_seed := seed, max_height := max h (max_height s),
      node_key := (node_key s)(?x := key), next_free := ?x + 1\<rparr>"
  obtain s' where s': "link_levels ?x prev' [0..<h] ?s = Some s'"
    "\<forall>n l. node_next s' n l = (if l \<in> set [0..<h] then (if n = p l then Some ?x
       else if n = ?x then node_next ?s (p l) l else node_next ?s n l) else node_next ?s n l)"
    "node_key s' = node_key ?s" "max_height s' = max_height ?s" "next_free s' = next_free ?s"
    using link_levels_next [of "[0..<h]" prev' p ?x ?s] prev' px by auto
  have ins: "SkipList_Insert Compare key s = Some s'"
    using find rh s'(1) by (simp add: SkipList_Insert_def prev'_def Let_def)
  have links: "node_next s' n l = (if l < h then (if n = p l then Some ?x
      else if n = ?x then node_next s (p l) l else node_next s n l) else node_next s n l)" for n l
    using s'(2) by simp
  have rep': "skip_rep s' (ht(?x := h)) (?b @ ?x # ?a)"
    by (rule skip_rep_insert [of s, OF _ h refl])
      (use rep s'(4,5) links in \<open>simp_all only: p_def takeWhile_dropWhile_id, simp_all\<close>)
  have nx: "n \<noteq> ?x" if "n \<in> set ns" for n using rep that by (auto simp: skip_rep_def)
  have keys: "node_key s' n = (if n = ?x then key else node_key s n)" for n by (simp add: s'(3))
  have mb: "map (node_key s') ?b = map (node_key s) ?b" "map (node_key s') ?a = map (node_key s) ?a"
    using nx by (auto simp: keys dest: set_takeWhileD set_dropWhileD)
  have kx: "node_key s' ?x = key" by (simp add: keys)
  have ge: "Compare key (node_key s w) < 0" if "w \<in> set ?a" for w
  proof -
    have w: "w \<in> set ns" using that by (rule set_dropWhileD)
    moreover have "\<not> Compare (node_key s w) key < 0"
      using key_split [OF sorted okk key] that by (simp add: key_less_def)
    ultimately show ?thesis using new Compare_flip [OF key, of "node_key s w"] okk by fastforce
  qed
  let ?R = "\<lambda>a b. Compare (node_key s a) (node_key s b) < 0"
  have "sorted_wrt ?R ?b" "sorted_wrt ?R ?a" "\<forall>x\<in>set ?b. \<forall>y\<in>set ?a. ?R x y"
    using sorted_wrt_append [of ?R ?b ?a] sorted by simp_all
  then have "sorted_wrt (\<lambda>a b. Compare a b < 0) (map (node_key s) ?b @ key # map (node_key s) ?a)"
    using ge by (auto simp: sorted_wrt_append sorted_wrt_map key_less_def dest: set_takeWhileD)
  then have "sorted_wrt (\<lambda>a b. Compare a b < 0) (map (node_key s') (?b @ ?x # ?a))"
    by (simp only: map_append list.map mb kx)
  moreover have "\<forall>n\<in>set (?b @ ?x # ?a). ok (node_key s' n)"
    using okk key by (auto simp: keys dest: set_takeWhileD set_dropWhileD)
  ultimately have "skip_list s' (?b @ ?x # ?a)"
    using rep' unfolding skip_list_def sorted_wrt_map by blast
  moreover have "map (node_key s') (?b @ ?x # ?a) = takeWhile (\<lambda>k. Compare k key < 0) (map (node_key s) ns) @ key #
      dropWhile (\<lambda>k. Compare k key < 0) (map (node_key s) ns)"
    unfolding map_append list.map mb kx by (simp only: takeWhile_map dropWhile_map o_def key_less_def [abs_def])
  ultimately show ?thesis using ins by blast
qed

lemma FindLT_walk:
  assumes "chain s l x (vs @ ws)" "\<forall>v\<in>set vs. key_less s key v" "\<forall>w\<in>set ws. \<not> key_less s key w"
  shows "FindLT_loop Compare s key x l =
    (if l = 0 then Some (last (x # vs)) else FindLT_loop Compare s key (last (x # vs)) (l - 1))"
  using assms
proof (induction vs arbitrary: x)
  case Nil
  then show ?case
    by (cases ws) (subst FindLT_loop.simps, auto simp: key_less_def not_less)+
next
  case (Cons v vs)
  then have "FindLT_loop Compare s key x l = FindLT_loop Compare s key v l"
    by (subst FindLT_loop.simps) (auto simp: key_less_def)
  with Cons show ?case by simp
qed

lemma FindLT_levels:
  assumes rep: "skip_rep s ht (before @ after)"
    and lt: "\<forall>v\<in>set before. key_less s key v" and ge: "\<forall>w\<in>set after. \<not> key_less s key w"
    and x: "x \<in> insert head_node (set (on_level ht l before))"
  shows "FindLT_loop Compare s key x l = Some (last (head_node # on_level ht 0 before))"
  using x
proof (induction l arbitrary: x)
  case 0
  have "chain s 0 head_node (on_level ht 0 before @ on_level ht 0 after)"
    using rep by (metis filter_append skip_rep_def)
  from chain_from [OF this 0] obtain vs where vs: "set vs \<subseteq> set (on_level ht 0 before)"
    "chain s 0 x (vs @ on_level ht 0 after)" "last (x # vs) = last (head_node # on_level ht 0 before)" by blast
  then have "\<forall>v\<in>set vs. key_less s key v" using lt by auto
  from FindLT_walk [OF vs(2) this] ge vs(3) show ?case by simp
next
  case (Suc l)
  have "chain s (Suc l) head_node (on_level ht (Suc l) before @ on_level ht (Suc l) after)"
    using rep by (metis filter_append skip_rep_def)
  from chain_from [OF this Suc.prems] obtain vs where vs: "set vs \<subseteq> set (on_level ht (Suc l) before)"
    "chain s (Suc l) x (vs @ on_level ht (Suc l) after)"
    "last (x # vs) = last (head_node # on_level ht (Suc l) before)" by blast
  have "\<forall>v\<in>set vs. key_less s key v" using vs(1) lt by auto
  from FindLT_walk [OF vs(2) this] ge vs(3)
  have "FindLT_loop Compare s key x (Suc l) =
      FindLT_loop Compare s key (last (head_node # on_level ht (Suc l) before)) l" by simp
  also have "\<dots> = Some (last (head_node # on_level ht 0 before))"
    by (rule Suc.IH [OF last_on_level_in])
  finally show ?case .
qed

lemma skip_list_parts:
  assumes "skip_list s ns" "ok key"
  obtains ht where "skip_rep s ht (takeWhile (key_less s key) ns @ dropWhile (key_less s key) ns)"
    "\<forall>v\<in>set (takeWhile (key_less s key) ns). key_less s key v"
    "\<forall>w\<in>set (dropWhile (key_less s key) ns). \<not> key_less s key w"
    "on_level ht 0 (takeWhile (key_less s key) ns) = takeWhile (key_less s key) ns"
    "0 < max_height s"
proof -
  from assms obtain ht where rep: "skip_rep s ht ns" by (auto simp: skip_list_def)
  have "on_level ht 0 (takeWhile (key_less s key) ns) = takeWhile (key_less s key) ns"
    using rep by (intro filter_True) (auto simp: skip_rep_def Suc_le_eq dest: set_takeWhileD)
  moreover have "\<forall>w\<in>set (dropWhile (key_less s key) ns). \<not> key_less s key w"
    using assms by (intro key_split) (auto simp: skip_list_def)
  moreover have "\<forall>v\<in>set (takeWhile (key_less s key) ns). key_less s key v" by (meson set_takeWhileD)
  ultimately show thesis using rep that [of ht] by (simp add: skip_rep_def)
qed

lemma FindLessThan_spec:
  assumes "skip_list s ns" "ok key"
  shows "FindLessThan Compare s key = Some (last (head_node # takeWhile (key_less s key) ns))"
proof -
  from skip_list_parts [OF assms] obtain ht where
    p: "skip_rep s ht (takeWhile (key_less s key) ns @ dropWhile (key_less s key) ns)"
    "\<forall>v\<in>set (takeWhile (key_less s key) ns). key_less s key v"
    "\<forall>w\<in>set (dropWhile (key_less s key) ns). \<not> key_less s key w"
    "on_level ht 0 (takeWhile (key_less s key) ns) = takeWhile (key_less s key) ns" by blast
  show ?thesis using FindLT_levels [OF p(1-3), of head_node] p(4) by (simp add: FindLessThan_def)
qed

lemma Seek_spec:
  assumes "skip_list s ns" "ok key"
  shows "SkipIter_Seek Compare s key = Some (case dropWhile (key_less s key) ns of [] \<Rightarrow> None | w # _ \<Rightarrow> Some w)"
proof -
  from assms obtain ht where "skip_rep s ht ns" "\<forall>n\<in>set ns. ok (node_key s n)"
    "sorted_wrt (\<lambda>a b. Compare (node_key s a) (node_key s b) < 0) ns" by (auto simp: skip_list_def)
  from FindGreaterOrEqual_spec [OF this assms(2)] show ?thesis by (auto simp: SkipIter_Seek_def)
qed

lemma Contains_spec:
  assumes sl: "skip_list s ns" and key: "ok key"
  shows "Contains Compare s key = Some (\<exists>n\<in>set ns. Compare key (node_key s n) = 0)"
proof -
  let ?a = "dropWhile (key_less s key) ns"
  from sl obtain ht where sl': "skip_rep s ht ns" "\<forall>n\<in>set ns. ok (node_key s n)"
    "sorted_wrt (\<lambda>a b. Compare (node_key s a) (node_key s b) < 0) ns" by (auto simp: skip_list_def)
  from FindGreaterOrEqual_spec [OF this key] obtain prev where
    f: "FindGreaterOrEqual Compare s key = Some (case ?a of [] \<Rightarrow> None | w # _ \<Rightarrow> Some w, prev)" by blast
  have lt: "Compare key (node_key s n) \<noteq> 0" if "key_less s key n" "n \<in> set ns" for n
    using that Compare_flip [OF key, of "node_key s n"] sl'(2) by (auto simp: key_less_def)
  have "(\<exists>n\<in>set ns. Compare key (node_key s n) = 0) \<longleftrightarrow>
      (case ?a of [] \<Rightarrow> False | w # _ \<Rightarrow> Compare key (node_key s w) = 0)"
  proof -
    have ns: "set ns = set (takeWhile (key_less s key) ns) \<union> set ?a"
      by (metis set_append takeWhile_dropWhile_id)
    have left: "Compare key (node_key s n) \<noteq> 0" if "n \<in> set (takeWhile (key_less s key) ns)" for n
      using that lt set_takeWhileD [of n] by blast
    show ?thesis
    proof (cases ?a)
      case Nil
      with ns left show ?thesis by (simp del: takeWhile_eq_all_conv dropWhile_eq_Nil_conv)
    next
      case (Cons w ws)
      have "Compare key (node_key s v) \<noteq> 0" if v: "v \<in> set ws" for v
      proof
        assume eq: "Compare key (node_key s v) = 0"
        have vn: "v \<in> set ns" "w \<in> set ns" using v Cons ns by auto
        have "sorted_wrt (\<lambda>a b. Compare (node_key s a) (node_key s b) < 0) (w # ws)"
          using sl'(3) Cons by (metis sorted_wrt_append takeWhile_dropWhile_id)
        then have "Compare (node_key s w) (node_key s v) < 0" using v by simp
        moreover have "\<not> Compare (node_key s w) key < 0"
          using key_split [OF sl'(3,2) key] Cons by (simp add: key_less_def)
        moreover have "Compare (node_key s v) key = 0"
          using eq Compare_flip [of "node_key s v" key] Compare_flip [of key "node_key s v"] key vn sl'(2)
          by (metis linorder_neqE_linordered_idom order_less_irrefl)
        ultimately show False
          using Compare_less_eq [of "node_key s w" "node_key s v" key] key vn sl'(2) by blast
      qed
      then show ?thesis using ns left Cons by auto
    qed
  qed
  then show ?thesis using f by (cases ?a) (simp_all add: Contains_def del: dropWhile_eq_Nil_conv)
qed

lemma Prev_spec:
  assumes sl: "skip_list s (us @ n # vs)"
  shows "SkipIter_Prev Compare s n = Some (if us = [] then None else Some (last us))"
proof -
  from sl obtain ht where rep: "skip_rep s ht (us @ n # vs)" and okk: "\<forall>m\<in>set (us @ n # vs). ok (node_key s m)"
    and sorted: "sorted_wrt (\<lambda>a b. Compare (node_key s a) (node_key s b) < 0) (us @ n # vs)"
    by (auto simp: skip_list_def)
  have "key_less s (node_key s n) u" if "u \<in> set us" for u
    using sorted that by (auto simp: key_less_def sorted_wrt_append)
  moreover have "\<not> key_less s (node_key s n) n"
    using Compare_flip [of "node_key s n" "node_key s n"] okk by (auto simp: key_less_def)
  ultimately have "takeWhile (key_less s (node_key s n)) (us @ n # vs) = us"
    by (simp add: takeWhile_append)
  then have "FindLessThan Compare s (node_key s n) = Some (last (head_node # us))"
    using FindLessThan_spec [OF sl] okk by simp
  moreover have "last us \<noteq> head_node" if "us \<noteq> []"
    using rep last_in_set [OF that] by (auto simp: skip_rep_def)
  ultimately show ?thesis by (cases "us = []") (simp_all add: SkipIter_Prev_def)
qed

end

subsection \<open>The generator is the multiplicative one\<close>

lemma fold_mod:
  fixes p :: nat
  shows "(p div 2 ^ 31 + p mod 2 ^ 31) mod (2 ^ 31 - 1) = p mod (2 ^ 31 - 1)"
proof -
  have "p = (p div 2 ^ 31) * (2 ^ 31 - 1) + (p div 2 ^ 31 + p mod 2 ^ 31)"
    using div_mult_mod_eq [of p "2 ^ 31"] by (simp add: algebra_simps)
  then show ?thesis by (metis mod_mult_self3)
qed

lemma Random_not_multiple:
  assumes "0 < s" "s < 2 ^ 31 - 1"
  shows "\<not> (2 ^ 31 - 1) dvd s * (16807 :: nat)"
proof
  assume "(2 ^ 31 - 1) dvd s * 16807"
  moreover have "coprime (2 ^ 31 - 1) (16807 :: nat)" by (simp add: coprime_iff_gcd_eq_1 gcd_non_0_nat)
  ultimately have "(2 ^ 31 - 1) dvd s" by (simp add: coprime_dvd_mult_left_iff)
  then show False using assms by (auto dest: dvd_imp_le)
qed

lemma Random_step:
  assumes "0 < s" "s < 2 ^ 31 - 1"
  shows "(if (s * 16807) div 2 ^ 31 + (s * 16807) mod 2 ^ 31 > 2 ^ 31 - 1
      then (s * 16807) div 2 ^ 31 + (s * 16807) mod 2 ^ 31 - (2 ^ 31 - 1)
      else (s * 16807) div 2 ^ 31 + (s * 16807) mod 2 ^ 31) = s * 16807 mod (2 ^ 31 - 1 :: nat)"
proof -
  let ?M = "2 ^ 31 - 1 :: nat"
  define x where "x = (s * 16807) div 2 ^ 31 + (s * 16807) mod 2 ^ 31"
  have "(s * 16807) div 2 ^ 31 \<le> 16807" "(s * 16807) mod 2 ^ 31 \<le> 2 ^ 31 - 1"
    using assms by simp_all
  then have x: "x < 2 * ?M" by (simp add: x_def)
  have mod: "x mod ?M = s * 16807 mod ?M" unfolding x_def by (rule fold_mod)
  then have "x mod ?M \<noteq> 0" using Random_not_multiple [OF assms] by (simp add: dvd_eq_mod_eq_0)
  then have "x \<noteq> ?M" by auto
  then have "(if x > ?M then x - ?M else x) = x mod ?M"
    using x by (auto simp: mod_if)
  then show ?thesis using mod unfolding x_def by simp
qed

lemma unat_Random_Next:
  assumes "0 < unat s" "unat s < 2 ^ 31 - 1"
  shows "unat (Random_Next s) = unat s * 16807 mod (2 ^ 31 - 1)"
proof -
  define p :: uint64 where "p = ucast s * 16807"
  have s64: "unat (ucast s :: uint64) = unat s" by (rule unat_ucast_64)
  have up: "unat p = unat s * 16807" using assms by (simp add: p_def unat_word_ariths)
  have "p AND ucast Random_M = take_bit 31 p"
    by (simp add: Random_M_def take_bit_eq_mask mask_eq_exp_minus_1)
  then have lo: "unat (p AND ucast Random_M) = unat p mod 2 ^ 31"
    by (simp only: trans [OF unsigned_take_bit_eq take_bit_eq_mod])
  define w :: uint64 where "w = drop_bit 31 p + (p AND ucast Random_M)"
  have hi: "unat (drop_bit 31 p) = unat p div 2 ^ 31" by (rule unat_drop_bit_div)
  have small: "unat p div 2 ^ 31 \<le> 16807" using assms by (simp add: up)
  have w: "unat w = unat p div 2 ^ 31 + unat p mod 2 ^ 31"
    using small by (simp add: w_def unat_word_ariths hi lo)
  then have "unat w < 2 ^ 32" using small by (simp add: trans_less_add2 less_trans)
  then have w32: "unat (ucast w :: uint32) = unat w"
    by (simp add: unsigned_ucast_eq take_bit_nat_eq_self unsigned_take_bit_eq)
  have "Random_Next s = (if ucast w > Random_M then ucast w - Random_M else (ucast w :: uint32))"
    by (simp only: Random_Next_def Let_def p_def w_def)
  moreover have "unat Random_M = 2 ^ 31 - 1" by (simp add: Random_M_def)
  ultimately have "unat (Random_Next s) = (if unat w > 2 ^ 31 - 1 then unat w - (2 ^ 31 - 1) else unat w)"
    using w32 by (simp add: word_less_nat_alt unat_sub word_le_nat_alt)
  also have "\<dots> = unat s * 16807 mod (2 ^ 31 - 1)"
    unfolding w up by (rule Random_step) (use assms in simp_all)
  finally show ?thesis .
qed

subsection \<open>Properties\<close>

text \<open>
  C31: the shift-and-add \<^verbatim>\<open>Random::Next\<close> computes the multiplicative generator with multiplier 16807
  modulo \<open>2 ^ 31 - 1\<close> on every admissible seed, and stays among the admissible seeds.
\<close>

theorem Random_Next_correct:
  assumes "0 < s" and "s < Random_M"
  shows "unat (Random_Next s) = unat s * 16807 mod (2 ^ 31 - 1) \<and> 0 < Random_Next s \<and> Random_Next s < Random_M"
proof -
  have s: "0 < unat s" "unat s < 2 ^ 31 - 1" using assms by (simp_all add: word_less_nat_alt Random_M_def)
  then show ?thesis
    using unat_Random_Next [OF s] Random_not_multiple [OF s]
    by (simp add: word_less_nat_alt Random_M_def dvd_eq_mod_eq_0)
qed

theorem Random_Next_correct_witness: "unat (Random_Next 127773) = 127773 * 16807 mod (2 ^ 31 - 1)"
  using Random_Next_correct [of 127773] by (simp add: Random_M_def)

text \<open>
  C9: inserting a key that compares equal to no key of a skip list returns, keeps the representation
  invariant (sorted, properly linked on every level, heights within bounds) and puts the key in
  its place; searches on the list return as well.
\<close>

theorem skiplist_insert_sorted:
  assumes "bytewise.skip_list s ns" and "\<forall>n\<in>set ns. Bytewise_Compare key (node_key s n) \<noteq> 0"
  shows "\<exists>s' ns'. SkipList_Insert Bytewise_Compare key s = Some s' \<and> bytewise.skip_list s' ns' \<and>
    map (node_key s') ns' = takeWhile (\<lambda>k. Bytewise_Compare k key < 0) (map (node_key s) ns) @ key #
      dropWhile (\<lambda>k. Bytewise_Compare k key < 0) (map (node_key s) ns) \<and>
    Contains Bytewise_Compare s' key = Some True \<and> FindLast s' \<noteq> None"
proof -
  from bytewise.Insert_spec [OF assms(1) TrueI assms(2)] obtain s' ns' where
    i: "SkipList_Insert Bytewise_Compare key s = Some s'" "bytewise.skip_list s' ns'"
    "map (node_key s') ns' = takeWhile (\<lambda>k. Bytewise_Compare k key < 0) (map (node_key s) ns) @ key #
      dropWhile (\<lambda>k. Bytewise_Compare k key < 0) (map (node_key s) ns)" by blast
  have "key \<in> set (map (node_key s') ns')" unfolding i(3) by simp
  then have "\<exists>n\<in>set ns'. Bytewise_Compare key (node_key s' n) = 0"
    using bytewise.Compare_refl by fastforce
  then have "Contains Bytewise_Compare s' key = Some True"
    using bytewise.Contains_spec [OF i(2), of key] by simp
  moreover obtain ht where "skip_rep s' ht ns'" using i(2) by (auto simp: bytewise.skip_list_def)
  then have "FindLast s' \<noteq> None" using FindLast_levels [of s' ht ns' 0] by (simp add: FindLast_def)
  ultimately show ?thesis using i by blast
qed

theorem skiplist_insert_sorted_witness:
  "\<exists>s' ns'. SkipList_Insert Bytewise_Compare [5] (mk_SkipList []) = Some s' \<and> bytewise.skip_list s' ns' \<and>
     map (node_key s') ns' = [[5]]"
proof -
  have new: "\<forall>n\<in>set []. Bytewise_Compare [5] (node_key (mk_SkipList []) n) \<noteq> 0" by simp
  from skiplist_insert_sorted [OF bytewise.skip_list_init new] show ?thesis
  proof (elim exE conjE, goal_cases)
    case (1 s' ns')
    show ?case
      by (rule exI [of _ s'], rule exI [of _ ns'], intro conjI, rule 1(1), rule 1(2)) (simp add: 1(3))
  qed
qed

end
