(* ===== verification/Dbformat.thy ===== *)
theory Dbformat
  imports Comparator
begin

unbundle bit_operations_syntax

text \<open>
  Internal keys (\<^verbatim>\<open>App/integration/dbformat.h\<close> and \<^verbatim>\<open>dbformat.cpp\<close>).  An internal key is
  a user key followed by eight bytes that pack a 56-bit sequence number and a value type.
  \<^verbatim>\<open>InternalKeyComparator\<close> is parameterised by the user comparator; the locale
  \<open>internal_key_order\<close> shows that it implements the comparator interface whenever the user
  comparator does.
\<close>

subsection \<open>Constants\<close>

definition kNumLevels :: nat where "kNumLevels = 7"

definition kL0_CompactionTrigger :: nat where "kL0_CompactionTrigger = 4"

definition kL0_SlowdownWritesTrigger :: nat where "kL0_SlowdownWritesTrigger = 8"

definition kL0_StopWritesTrigger :: nat where "kL0_StopWritesTrigger = 12"

definition kMaxMemCompactLevel :: nat where "kMaxMemCompactLevel = 2"

datatype ValueType = kTypeDeletion | kTypeValue

fun ValueType_code :: "ValueType \<Rightarrow> byte" where
  "ValueType_code kTypeDeletion = 0"
| "ValueType_code kTypeValue = 1"

definition kValueTypeForSeek :: ValueType where
  "kValueTypeForSeek = kTypeValue"

type_synonym SequenceNumber = uint64

definition kMaxSequenceNumber :: SequenceNumber where
  "kMaxSequenceNumber = push_bit 56 1 - 1"

subsection \<open>Internal keys\<close>

record ParsedInternalKey =
  user_key :: bytes
  sequence :: SequenceNumber
  value_type :: ValueType

definition PackSequenceAndType :: "uint64 \<Rightarrow> ValueType \<Rightarrow> uint64" where
  "PackSequenceAndType seq t = push_bit 8 seq OR ucast (ValueType_code t)"

definition AppendInternalKey :: "bytes \<Rightarrow> ParsedInternalKey \<Rightarrow> bytes" where
  "AppendInternalKey result key =
     PutFixed64 (result @ user_key key) (PackSequenceAndType (sequence key) (value_type key))"

text \<open>\<^verbatim>\<open>InternalKey(user_key, s, t)\<close>, the constructor of the wrapper class.\<close>

definition InternalKey :: "bytes \<Rightarrow> SequenceNumber \<Rightarrow> ValueType \<Rightarrow> bytes" where
  "InternalKey u s t =
     AppendInternalKey [] \<lparr>user_key = u, sequence = s, value_type = t\<rparr>"

definition ExtractUserKey :: "bytes \<Rightarrow> bytes" where
  "ExtractUserKey internal_key = take (length internal_key - 8) internal_key"

text \<open>The trailing fixed64 that several routines decode in place; zero on a short key.\<close>

definition DecodeTrailer :: "bytes \<Rightarrow> uint64" where
  "DecodeTrailer internal_key =
     (case DecodeFixed64 (drop (length internal_key - 8) internal_key) of
        None \<Rightarrow> 0 | Some num \<Rightarrow> num)"

definition ParseInternalKey :: "bytes \<Rightarrow> ParsedInternalKey option" where
  "ParseInternalKey internal_key =
     (let n = length internal_key in
      if n < 8 then None
      else (let num = DecodeTrailer internal_key;
                c = (ucast (num AND 0xff) :: byte)
            in if c \<le> ValueType_code kTypeValue
               then Some \<lparr>user_key = take (n - 8) internal_key, sequence = drop_bit 8 num,
                          value_type = (if c = 0 then kTypeDeletion else kTypeValue)\<rparr>
               else None))"

subsection \<open>The internal key comparator\<close>

definition InternalKey_Compare :: "(bytes \<Rightarrow> bytes \<Rightarrow> int) \<Rightarrow> bytes \<Rightarrow> bytes \<Rightarrow> int" where
  "InternalKey_Compare user_Compare akey bkey =
     (let r = user_Compare (ExtractUserKey akey) (ExtractUserKey bkey) in
      if r = 0
      then (let anum = DecodeTrailer akey; bnum = DecodeTrailer bkey in
            if anum > bnum then -1 else if anum < bnum then 1 else r)
      else r)"

definition InternalKey_FindShortestSeparator ::
  "(bytes \<Rightarrow> bytes \<Rightarrow> int) \<Rightarrow> (bytes \<Rightarrow> bytes \<Rightarrow> bytes) \<Rightarrow> bytes \<Rightarrow> bytes \<Rightarrow> bytes" where
  "InternalKey_FindShortestSeparator user_Compare user_FindShortestSeparator start limit =
     (let user_start = ExtractUserKey start;
          user_limit = ExtractUserKey limit;
          tmp = user_FindShortestSeparator user_start user_limit
      in if length tmp < length user_start \<and> user_Compare user_start tmp < 0
         then PutFixed64 tmp (PackSequenceAndType kMaxSequenceNumber kValueTypeForSeek)
         else start)"

definition InternalKey_FindShortSuccessor ::
  "(bytes \<Rightarrow> bytes \<Rightarrow> int) \<Rightarrow> (bytes \<Rightarrow> bytes) \<Rightarrow> bytes \<Rightarrow> bytes" where
  "InternalKey_FindShortSuccessor user_Compare user_FindShortSuccessor key =
     (let u = ExtractUserKey key; tmp = user_FindShortSuccessor u
      in if length tmp < length u \<and> user_Compare u tmp < 0
         then PutFixed64 tmp (PackSequenceAndType kMaxSequenceNumber kValueTypeForSeek)
         else key)"

subsection \<open>Filter policy wrapper and lookup keys\<close>

definition InternalFilterPolicy_CreateFilter ::
  "(bytes list \<Rightarrow> bytes \<Rightarrow> bytes) \<Rightarrow> bytes list \<Rightarrow> bytes \<Rightarrow> bytes" where
  "InternalFilterPolicy_CreateFilter user_CreateFilter keys dst =
     user_CreateFilter (map ExtractUserKey keys) dst"

definition InternalFilterPolicy_KeyMayMatch ::
  "(bytes \<Rightarrow> bytes \<Rightarrow> bool) \<Rightarrow> bytes \<Rightarrow> bytes \<Rightarrow> bool" where
  "InternalFilterPolicy_KeyMayMatch user_KeyMayMatch key f =
     user_KeyMayMatch (ExtractUserKey key) f"

text \<open>
  A \<^verbatim>\<open>LookupKey\<close> is one buffer with two pointers into it: \<open>lk_start\<close> holds the bytes from
  \<^verbatim>\<open>start_\<close> to \<^verbatim>\<open>end_\<close>, \<open>lk_kstart\<close> the offset of \<^verbatim>\<open>kstart_\<close>; \<open>lk_needed\<close> is the size the
  constructor reserves.
\<close>

record LookupKey =
  lk_start :: bytes
  lk_kstart :: nat
  lk_needed :: nat

definition mk_LookupKey :: "bytes \<Rightarrow> SequenceNumber \<Rightarrow> LookupKey" where
  "mk_LookupKey u s =
     (let usize = length u;
          klength = EncodeVarint32 (of_nat (usize + 8))
      in \<lparr>lk_start = klength @ u @ EncodeFixed64 (PackSequenceAndType s kValueTypeForSeek),
          lk_kstart = length klength, lk_needed = usize + 13\<rparr>)"

definition memtable_key :: "LookupKey \<Rightarrow> bytes" where
  "memtable_key k = lk_start k"

definition internal_key :: "LookupKey \<Rightarrow> bytes" where
  "internal_key k = drop (lk_kstart k) (lk_start k)"

definition lookup_user_key :: "LookupKey \<Rightarrow> bytes" where
  "lookup_user_key k = take (length (lk_start k) - lk_kstart k - 8) (drop (lk_kstart k) (lk_start k))"

subsection \<open>The shape of internal keys\<close>

abbreviation ikey_ok :: "bytes \<Rightarrow> bool" where
  "ikey_ok k \<equiv> 8 \<le> length k"

lemma ExtractUserKey_append [simp]: "ExtractUserKey (u @ EncodeFixed64 n) = u"
  by (simp add: ExtractUserKey_def)

lemma DecodeTrailer_append [simp]: "DecodeTrailer (u @ EncodeFixed64 n) = n"
  using DecodeFixed64_Encode [of n "[]"] by (simp add: DecodeTrailer_def)

lemma ikey_split:
  assumes "ikey_ok k"
  shows "k = ExtractUserKey k @ EncodeFixed64 (DecodeTrailer k)"
proof -
  let ?t = "drop (length k - 8) k"
  have len: "length ?t = 8" using assms by simp
  then obtain v where v: "DecodeFixed64 ?t = Some v"
    using DecodeFixed64_length [of ?t] by auto
  then have "EncodeFixed64 (DecodeTrailer k) = ?t"
    using EncodeFixed64_Decode [OF len v] by (simp add: DecodeTrailer_def)
  then show ?thesis by (simp add: ExtractUserKey_def)
qed

lemma ikey_eqI:
  "ikey_ok a \<Longrightarrow> ikey_ok b \<Longrightarrow> ExtractUserKey a = ExtractUserKey b \<Longrightarrow>
   DecodeTrailer a = DecodeTrailer b \<Longrightarrow> a = b"
  using ikey_split [of a] ikey_split [of b] by simp

lemma InternalKey_eq: "InternalKey u s t = u @ EncodeFixed64 (PackSequenceAndType s t)"
  by (simp add: InternalKey_def AppendInternalKey_def PutFixed64_def)

lemma ExtractUserKey_InternalKey [simp]: "ExtractUserKey (InternalKey u s t) = u"
  by (simp add: InternalKey_eq)

lemma ikey_ok_InternalKey [simp]: "ikey_ok (InternalKey u s t)"
  by (simp add: InternalKey_eq)

lemma kMaxSequenceNumber_unat: "unat kMaxSequenceNumber = 2 ^ 56 - 1"
  by (simp add: kMaxSequenceNumber_def)

lemma unat_PackSequenceAndType:
  assumes "s \<le> kMaxSequenceNumber"
  shows "unat (PackSequenceAndType s t) = 256 * unat s + unat (ValueType_code t)"
proof -
  have s: "unat s < 2 ^ 56"
    using assms kMaxSequenceNumber_unat by (simp add: word_le_nat_alt)
  have c: "unat (ucast (ValueType_code t) :: uint64) = unat (ValueType_code t)"
    "unat (ValueType_code t) < 2"
    by (cases t; simp)+
  have "push_bit 8 s AND ucast (ValueType_code t) = (0 :: uint64)"
    by (cases t) (auto intro: bit_word_eqI simp: bit_simps bit_1_iff)
  then have "PackSequenceAndType s t = push_bit 8 s + ucast (ValueType_code t)"
    by (simp add: PackSequenceAndType_def disjunctive_add_eq_or)
  moreover have "unat (push_bit 8 s) = 256 * unat s"
    using s by (simp add: push_bit_eq_mult unat_word_ariths)
  ultimately show ?thesis
    using s c by (simp add: unat_word_ariths)
qed

lemma PackSequenceAndType_inverse:
  assumes "s \<le> kMaxSequenceNumber"
  shows "drop_bit 8 (PackSequenceAndType s t) = s"
    and "ucast (PackSequenceAndType s t AND 0xff) = ValueType_code t"
proof -
  have c: "unat (ValueType_code t) < 2" by (cases t; simp)
  have "unat (drop_bit 8 (PackSequenceAndType s t)) = unat s"
    using c by (simp only: unat_drop_bit_div unat_PackSequenceAndType [OF assms]) simp
  then show "drop_bit 8 (PackSequenceAndType s t) = s" by (simp only: word_unat_eq_iff)
  show "ucast (PackSequenceAndType s t AND 0xff) = ValueType_code t"
    unfolding PackSequenceAndType_def and_255_eq
    by (intro bit_word_eqI) (auto simp: bit_simps)
qed

lemma ParseInternalKey_InternalKey [codec]:
  assumes "s \<le> kMaxSequenceNumber"
  shows "ParseInternalKey (InternalKey u s t) =
    Some \<lparr>user_key = u, sequence = s, value_type = t\<rparr>"
proof -
  have "DecodeTrailer (InternalKey u s t) = PackSequenceAndType s t"
    by (simp add: InternalKey_eq)
  then show ?thesis using PackSequenceAndType_inverse [OF assms, of t]
    by (cases t) (simp_all add: ParseInternalKey_def Let_def InternalKey_eq)
qed

lemma Pack_split:
  fixes num :: uint64
  assumes "ucast (num AND 0xff) = ValueType_code t"
  shows "PackSequenceAndType (drop_bit 8 num) t = num"
proof -
  have "(ucast (ValueType_code t) :: uint64) = num AND 0xff"
    unfolding assms [symmetric] and_255_eq by (intro bit_word_eqI) (auto simp: bit_simps)
  then show ?thesis
    unfolding PackSequenceAndType_def and_255_eq
    by (intro bit_word_eqI) (auto simp: bit_simps)
qed

lemma AppendInternalKey_Parse:
  assumes "ParseInternalKey k = Some p"
  shows "AppendInternalKey [] p = k \<and> sequence p \<le> kMaxSequenceNumber"
proof -
  let ?n = "DecodeTrailer k"
  let ?c = "ucast (?n AND 0xff) :: byte"
  from assms have ok: "ikey_ok k" and c: "?c \<le> 1"
    and p: "p = \<lparr>user_key = ExtractUserKey k, sequence = drop_bit 8 ?n,
      value_type = (if ?c = 0 then kTypeDeletion else kTypeValue)\<rparr>"
    by (auto simp: ParseInternalKey_def ExtractUserKey_def Let_def split: if_splits)
  from c have "?c = 0 \<or> ?c = 1" by (auto simp: word_le_nat_alt word_unat_eq_iff)
  then have "?c = ValueType_code (value_type p)" by (auto simp: p)
  then have "PackSequenceAndType (sequence p) (value_type p) = ?n"
    unfolding p by (simp only: ParsedInternalKey.simps Pack_split)
  then have "AppendInternalKey [] p = k"
    using ikey_split [OF ok] by (simp add: AppendInternalKey_def PutFixed64_def p)
  moreover have "unat (drop_bit 8 ?n) \<le> 2 ^ 56 - 1"
    using unsigned_less [of ?n, where 'a = nat] by (simp add: unat_drop_bit_div)
  then have "sequence p \<le> kMaxSequenceNumber"
    unfolding word_le_nat_alt kMaxSequenceNumber_unat p by simp
  ultimately show ?thesis by blast
qed

subsection \<open>Internal keys under any user comparator\<close>

text \<open>
  Two internal keys may share their user key, so the separator of a user key and itself
  must be that key; the bytewise comparator has this property.
\<close>

locale internal_key_order =
  user: shortening_comparator "\<lambda>_ :: bytes. True" ucmp usep usucc
  for ucmp :: "bytes \<Rightarrow> bytes \<Rightarrow> int" and usep and usucc +
  assumes separator_same: "usep u u = u"
begin

lemma InternalKey_Compare_less:
  "InternalKey_Compare ucmp a b < 0 \<longleftrightarrow>
     ucmp (ExtractUserKey a) (ExtractUserKey b) < 0 \<or>
     (ExtractUserKey a = ExtractUserKey b \<and> DecodeTrailer a > DecodeTrailer b)"
  by (simp add: InternalKey_Compare_def Let_def user.Compare_eq_0 user.Compare_refl)

lemma InternalKey_Compare_0:
  "InternalKey_Compare ucmp a b = 0 \<longleftrightarrow>
     ExtractUserKey a = ExtractUserKey b \<and> DecodeTrailer a = DecodeTrailer b"
  by (auto simp: InternalKey_Compare_def Let_def user.Compare_eq_0 user.Compare_refl not_less)

lemma InternalKey_Compare_gt:
  "InternalKey_Compare ucmp a b > 0 \<longleftrightarrow> InternalKey_Compare ucmp b a < 0"
  using user.Compare_flip [of "ExtractUserKey a" "ExtractUserKey b"]
  by (auto simp: InternalKey_Compare_def Let_def user.Compare_eq_0 user.Compare_refl)

lemma InternalKey_Compare_trans:
  "InternalKey_Compare ucmp a b < 0 \<Longrightarrow> InternalKey_Compare ucmp b c < 0 \<Longrightarrow>
   InternalKey_Compare ucmp a c < 0"
  unfolding InternalKey_Compare_less
  using user.Compare_trans [of "ExtractUserKey a" "ExtractUserKey b" "ExtractUserKey c"]
  by auto

lemma InternalKey_Compare_less_eq:
  "InternalKey_Compare ucmp a b < 0 \<Longrightarrow> InternalKey_Compare ucmp b c = 0 \<Longrightarrow>
   InternalKey_Compare ucmp a c < 0"
  unfolding InternalKey_Compare_less InternalKey_Compare_0 by auto

lemma separator_cases:
  assumes "InternalKey_Compare ucmp start limit < 0"
  shows "InternalKey_Compare ucmp start (InternalKey_FindShortestSeparator ucmp usep start limit) \<le> 0 \<and>
    InternalKey_Compare ucmp (InternalKey_FindShortestSeparator ucmp usep start limit) limit < 0"
proof (cases "length (usep (ExtractUserKey start) (ExtractUserKey limit)) < length (ExtractUserKey start) \<and>
    ucmp (ExtractUserKey start) (usep (ExtractUserKey start) (ExtractUserKey limit)) < 0")
  case True
  then have "ExtractUserKey start \<noteq> ExtractUserKey limit" using separator_same by auto
  with assms have less: "ucmp (ExtractUserKey start) (ExtractUserKey limit) < 0"
    by (simp add: InternalKey_Compare_less)
  have "ucmp (usep (ExtractUserKey start) (ExtractUserKey limit)) (ExtractUserKey limit) < 0"
    using user.separator_between less by blast
  moreover have "InternalKey_Compare ucmp a b \<le> 0" if "InternalKey_Compare ucmp a b < 0" for a b
    using that by simp
  ultimately show ?thesis using True
    by (simp add: InternalKey_FindShortestSeparator_def Let_def PutFixed64_def
        InternalKey_Compare_less)
next
  case False
  then have "InternalKey_FindShortestSeparator ucmp usep start limit = start"
    by (auto simp: InternalKey_FindShortestSeparator_def Let_def)
  with assms show ?thesis using InternalKey_Compare_0 [of start start] by simp
qed

lemma successor_cases:
  "InternalKey_Compare ucmp key (InternalKey_FindShortSuccessor ucmp usucc key) \<le> 0"
proof (cases "length (usucc (ExtractUserKey key)) < length (ExtractUserKey key) \<and>
    ucmp (ExtractUserKey key) (usucc (ExtractUserKey key)) < 0")
  case True
  then have "InternalKey_Compare ucmp key (InternalKey_FindShortSuccessor ucmp usucc key) < 0"
    by (simp add: InternalKey_FindShortSuccessor_def Let_def PutFixed64_def
        InternalKey_Compare_less)
  then show ?thesis by simp
next
  case False
  then have "InternalKey_FindShortSuccessor ucmp usucc key = key"
    by (auto simp: InternalKey_FindShortSuccessor_def Let_def)
  then show ?thesis using InternalKey_Compare_0 [of key key] by simp
qed

end

sublocale internal_key_order \<subseteq> internal: shortening_comparator ikey_ok "InternalKey_Compare ucmp"
  "InternalKey_FindShortestSeparator ucmp usep" "InternalKey_FindShortSuccessor ucmp usucc"
proof unfold_locales
  fix a b :: bytes
  assume "ikey_ok a" "ikey_ok b"
  then show "InternalKey_Compare ucmp a b = 0 \<longleftrightarrow> a = b"
    using ikey_eqI by (auto simp: InternalKey_Compare_0)
  show "InternalKey_Compare ucmp a b > 0 \<longleftrightarrow> InternalKey_Compare ucmp b a < 0"
    by (rule InternalKey_Compare_gt)
  show "ikey_ok (InternalKey_FindShortestSeparator ucmp usep a b)"
    using \<open>ikey_ok a\<close> by (simp add: InternalKey_FindShortestSeparator_def Let_def PutFixed64_def)
next
  fix a b c :: bytes
  assume "InternalKey_Compare ucmp a b < 0" "InternalKey_Compare ucmp b c < 0"
  then show "InternalKey_Compare ucmp a c < 0" by (rule InternalKey_Compare_trans)
next
  fix a b c :: bytes
  assume "InternalKey_Compare ucmp a b < 0" "InternalKey_Compare ucmp b c = 0"
  then show "InternalKey_Compare ucmp a c < 0" by (rule InternalKey_Compare_less_eq)
next
  fix k :: bytes
  assume "ikey_ok k"
  then show "ikey_ok (InternalKey_FindShortSuccessor ucmp usucc k)"
    by (simp add: InternalKey_FindShortSuccessor_def Let_def PutFixed64_def)
qed (simp_all add: separator_cases successor_cases)

lemma Bytewise_separator_same: "Bytewise_FindShortestSeparator u u = u"
  using diff_index_loop_eq [of 0 "length u" u u "diff_index_loop u u (length u) 0"]
  by (auto simp: Bytewise_FindShortestSeparator_def Let_def)

interpretation ikey: internal_key_order Bytewise_Compare Bytewise_FindShortestSeparator
  Bytewise_FindShortSuccessor
  by unfold_locales (rule Bytewise_separator_same)

subsection \<open>Lookup keys\<close>

lemma internal_key_LookupKey: "internal_key (mk_LookupKey u s) = InternalKey u s kTypeValue"
  by (simp add: internal_key_def mk_LookupKey_def Let_def InternalKey_eq kValueTypeForSeek_def)

lemma lookup_user_key_LookupKey: "lookup_user_key (mk_LookupKey u s) = u"
  by (simp add: lookup_user_key_def mk_LookupKey_def Let_def)

lemma LookupKey_fits: "length (lk_start (mk_LookupKey u s)) \<le> lk_needed (mk_LookupKey u s)"
  using length_EncodeVarint32 [of "of_nat (length u + 8)"]
  by (simp add: mk_LookupKey_def Let_def)

lemma Pack_less_iff:
  assumes "s \<le> kMaxSequenceNumber" "s' \<le> kMaxSequenceNumber"
  shows "PackSequenceAndType s t < PackSequenceAndType s' t' \<longleftrightarrow>
    s < s' \<or> s = s' \<and> ValueType_code t < ValueType_code t'"
proof -
  have "unat (ValueType_code t) < 2" "unat (ValueType_code t') < 2" by (cases t; cases t'; simp)+
  then have "256 * unat s + unat (ValueType_code t) < 256 * unat s' + unat (ValueType_code t') \<longleftrightarrow>
      unat s < unat s' \<or> unat s = unat s' \<and> unat (ValueType_code t) < unat (ValueType_code t')"
    by auto
  then show ?thesis
    by (simp only: word_less_nat_alt unat_PackSequenceAndType assms word_unat_eq_iff)
qed

lemma LookupKey_seek:
  assumes "s \<le> kMaxSequenceNumber" "s' \<le> kMaxSequenceNumber"
  shows "InternalKey_Compare Bytewise_Compare (internal_key (mk_LookupKey u s)) (InternalKey u' s' t) \<le> 0
    \<longleftrightarrow> u < u' \<or> u = u' \<and> s' \<le> s"
proof -
  have "InternalKey_Compare Bytewise_Compare (InternalKey u s kTypeValue) (InternalKey u' s' t) \<le> 0 \<longleftrightarrow>
      \<not> InternalKey_Compare Bytewise_Compare (InternalKey u' s' t) (InternalKey u s kTypeValue) < 0"
    by (meson ikey.InternalKey_Compare_gt linorder_not_le)
  moreover have "InternalKey_Compare Bytewise_Compare (InternalKey u' s' t) (InternalKey u s kTypeValue) < 0
      \<longleftrightarrow> u' < u \<or> u' = u \<and> s < s'"
    using Pack_less_iff [OF assms, of kTypeValue t]
    by (cases t) (auto simp: ikey.InternalKey_Compare_less InternalKey_eq Bytewise_Compare_def
      Slice_compare_less)
  ultimately show ?thesis by (auto simp: internal_key_LookupKey not_less)
qed

subsection \<open>Properties\<close>

text \<open>
  C36: parsing and building internal keys are inverse to each other: a byte sequence parses to a
  user key, a sequence number and a type exactly when the number has at most 56 bits and the
  sequence is the internal key built from the three; everything else - fewer than eight bytes, an
  unknown type byte - is rejected.
\<close>

theorem internal_key_roundtrip:
  "ParseInternalKey k = Some p \<longleftrightarrow> AppendInternalKey [] p = k \<and> sequence p \<le> kMaxSequenceNumber"
proof
  assume "ParseInternalKey k = Some p"
  then show "AppendInternalKey [] p = k \<and> sequence p \<le> kMaxSequenceNumber"
    by (rule AppendInternalKey_Parse)
next
  assume "AppendInternalKey [] p = k \<and> sequence p \<le> kMaxSequenceNumber"
  then show "ParseInternalKey k = Some p"
    using ParseInternalKey_InternalKey [of "sequence p" "user_key p" "value_type p"]
    by (cases p) (auto simp: InternalKey_def)
qed

text \<open>
  C35: a seek with the lookup key of user key \<open>u\<close> at snapshot \<open>s\<close> stops at exactly the entries of
  larger user keys and those of \<open>u\<close> that the snapshot may see, newest first; the key's buffer is
  never overrun.
\<close>

theorem lookup_key_seek:
  assumes "s \<le> kMaxSequenceNumber" and "s' \<le> kMaxSequenceNumber"
  shows "(InternalKey_Compare Bytewise_Compare (internal_key (mk_LookupKey u s)) (InternalKey u' s' t) \<le> 0
      \<longleftrightarrow> Bytewise_Compare u u' < 0 \<or> u = u' \<and> s' \<le> s) \<and>
    lookup_user_key (mk_LookupKey u s) = u \<and>
    length (memtable_key (mk_LookupKey u s)) \<le> lk_needed (mk_LookupKey u s)"
  using LookupKey_seek [OF assms] LookupKey_fits lookup_user_key_LookupKey
  by (simp add: Bytewise_Compare_def Slice_compare_less memtable_key_def)

theorem lookup_key_seek_witness:
  "InternalKey_Compare Bytewise_Compare (internal_key (mk_LookupKey [1] 7)) (InternalKey [1] 5 kTypeValue) \<le> 0"
  using lookup_key_seek [of 7 5 "[1]" "[1]" kTypeValue] by (simp add: kMaxSequenceNumber_def)

text \<open>
  C34: the internal key comparator is a total order on internal keys - increasing user keys, and
  for the same user key decreasing packed numbers, so the newest version comes first - in which
  only equal keys compare equal; its key shortening stays inside the interval, so index blocks
  built with it separate their data blocks.
\<close>

theorem internal_key_separator:
  assumes "ikey_ok a" and "ikey_ok b" and "ikey_ok c"
  shows "(InternalKey_Compare Bytewise_Compare a b < 0 \<longleftrightarrow>
      Bytewise_Compare (ExtractUserKey a) (ExtractUserKey b) < 0 \<or>
      ExtractUserKey a = ExtractUserKey b \<and> DecodeTrailer a > DecodeTrailer b) \<and>
    (InternalKey_Compare Bytewise_Compare a b = 0 \<longleftrightarrow> a = b) \<and>
    (InternalKey_Compare Bytewise_Compare a b > 0 \<longleftrightarrow> InternalKey_Compare Bytewise_Compare b a < 0) \<and>
    (InternalKey_Compare Bytewise_Compare a b < 0 \<longrightarrow> InternalKey_Compare Bytewise_Compare b c < 0 \<longrightarrow>
      InternalKey_Compare Bytewise_Compare a c < 0) \<and>
    (InternalKey_Compare Bytewise_Compare a b < 0 \<longrightarrow>
      InternalKey_Compare Bytewise_Compare a
        (InternalKey_FindShortestSeparator Bytewise_Compare Bytewise_FindShortestSeparator a b) \<le> 0 \<and>
      InternalKey_Compare Bytewise_Compare
        (InternalKey_FindShortestSeparator Bytewise_Compare Bytewise_FindShortestSeparator a b) b < 0) \<and>
    InternalKey_Compare Bytewise_Compare a
      (InternalKey_FindShortSuccessor Bytewise_Compare Bytewise_FindShortSuccessor a) \<le> 0"
proof (intro conjI impI)
  show "InternalKey_Compare Bytewise_Compare a b = 0 \<longleftrightarrow> a = b"
    using assms ikey.internal.Compare_eq_0 by blast
  show "InternalKey_Compare Bytewise_Compare a
      (InternalKey_FindShortSuccessor Bytewise_Compare Bytewise_FindShortSuccessor a) \<le> 0"
    by (rule ikey.successor_cases)
  assume less: "InternalKey_Compare Bytewise_Compare a b < 0"
  show "InternalKey_Compare Bytewise_Compare a c < 0" if "InternalKey_Compare Bytewise_Compare b c < 0"
    using less that by (rule ikey.InternalKey_Compare_trans)
  show "InternalKey_Compare Bytewise_Compare a
      (InternalKey_FindShortestSeparator Bytewise_Compare Bytewise_FindShortestSeparator a b) \<le> 0"
    "InternalKey_Compare Bytewise_Compare
      (InternalKey_FindShortestSeparator Bytewise_Compare Bytewise_FindShortestSeparator a b) b < 0"
    using ikey.separator_cases [OF less] by simp_all
qed (rule ikey.InternalKey_Compare_less ikey.InternalKey_Compare_gt)+

theorem internal_key_separator_witness:
  "InternalKey_Compare Bytewise_Compare (InternalKey [1, 2] 7 kTypeValue) (InternalKey [1, 2] 3 kTypeValue) < 0 \<and>
   InternalKey_Compare Bytewise_Compare (InternalKey [1, 2] 7 kTypeValue) (InternalKey [9] 9 kTypeValue) < 0"
proof -
  let ?a = "InternalKey [1, 2] 7 kTypeValue" and ?b = "InternalKey [1, 2] 3 kTypeValue"
  let ?c = "InternalKey [9] 9 kTypeValue"
  have "PackSequenceAndType 3 kTypeValue < PackSequenceAndType 7 kTypeValue"
    by (simp add: Pack_less_iff kMaxSequenceNumber_def)
  then have less: "DecodeTrailer ?a > DecodeTrailer ?b"
    unfolding InternalKey_eq DecodeTrailer_append .
  have cmp: "Bytewise_Compare (ExtractUserKey ?b) (ExtractUserKey ?c) < 0"
    by (simp add: Bytewise_Compare_def)
  note ok = ikey_ok_InternalKey [of "[1, 2]" 7] ikey_ok_InternalKey [of "[1, 2]" 3]
    ikey_ok_InternalKey [of "[9]" 9]
  have ab: "InternalKey_Compare Bytewise_Compare ?a ?b < 0"
    using internal_key_separator [OF ok] less by simp
  moreover have "InternalKey_Compare Bytewise_Compare ?b ?c < 0"
    using internal_key_separator [OF ok(2,3,3)] cmp by blast
  ultimately show ?thesis using internal_key_separator [OF ok] by blast
qed

end
