(* ===== verification/Memtable.thy ===== *)
theory Memtable
  imports Skiplist Dbformat
begin

unbundle bit_operations_syntax

text \<open>
  The memtable (\<^verbatim>\<open>App/integration/memtable.cpp\<close>): a skip list of encoded entries, ordered by the
  internal keys they start with.  For any user comparator it implements a versioned map: a
  lookup at a snapshot returns the newest entry that the snapshot may see.
\<close>

subsection \<open>Entries\<close>

text \<open>
  \<^verbatim>\<open>GetLengthPrefixedSlice(const char*)\<close> of \<^verbatim>\<open>memtable.cpp\<close>: the entry is trusted, its length prefix
  takes at most five bytes.
\<close>

definition mem_slice :: "bytes \<Rightarrow> bytes" where
  "mem_slice data =
     (case GetVarint32Ptr data of None \<Rightarrow> [] | Some (len, p) \<Rightarrow> take (unat len) p)"

definition KeyComparator :: "(bytes \<Rightarrow> bytes \<Rightarrow> int) \<Rightarrow> bytes \<Rightarrow> bytes \<Rightarrow> int" where
  "KeyComparator ucmp aptr bptr = InternalKey_Compare ucmp (mem_slice aptr) (mem_slice bptr)"

definition EncodeKey :: "bytes \<Rightarrow> bytes" where
  "EncodeKey target = PutVarint32 [] (of_nat (length target)) @ target"

definition mem_entry :: "SequenceNumber \<Rightarrow> ValueType \<Rightarrow> bytes \<Rightarrow> bytes \<Rightarrow> bytes" where
  "mem_entry s t key value =
     (let internal_key_size = length key + 8
      in EncodeVarint32 (of_nat internal_key_size) @ key @
         EncodeFixed64 (push_bit 8 s OR ucast (ValueType_code t)) @
         EncodeVarint32 (of_nat (length value)) @ value)"

subsection \<open>The table\<close>

type_synonym MemTable = "bytes SkipList"

definition mk_MemTable :: MemTable where
  "mk_MemTable = mk_SkipList []"

definition MemTable_Add ::
  "(bytes \<Rightarrow> bytes \<Rightarrow> int) \<Rightarrow> SequenceNumber \<Rightarrow> ValueType \<Rightarrow> bytes \<Rightarrow> bytes \<Rightarrow> MemTable \<Rightarrow> MemTable option" where
  "MemTable_Add ucmp s t key value table =
     SkipList_Insert (KeyComparator ucmp) (mem_entry s t key value) table"

text \<open>
  The outcome of a lookup: not in this table (\<^verbatim>\<open>false\<close>), a value, or a deletion marker
  (\<^verbatim>\<open>Status::NotFound\<close>).
\<close>

datatype mem_result = Missing | Present bytes | Deleted

text \<open>The part of \<^verbatim>\<open>Get\<close> and \<^verbatim>\<open>SUGet\<close> after the seek; the number is what \<^verbatim>\<open>SUGet\<close> stores in \<^verbatim>\<open>*seq\<close>.\<close>

definition mem_decode ::
  "(bytes \<Rightarrow> bytes \<Rightarrow> int) \<Rightarrow> bytes \<Rightarrow> bytes \<Rightarrow> mem_result \<times> uint64 option" where
  "mem_decode ucmp u entry =
     (case GetVarint32Ptr entry of
        None \<Rightarrow> (Missing, None)
      | Some (key_length, key_ptr) \<Rightarrow>
          if ucmp (take (unat key_length - 8) key_ptr) u = 0
          then (case DecodeFixed64 (drop (unat key_length - 8) key_ptr) of
                  None \<Rightarrow> (Missing, None)
                | Some tag \<Rightarrow>
                    (let seq = drop_bit 8 tag; c = tag AND 0xff in
                     if c = 1 then (Present (mem_slice (drop (unat key_length) key_ptr)), Some seq)
                     else if c = 0 then (Deleted, Some seq)
                     else (Missing, Some seq)))
          else (Missing, None))"

definition MemTable_SUGet ::
  "(bytes \<Rightarrow> bytes \<Rightarrow> int) \<Rightarrow> LookupKey \<Rightarrow> MemTable \<Rightarrow> (mem_result \<times> uint64 option) option" where
  "MemTable_SUGet ucmp key table =
     do {
       x \<leftarrow> SkipIter_Seek (KeyComparator ucmp) table (memtable_key key);
       Some (case x of
               None \<Rightarrow> (Missing, None)
             | Some n \<Rightarrow> mem_decode ucmp (lookup_user_key key) (node_key table n))
     }"

definition MemTable_Get ::
  "(bytes \<Rightarrow> bytes \<Rightarrow> int) \<Rightarrow> LookupKey \<Rightarrow> MemTable \<Rightarrow> mem_result option" where
  "MemTable_Get ucmp key table =
     do {
       x \<leftarrow> SkipIter_Seek (KeyComparator ucmp) table (memtable_key key);
       Some (case x of
               None \<Rightarrow> Missing
             | Some n \<Rightarrow> fst (mem_decode ucmp (lookup_user_key key) (node_key table n)))
     }"

subsection \<open>Iterators\<close>

definition MemIter_Seek :: "(bytes \<Rightarrow> bytes \<Rightarrow> int) \<Rightarrow> MemTable \<Rightarrow> bytes \<Rightarrow> node option option" where
  "MemIter_Seek ucmp table k = SkipIter_Seek (KeyComparator ucmp) table (EncodeKey k)"

definition MemIter_key :: "MemTable \<Rightarrow> node \<Rightarrow> bytes" where
  "MemIter_key table n = mem_slice (node_key table n)"

definition MemIter_value :: "MemTable \<Rightarrow> node \<Rightarrow> bytes" where
  "MemIter_value table n =
     (case GetVarint32Ptr (node_key table n) of
        None \<Rightarrow> []
      | Some (len, p) \<Rightarrow> mem_slice (drop (unat len) p))"

subsection \<open>Encoded entries\<close>

abbreviation mem_small :: "bytes \<Rightarrow> bool" where
  "mem_small k \<equiv> length k + 8 < 2 ^ 32"

lemma mem_entry_eq:
  "mem_entry s t key value = EncodeVarint32 (of_nat (length key + 8)) @ InternalKey key s t @
     EncodeVarint32 (of_nat (length value)) @ value"
  by (simp add: mem_entry_def InternalKey_eq PackSequenceAndType_def Let_def)

lemma mem_slice_Encode:
  assumes "length k < 2 ^ 32"
  shows "mem_slice (EncodeVarint32 (of_nat (length k)) @ k @ rest) = k"
proof -
  have "unat (of_nat (length k) :: uint32) = length k" using assms by (intro unat_of_nat_small) simp
  then show ?thesis by (simp add: mem_slice_def GetVarint32Ptr_Encode)
qed

lemma length_InternalKey: "length (InternalKey u s t) = length u + 8"
  by (simp add: InternalKey_eq)

lemma mem_slice_entry: "mem_small key \<Longrightarrow> mem_slice (mem_entry s t key value) = InternalKey key s t"
  using mem_slice_Encode [of "InternalKey key s t"] by (simp add: mem_entry_eq length_InternalKey)

lemma mem_slice_lookup:
  "mem_small u \<Longrightarrow> mem_slice (memtable_key (mk_LookupKey u s)) = InternalKey u s kTypeValue"
  using mem_slice_Encode [of "InternalKey u s kTypeValue" "[]"]
  by (simp add: memtable_key_def mk_LookupKey_def Let_def InternalKey_eq kValueTypeForSeek_def)

lemma mem_decode_entry:
  assumes small: "mem_small key" "length value < 2 ^ 32" and s: "s \<le> kMaxSequenceNumber"
  shows "mem_decode ucmp u (mem_entry s t key value) =
    (if ucmp key u = 0
     then (case t of kTypeValue \<Rightarrow> Present value | kTypeDeletion \<Rightarrow> Deleted, Some s) else (Missing, None))"
proof -
  have len: "unat (of_nat (length key + 8) :: uint32) = length key + 8"
    using small(1) by (intro unat_of_nat_small) simp
  have "mem_slice (EncodeVarint32 (of_nat (length value)) @ value) = value"
    using mem_slice_Encode [of "value" "[]"] small(2) by simp
  moreover have "DecodeFixed64 (EncodeFixed64 (PackSequenceAndType s t) @
      EncodeVarint32 (of_nat (length value)) @ value) = Some (PackSequenceAndType s t)"
    by (rule DecodeFixed64_Encode)
  moreover have "drop_bit 8 (PackSequenceAndType s t) = s" by (rule PackSequenceAndType_inverse(1) [OF s])
  moreover have "PackSequenceAndType s t AND 0xff = ucast (ValueType_code t)"
    unfolding PackSequenceAndType_def and_255_eq
    by (cases t) (auto intro!: bit_word_eqI simp: bit_simps bit_1_iff)
  ultimately show ?thesis
    using len by (cases t) (simp_all add: mem_decode_def mem_entry_eq InternalKey_eq GetVarint32Ptr_Encode Let_def)
qed

subsection \<open>The memtable as a versioned map\<close>

text \<open>A sequence of additions: sequence number, type, user key and value of each.\<close>

type_synonym mem_add = "SequenceNumber \<times> ValueType \<times> bytes \<times> bytes"

definition mem_build :: "(bytes \<Rightarrow> bytes \<Rightarrow> int) \<Rightarrow> mem_add list \<Rightarrow> MemTable option" where
  "mem_build ucmp es =
     foldl (\<lambda>m (s, t, k, v). m \<bind> MemTable_Add ucmp s t k v) (Some mk_MemTable) es"

text \<open>
  Sizes and sequence numbers are in range, and no two additions have the same user key and
  sequence number.
\<close>

definition mem_adds_ok :: "mem_add list \<Rightarrow> bool" where
  "mem_adds_ok es \<longleftrightarrow>
     (\<forall>(s, t, k, v)\<in>set es. mem_small k \<and> length v < 2 ^ 32 \<and> s \<le> kMaxSequenceNumber) \<and>
     distinct (map (\<lambda>(s, t, k, v). (k, s)) es)"

abbreviation entry_of :: "mem_add \<Rightarrow> bytes" where
  "entry_of e \<equiv> (case e of (s, t, k, v) \<Rightarrow> mem_entry s t k v)"

lemma set_takeWhile_dropWhile: "set (takeWhile P xs) \<union> set (dropWhile P xs) = set xs"
  by (metis set_append takeWhile_dropWhile_id)

lemma ParseInternalKey_inj:
  assumes "InternalKey u s t = InternalKey u' s' t'" "s \<le> kMaxSequenceNumber" "s' \<le> kMaxSequenceNumber"
  shows "u = u' \<and> s = s' \<and> t = t'"
proof -
  have "Some \<lparr>user_key = u, sequence = s, value_type = t\<rparr> = Some \<lparr>user_key = u', sequence = s', value_type = t'\<rparr>"
    using ParseInternalKey_InternalKey assms by metis
  then show ?thesis by simp
qed

text \<open>The abstract versioned map: the addition with the largest number up to \<open>s\<close> wins.\<close>

definition visible :: "bytes \<Rightarrow> SequenceNumber \<Rightarrow> mem_add \<Rightarrow> bool" where
  "visible u s e \<longleftrightarrow> fst (snd (snd e)) = u \<and> fst e \<le> s"

fun newest :: "mem_add list \<Rightarrow> bytes \<Rightarrow> SequenceNumber \<Rightarrow> mem_add option" where
  "newest [] u s = None"
| "newest (e # es) u s =
     (if visible u s e
      then (case newest es u s of
              None \<Rightarrow> Some e
            | Some e' \<Rightarrow> if fst e' < fst e then Some e else Some e')
      else newest es u s)"

definition mem_spec :: "mem_add list \<Rightarrow> bytes \<Rightarrow> SequenceNumber \<Rightarrow> mem_result \<times> uint64 option" where
  "mem_spec es u s =
     (case newest es u s of
        None \<Rightarrow> (Missing, None)
      | Some (s', kTypeValue, k, v) \<Rightarrow> (Present v, Some s')
      | Some (s', kTypeDeletion, k, v) \<Rightarrow> (Deleted, Some s'))"

lemma newest_None: "newest es u s = None \<longleftrightarrow> (\<forall>e\<in>set es. \<not> visible u s e)"
  by (induction es) (auto split: option.splits if_splits)

lemma newest_Some:
  "newest es u s = Some e \<Longrightarrow>
   e \<in> set es \<and> visible u s e \<and> (\<forall>e'\<in>set es. visible u s e' \<longrightarrow> fst e' \<le> fst e)"
proof (induction es arbitrary: e)
  case (Cons a es)
  show ?case
  proof (cases "newest es u s")
    case None
    then have "\<forall>e'\<in>set es. \<not> visible u s e'" by (simp add: newest_None)
    with None Cons.prems show ?thesis by (auto split: if_splits)
  next
    case (Some e')
    with Cons.IH [OF Some] Cons.prems show ?thesis by (auto split: if_splits)
  qed
qed simp

sublocale internal_key_order \<subseteq> mem: weak_comparator "\<lambda>b. ikey_ok (mem_slice b)" "KeyComparator ucmp"
  by unfold_locales
    (simp_all only: KeyComparator_def InternalKey_Compare_gt,
      auto intro: InternalKey_Compare_trans InternalKey_Compare_less_eq)

context internal_key_order
begin

lemma InternalKey_less_iff:
  assumes "s \<le> kMaxSequenceNumber" "s' \<le> kMaxSequenceNumber"
  shows "InternalKey_Compare ucmp (InternalKey u s t) (InternalKey u' s' t') < 0 \<longleftrightarrow>
    ucmp u u' < 0 \<or> u = u' \<and> (s' < s \<or> s = s' \<and> ValueType_code t' < ValueType_code t)"
  unfolding InternalKey_Compare_less InternalKey_eq ExtractUserKey_append DecodeTrailer_append
    Pack_less_iff [OF assms(2,1)] by blast

lemma entry_less_lookup:
  assumes "mem_small k" "mem_small u" "s \<le> kMaxSequenceNumber" "s' \<le> kMaxSequenceNumber"
  shows "KeyComparator ucmp (mem_entry s t k v) (memtable_key (mk_LookupKey u s')) < 0 \<longleftrightarrow>
    ucmp k u < 0 \<or> k = u \<and> s' < s"
  unfolding KeyComparator_def mem_slice_entry [OF assms(1)] mem_slice_lookup [OF assms(2)]
    InternalKey_less_iff [OF assms(3,4)]
  by (cases t) auto

lemma mem_build_spec:
  assumes "mem_adds_ok es"
  shows "\<exists>m ns. mem_build ucmp es = Some m \<and> mem.skip_list m ns \<and>
    set (map (node_key m) ns) = entry_of ` set es"
  using assms
proof (induction es rule: rev_induct)
  case Nil
  then show ?case using mem.skip_list_init by (auto simp: mem_build_def mk_MemTable_def)
next
  case (snoc e es)
  obtain s t k v where e: "e = (s, t, k, v)" by (cases e)
  have okes: "mem_adds_ok es" using snoc.prems by (simp add: mem_adds_ok_def)
  from snoc.IH [OF this] obtain m ns where
    m: "mem_build ucmp es = Some m" "mem.skip_list m ns" "set (map (node_key m) ns) = entry_of ` set es"
    by blast
  have small: "mem_small k" "s \<le> kMaxSequenceNumber" using snoc.prems by (auto simp: mem_adds_ok_def e)
  then have okk: "ikey_ok (mem_slice (mem_entry s t k v))" by (simp add: mem_slice_entry)
  have "KeyComparator ucmp (mem_entry s t k v) (node_key m n) \<noteq> 0" if "n \<in> set ns" for n
  proof
    assume eq: "KeyComparator ucmp (mem_entry s t k v) (node_key m n) = 0"
    have "node_key m n \<in> entry_of ` set es" using that m(3) by (metis imageI set_map)
    then obtain e' where e': "e' \<in> set es" "node_key m n = entry_of e'" by blast
    obtain s' t' k' v' where "e' = (s', t', k', v')" by (cases e')
    with e' have n: "(s', t', k', v') \<in> set es" "node_key m n = mem_entry s' t' k' v'" by simp_all
    then have small': "mem_small k'" "s' \<le> kMaxSequenceNumber" using okes by (auto simp: mem_adds_ok_def)
    have "InternalKey k s t = InternalKey k' s' t'"
      using eq n(2) small small' internal.Compare_eq_0 by (simp add: KeyComparator_def mem_slice_entry)
    then have "(k', s') = (k, s)" using ParseInternalKey_inj small small' by blast
    moreover have "(k', s') \<in> set (map (\<lambda>(s, t, k, v). (k, s)) es)"
      using n(1) by (auto intro: rev_image_eqI)
    ultimately show False using snoc.prems by (simp add: mem_adds_ok_def e)
  qed
  then obtain m' ns' where ins: "SkipList_Insert (KeyComparator ucmp) (mem_entry s t k v) m = Some m'"
    "mem.skip_list m' ns'" "map (node_key m') ns' =
       takeWhile (\<lambda>x. KeyComparator ucmp x (mem_entry s t k v) < 0) (map (node_key m) ns) @ mem_entry s t k v #
       dropWhile (\<lambda>x. KeyComparator ucmp x (mem_entry s t k v) < 0) (map (node_key m) ns)"
    using mem.Insert_spec [OF m(2) okk] by blast
  have "set (map (node_key m') ns') = insert (mem_entry s t k v) (set (map (node_key m) ns))"
    unfolding ins(3) set_append list.set Un_insert_right set_takeWhile_dropWhile by (rule refl)
  then have "set (map (node_key m') ns') = entry_of ` set (es @ [e])" unfolding m(3) by (simp add: e)
  moreover have "mem_build ucmp (es @ [e]) = Some m'"
    using m(1) ins(1) by (simp add: mem_build_def e MemTable_Add_def)
  ultimately show ?case using ins(2) by blast
qed

text \<open>The seek lands on the newest visible entry of the user key, if there is one.\<close>

lemma Seek_newest:
  assumes es: "mem_adds_ok es" and sl: "mem.skip_list m ns"
    and keys: "set (map (node_key m) ns) = entry_of ` set es"
    and u: "mem_small u" "s \<le> kMaxSequenceNumber"
    and e: "(se, te, u, ve) \<in> set es" "se \<le> s"
    and newest: "\<forall>e'\<in>set es. visible u s e' \<longrightarrow> fst e' \<le> se"
  shows "\<exists>n. SkipIter_Seek (KeyComparator ucmp) m (memtable_key (mk_LookupKey u s)) = Some (Some n) \<and>
    node_key m n = mem_entry se te u ve"
proof -
  let ?t = "memtable_key (mk_LookupKey u s)"
  let ?D = "dropWhile (mem.key_less m ?t) ns"
  have okt: "ikey_ok (mem_slice ?t)" using u by (simp add: mem_slice_lookup)
  have add: "mem_small k' \<and> s' \<le> kMaxSequenceNumber" if "(s', t', k', v') \<in> set es" for s' t' k' v'
    using es that by (auto simp: mem_adds_ok_def)
  have "mem_entry se te u ve \<in> set (map (node_key m) ns)"
    unfolding keys using rev_image_eqI [OF e(1), of "mem_entry se te u ve" entry_of] by simp
  then obtain n where n: "n \<in> set ns" "node_key m n = mem_entry se te u ve" by auto
  have "\<not> mem.key_less m ?t n"
    using entry_less_lookup [of u u se s te ve] u add [OF e(1)] e(2) user.Compare_refl [of u]
    by (simp add: mem.key_less_def n(2))
  then have nD: "n \<in> set ?D"
    using n(1) set_takeWhileD [of n] set_takeWhile_dropWhile [of "mem.key_less m ?t" ns] by blast
  then obtain w ws where D: "?D = w # ws" by (cases ?D) auto
  have "w = n"
  proof (rule ccontr)
    assume "w \<noteq> n"
    then have "n \<in> set ws" using nD D by simp
    moreover have "sorted_wrt (\<lambda>a b. KeyComparator ucmp (node_key m a) (node_key m b) < 0) (w # ws)"
      using sl D by (metis mem.skip_list_def sorted_wrt_append takeWhile_dropWhile_id)
    ultimately have less: "KeyComparator ucmp (node_key m w) (mem_entry se te u ve) < 0"
      using n(2) by auto
    have "w \<in> set ns" using D set_dropWhileD [of w] by (metis list.set_intros(1))
    then have "node_key m w \<in> entry_of ` set es" using keys by (metis imageI set_map)
    then obtain s' t' k' v' where w: "(s', t', k', v') \<in> set es" "node_key m w = mem_entry s' t' k' v'" by auto
    have "\<not> mem.key_less m ?t w" using D by (metis hd_dropWhile list.distinct(1) list.sel(1))
    then have ge: "\<not> (ucmp k' u < 0 \<or> k' = u \<and> s < s')"
      using entry_less_lookup [of k' u s' s t' v'] add [OF w(1)] u by (simp add: mem.key_less_def w(2))
    have "ucmp k' u < 0 \<or> k' = u \<and> (se < s' \<or> s' = se \<and> ValueType_code te < ValueType_code t')"
      using less add [OF w(1)] add [OF e(1)] InternalKey_less_iff [of s' se k' t' u te]
      by (simp add: KeyComparator_def w(2) mem_slice_entry)
    with ge have k': "k' = u" "s' \<le> s" "se < s' \<or> s' = se \<and> ValueType_code te < ValueType_code t'" by auto
    moreover have "s' \<le> se" using newest w(1) k'(1,2) by (force simp: visible_def)
    ultimately have "s' = se" "te \<noteq> t'" by auto
    moreover have "inj_on (\<lambda>(s, t, k, v). (k, s)) (set es)"
      using es by (simp add: mem_adds_ok_def distinct_map)
    ultimately show False using inj_onD [OF _ _ w(1) e(1)] k'(1) by fastforce
  qed
  then show ?thesis using mem.Seek_spec [OF sl okt] D n(2) by simp
qed

lemma Seek_missing:
  assumes es: "mem_adds_ok es" and sl: "mem.skip_list m ns"
    and keys: "set (map (node_key m) ns) = entry_of ` set es"
    and u: "mem_small u" "s \<le> kMaxSequenceNumber"
    and none: "\<forall>e\<in>set es. \<not> visible u s e"
    and seek: "SkipIter_Seek (KeyComparator ucmp) m (memtable_key (mk_LookupKey u s)) = Some (Some n)"
  shows "\<exists>s' t k v. node_key m n = mem_entry s' t k v \<and> (s', t, k, v) \<in> set es \<and> k \<noteq> u"
proof -
  let ?t = "memtable_key (mk_LookupKey u s)"
  have okt: "ikey_ok (mem_slice ?t)" using u by (simp add: mem_slice_lookup)
  obtain ws where D: "dropWhile (mem.key_less m ?t) ns = n # ws"
    using mem.Seek_spec [OF sl okt] seek by (cases "dropWhile (mem.key_less m ?t) ns") auto
  then have "n \<in> set ns" using set_dropWhileD [of n] by (metis list.set_intros(1))
  then have "node_key m n \<in> entry_of ` set es" using keys by (metis imageI set_map)
  then obtain s' t k v where n: "(s', t, k, v) \<in> set es" "node_key m n = mem_entry s' t k v" by auto
  have "mem_small k" "s' \<le> kMaxSequenceNumber" using es n(1) by (auto simp: mem_adds_ok_def)
  moreover have "\<not> mem.key_less m ?t n" using D by (metis hd_dropWhile list.distinct(1) list.sel(1))
  ultimately have "\<not> (k = u \<and> s < s')"
    using entry_less_lookup [of k u s' s t v] u by (simp add: mem.key_less_def n(2))
  moreover have "\<not> (k = u \<and> s' \<le> s)" using none n(1) by (force simp: visible_def)
  ultimately show ?thesis using n by auto
qed

lemma SUGet_spec:
  assumes es: "mem_adds_ok es" and u: "mem_small u" "s \<le> kMaxSequenceNumber"
  shows "\<exists>m. mem_build ucmp es = Some m \<and>
    MemTable_SUGet ucmp (mk_LookupKey u s) m = Some (mem_spec es u s)"
proof -
  from mem_build_spec [OF es] obtain m ns where
    m: "mem_build ucmp es = Some m" "mem.skip_list m ns" "set (map (node_key m) ns) = entry_of ` set es" by blast
  have add: "mem_small k \<and> length v < 2 ^ 32 \<and> s' \<le> kMaxSequenceNumber" if "(s', t, k, v) \<in> set es" for s' t k v
    using es that by (auto simp: mem_adds_ok_def)
  have "MemTable_SUGet ucmp (mk_LookupKey u s) m = Some (mem_spec es u s)"
  proof (cases "newest es u s")
    case None
    then have none: "\<forall>e\<in>set es. \<not> visible u s e" by (simp add: newest_None)
    obtain x where x: "SkipIter_Seek (KeyComparator ucmp) m (memtable_key (mk_LookupKey u s)) = Some x"
      using mem.Seek_spec [OF m(2)] u by (simp add: mem_slice_lookup)
    show ?thesis
    proof (cases x)
      case (Some n)
      then obtain s' t k v where n: "node_key m n = mem_entry s' t k v" "(s', t, k, v) \<in> set es" "k \<noteq> u"
        using Seek_missing [OF es m(2,3) u none] x by blast
      then have "mem_decode ucmp u (node_key m n) = (Missing, None)"
        using mem_decode_entry [of k v s' ucmp u t] add [OF n(2)] user.Compare_eq_0 [of k u] by simp
      then show ?thesis using x Some \<open>newest es u s = None\<close>
        by (simp add: MemTable_SUGet_def lookup_user_key_LookupKey mem_spec_def)
    qed (use x \<open>newest es u s = None\<close> in \<open>simp add: MemTable_SUGet_def mem_spec_def\<close>)
  next
    case (Some e)
    obtain se te ke ve where e: "e = (se, te, ke, ve)" by (cases e)
    from newest_Some [OF Some] have ev: "(se, te, u, ve) \<in> set es" "ke = u" "se \<le> s"
      "\<forall>e'\<in>set es. visible u s e' \<longrightarrow> fst e' \<le> se" by (auto simp: e visible_def)
    from Seek_newest [OF es m(2,3) u ev(1,3,4)] obtain n where
      n: "SkipIter_Seek (KeyComparator ucmp) m (memtable_key (mk_LookupKey u s)) = Some (Some n)"
      "node_key m n = mem_entry se te u ve" by blast
    then show ?thesis
      using mem_decode_entry [of u ve se ucmp u te] add [OF ev(1)] user.Compare_refl [of u] Some e
      by (cases te) (simp_all add: MemTable_SUGet_def lookup_user_key_LookupKey mem_spec_def)
  qed
  with m(1) show ?thesis by blast
qed

lemma Get_SUGet: "MemTable_Get ucmp key m = map_option fst (MemTable_SUGet ucmp key m)"
  by (auto simp: MemTable_Get_def MemTable_SUGet_def split: Option.bind_splits option.splits)

end

subsection \<open>Properties\<close>

text \<open>
  C8: the memtable refines the versioned map: after any sequence of additions with distinct user key
  and sequence number pairs, \<^verbatim>\<open>SUGet\<close> and \<^verbatim>\<open>Get\<close> at a snapshot return the value, or the deletion, with
  the largest sequence number that the snapshot may see, whatever heights the skip list drew.
\<close>

theorem memtable_refines_versions:
  assumes "mem_adds_ok es" and "mem_small u" and "s \<le> kMaxSequenceNumber"
  shows "\<exists>m. mem_build Bytewise_Compare es = Some m \<and>
    MemTable_SUGet Bytewise_Compare (mk_LookupKey u s) m = Some (mem_spec es u s) \<and>
    MemTable_Get Bytewise_Compare (mk_LookupKey u s) m = Some (fst (mem_spec es u s))"
proof -
  from ikey.SUGet_spec [OF assms] obtain m where "mem_build Bytewise_Compare es = Some m"
    "MemTable_SUGet Bytewise_Compare (mk_LookupKey u s) m = Some (mem_spec es u s)" by blast
  then show ?thesis unfolding ikey.Get_SUGet by (intro exI [of _ m]) simp
qed

theorem memtable_refines_versions_witness:
  "\<exists>m. mem_build Bytewise_Compare [(1, kTypeValue, [7], [1]), (2, kTypeValue, [9], [2]), (3, kTypeDeletion, [7], [])] =
     Some m \<and> MemTable_Get Bytewise_Compare (mk_LookupKey [7] 2) m = Some (Present [1]) \<and>
     MemTable_Get Bytewise_Compare (mk_LookupKey [7] 3) m = Some Deleted"
  using memtable_refines_versions
      [of "[(1, kTypeValue, [7], [1]), (2, kTypeValue, [9], [2]), (3, kTypeDeletion, [7], [])]" "[7]" 2]
    memtable_refines_versions
      [of "[(1, kTypeValue, [7], [1]), (2, kTypeValue, [9], [2]), (3, kTypeDeletion, [7], [])]" "[7]" 3]
  by (auto simp: mem_adds_ok_def mem_spec_def visible_def kMaxSequenceNumber_def word_le_def word_less_def)

end
