(* ===== verification/Write_Batch.thy ===== *)
theory Write_Batch
  imports Status Memtable
begin

text \<open>
  Write batches (\<^verbatim>\<open>App/integration/write_batch.cpp\<close>): a byte string with a sequence number, a count and
  the encoded updates.  Iterating over a batch replays the updates it was built from, and
  inserting a batch numbers them consecutively in the memtable.
\<close>

subsection \<open>The representation\<close>

type_synonym WriteBatch = bytes

definition kHeader :: nat where
  "kHeader = 12"

definition WriteBatch_Clear :: WriteBatch where
  "WriteBatch_Clear = replicate kHeader 0"

text \<open>
  A batch holds at least its header, so the reads below are in bounds.  \<^verbatim>\<open>Count\<close> and \<^verbatim>\<open>SetCount\<close> convert
  between \<^verbatim>\<open>int\<close> and the 32-bit field; the bits are the same as long as a
  batch has fewer than \<open>2\<^sup>3\<^sup>1\<close> updates; beyond, where the \<^verbatim>\<open>int\<close> overflows, the model wraps around.
\<close>

definition Batch_Count :: "WriteBatch \<Rightarrow> uint32" where
  "Batch_Count rep = the (DecodeFixed32 (drop 8 rep))"

definition Batch_SetCount :: "WriteBatch \<Rightarrow> uint32 \<Rightarrow> WriteBatch" where
  "Batch_SetCount rep n = take 8 rep @ EncodeFixed32 n @ drop 12 rep"

definition Batch_Sequence :: "WriteBatch \<Rightarrow> SequenceNumber" where
  "Batch_Sequence rep = the (DecodeFixed64 rep)"

definition Batch_SetSequence :: "WriteBatch \<Rightarrow> SequenceNumber \<Rightarrow> WriteBatch" where
  "Batch_SetSequence rep seq = EncodeFixed64 seq @ drop 8 rep"

definition Batch_Put :: "bytes \<Rightarrow> bytes \<Rightarrow> WriteBatch \<Rightarrow> WriteBatch" where
  "Batch_Put key value rep =
     (let rep = Batch_SetCount rep (Batch_Count rep + 1);
          rep = rep @ [ValueType_code kTypeValue];
          rep = PutLengthPrefixedSlice rep key
      in PutLengthPrefixedSlice rep value)"

definition Batch_Delete :: "bytes \<Rightarrow> WriteBatch \<Rightarrow> WriteBatch" where
  "Batch_Delete key rep =
     (let rep = Batch_SetCount rep (Batch_Count rep + 1);
          rep = rep @ [ValueType_code kTypeDeletion]
      in PutLengthPrefixedSlice rep key)"

text \<open>The assertions of \<^verbatim>\<open>SetContents\<close> and \<^verbatim>\<open>Append\<close> are the \<open>None\<close> results.\<close>

definition Batch_SetContents :: "bytes \<Rightarrow> WriteBatch option" where
  "Batch_SetContents contents = (if length contents \<ge> kHeader then Some contents else None)"

definition Batch_Append :: "WriteBatch \<Rightarrow> WriteBatch \<Rightarrow> WriteBatch option" where
  "Batch_Append dst src =
     (let dst = Batch_SetCount dst (Batch_Count dst + Batch_Count src)
      in if length src \<ge> kHeader then Some (dst @ drop kHeader src) else None)"

subsection \<open>Iteration\<close>

text \<open>The callbacks of \<^verbatim>\<open>WriteBatch::Handler\<close>, acting on a state of their own.\<close>

record 's Handler =
  handler_Put :: "bytes \<Rightarrow> bytes \<Rightarrow> 's \<Rightarrow> 's"
  handler_Delete :: "bytes \<Rightarrow> 's \<Rightarrow> 's"

function Iterate_loop :: "'s Handler \<Rightarrow> bytes \<Rightarrow> uint32 \<Rightarrow> 's \<Rightarrow> (Status + uint32) \<times> 's" where
  "Iterate_loop handler [] found st = (Inr found, st)"
| "Iterate_loop handler (tag # input) found st =
     (let found = found + 1 in
      if tag = ValueType_code kTypeValue then
        (case GetLengthPrefixedSlice input of
           None \<Rightarrow> (Inl (Corruption (str ''bad WriteBatch Put'') []), st)
         | Some (key, input) \<Rightarrow>
             (case GetLengthPrefixedSlice input of
                None \<Rightarrow> (Inl (Corruption (str ''bad WriteBatch Put'') []), st)
              | Some (value, input) \<Rightarrow> Iterate_loop handler input found (handler_Put handler key value st)))
      else if tag = ValueType_code kTypeDeletion then
        (case GetLengthPrefixedSlice input of
           None \<Rightarrow> (Inl (Corruption (str ''bad WriteBatch Delete'') []), st)
         | Some (key, input) \<Rightarrow> Iterate_loop handler input found (handler_Delete handler key st))
      else (Inl (Corruption (str ''unknown WriteBatch tag'') []), st))"
  by pat_completeness auto
termination
  by (relation "measure (\<lambda>(h, input, found, st). length input)")
    (auto dest!: GetLengthPrefixedSlice_length)

definition Iterate :: "'s Handler \<Rightarrow> WriteBatch \<Rightarrow> 's \<Rightarrow> Status \<times> 's" where
  "Iterate handler rep st =
     (if length rep < kHeader then (Corruption (str ''malformed WriteBatch (too small)'') [], st)
      else (case Iterate_loop handler (drop kHeader rep) 0 st of
              (Inl e, st) \<Rightarrow> (e, st)
            | (Inr found, st) \<Rightarrow>
                (if found \<noteq> Batch_Count rep then Corruption (str ''WriteBatch has wrong count'') []
                 else Status_OK, st)))"

text \<open>
  \<^verbatim>\<open>Iterate1\<close> stores the last pair it reads in its arguments and knows no deletions; a key is
  stored even when its value cannot be read.
\<close>

function Iterate1_loop :: "bytes \<Rightarrow> uint32 \<Rightarrow> bytes \<Rightarrow> bytes \<Rightarrow> (Status + uint32) \<times> bytes \<times> bytes" where
  "Iterate1_loop [] found key value = (Inr found, key, value)"
| "Iterate1_loop (tag # input) found key value =
     (let found = found + 1 in
      if tag = ValueType_code kTypeValue then
        (case GetLengthPrefixedSlice input of
           None \<Rightarrow> (Inl (Corruption (str ''bad WriteBatch Put'') []), key, value)
         | Some (key, input) \<Rightarrow>
             (case GetLengthPrefixedSlice input of
                None \<Rightarrow> (Inl (Corruption (str ''bad WriteBatch Put'') []), key, value)
              | Some (value, input) \<Rightarrow> Iterate1_loop input found key value))
      else (Inl (Corruption (str ''unknown WriteBatch tag'') []), key, value))"
  by pat_completeness auto
termination
  by (relation "measure (\<lambda>(input, found, k, v). length input)")
    (auto dest!: GetLengthPrefixedSlice_length)

definition Iterate1 :: "WriteBatch \<Rightarrow> bytes \<Rightarrow> bytes \<Rightarrow> Status \<times> bytes \<times> bytes" where
  "Iterate1 rep key value =
     (if length rep < kHeader then (Corruption (str ''malformed WriteBatch (too small)'') [], key, value)
      else (case Iterate1_loop (drop kHeader rep) 0 key value of
              (Inl e, kv) \<Rightarrow> (e, kv)
            | (Inr found, kv) \<Rightarrow>
                (if found \<noteq> Batch_Count rep then Corruption (str ''WriteBatch has wrong count'') []
                 else Status_OK, kv)))"

subsection \<open>Insertion into a memtable\<close>

text \<open>
  \<^verbatim>\<open>MemTableInserter\<close>: the next sequence number and the table; \<open>None\<close> would be an insertion that does
  not return.
\<close>

definition MemTableInserter ::
  "(bytes \<Rightarrow> bytes \<Rightarrow> int) \<Rightarrow> (SequenceNumber \<times> MemTable option) Handler" where
  "MemTableInserter ucmp =
     \<lparr>handler_Put = (\<lambda>key value (sequence, mem).
        (sequence + 1, mem \<bind> MemTable_Add ucmp sequence kTypeValue key value)),
      handler_Delete = (\<lambda>key (sequence, mem).
        (sequence + 1, mem \<bind> MemTable_Add ucmp sequence kTypeDeletion key []))\<rparr>"

definition InsertInto ::
  "(bytes \<Rightarrow> bytes \<Rightarrow> int) \<Rightarrow> WriteBatch \<Rightarrow> MemTable option \<Rightarrow> Status \<times> SequenceNumber \<times> MemTable option" where
  "InsertInto ucmp b memtable = Iterate (MemTableInserter ucmp) b (Batch_Sequence b, memtable)"

subsection \<open>Batches as lists of updates\<close>

datatype batch_op = PutOp bytes bytes | DeleteOp bytes

primrec op_apply :: "batch_op \<Rightarrow> WriteBatch \<Rightarrow> WriteBatch" where
  "op_apply (PutOp k v) b = Batch_Put k v b"
| "op_apply (DeleteOp k) b = Batch_Delete k b"

primrec op_handle :: "'s Handler \<Rightarrow> batch_op \<Rightarrow> 's \<Rightarrow> 's" where
  "op_handle h (PutOp k v) st = handler_Put h k v st"
| "op_handle h (DeleteOp k) st = handler_Delete h k st"

primrec op_bytes :: "batch_op \<Rightarrow> bytes" where
  "op_bytes (PutOp k v) = ValueType_code kTypeValue # PutLengthPrefixedSlice [] k @ PutLengthPrefixedSlice [] v"
| "op_bytes (DeleteOp k) = ValueType_code kTypeDeletion # PutLengthPrefixedSlice [] k"

primrec op_small :: "batch_op \<Rightarrow> bool" where
  "op_small (PutOp k v) \<longleftrightarrow> mem_small k \<and> length v < 2 ^ 32"
| "op_small (DeleteOp k) \<longleftrightarrow> mem_small k"

text \<open>The batch built by a sequence of calls of \<^verbatim>\<open>Put\<close> and \<^verbatim>\<open>Delete\<close>, with its sequence number set.\<close>

definition batch_of :: "SequenceNumber \<Rightarrow> batch_op list \<Rightarrow> WriteBatch" where
  "batch_of s ops = Batch_SetSequence (fold op_apply ops WriteBatch_Clear) s"

definition batch_rep :: "SequenceNumber \<Rightarrow> batch_op list \<Rightarrow> bytes" where
  "batch_rep s ops = EncodeFixed64 s @ EncodeFixed32 (of_nat (length ops)) @ concat (map op_bytes ops)"

lemma Batch_Count_rep [simp]: "Batch_Count (batch_rep s ops) = of_nat (length ops)"
  by (simp add: Batch_Count_def batch_rep_def DecodeFixed32_Encode)

lemma Batch_Sequence_rep [simp]: "Batch_Sequence (batch_rep s ops) = s"
  by (simp add: Batch_Sequence_def batch_rep_def DecodeFixed64_Encode)

lemma Batch_SetCount_rep:
  "Batch_SetCount (batch_rep s ops) n = EncodeFixed64 s @ EncodeFixed32 n @ concat (map op_bytes ops)"
  by (simp add: Batch_SetCount_def batch_rep_def)

lemma drop_batch_rep [simp]: "drop kHeader (batch_rep s ops) = concat (map op_bytes ops)"
  by (simp_all add: batch_rep_def kHeader_def)

lemma length_batch_rep [simp]: "kHeader \<le> length (batch_rep s ops)" "\<not> length (batch_rep s ops) < kHeader"
  by (simp_all add: batch_rep_def kHeader_def)

lemma op_apply_rep: "op_apply op (batch_rep s ops) = batch_rep s (ops @ [op])"
proof (cases op)
  case (PutOp k v)
  show ?thesis
    unfolding PutOp op_apply.simps Batch_Put_def Let_def Batch_Count_rep Batch_SetCount_rep
      PutLengthPrefixedSlice_append [of "_ @ _"]
    by (subst PutLengthPrefixedSlice_append) (simp add: batch_rep_def add.commute)
next
  case (DeleteOp k)
  show ?thesis
    unfolding DeleteOp op_apply.simps Batch_Delete_def Let_def Batch_Count_rep Batch_SetCount_rep
      PutLengthPrefixedSlice_append [of "_ @ _"]
    by (simp add: batch_rep_def add.commute)
qed

lemma fold_op_apply_rep: "fold op_apply xs (batch_rep s ops) = batch_rep s (ops @ xs)"
  by (induction xs arbitrary: ops) (simp_all add: op_apply_rep)

lemma Clear_rep: "WriteBatch_Clear = batch_rep 0 []"
  by (simp add: WriteBatch_Clear_def batch_rep_def kHeader_def EncodeFixed64_def EncodeFixed32_def
      numeral_eq_Suc)

lemma batch_of_eq [simp]: "batch_of s ops = batch_rep s ops"
  unfolding batch_of_def Clear_rep fold_op_apply_rep
  by (simp add: Batch_SetSequence_def batch_rep_def)

lemma Batch_Append_rep: "Batch_Append (batch_rep s xs) (batch_rep s' ys) = Some (batch_rep s (xs @ ys))"
  by (simp add: Batch_Append_def Batch_SetCount_rep) (simp add: batch_rep_def)

lemma Iterate_loop_ops:
  "\<forall>op\<in>set ops. op_small op \<Longrightarrow>
   Iterate_loop h (concat (map op_bytes ops)) found st = (Inr (found + of_nat (length ops)), fold (op_handle h) ops st)"
proof (induction ops arbitrary: found st)
  case (Cons op ops)
  then show ?case
    by (cases op) (simp_all add: GetLengthPrefixedSlice_Put Let_def add_ac)
qed simp

lemma Iterate_rep:
  assumes "\<forall>op\<in>set ops. op_small op"
  shows "Iterate h (batch_rep s ops) st = (Status_OK, fold (op_handle h) ops st)"
  using Iterate_loop_ops [OF assms, of h 0 st]
  by (simp add: Iterate_def)

text \<open>The additions a batch makes: consecutive numbers from its sequence number on.\<close>

primrec op_add :: "SequenceNumber \<Rightarrow> batch_op \<Rightarrow> mem_add" where
  "op_add s (PutOp k v) = (s, kTypeValue, k, v)"
| "op_add s (DeleteOp k) = (s, kTypeDeletion, k, [])"

primrec batch_adds :: "SequenceNumber \<Rightarrow> batch_op list \<Rightarrow> mem_add list" where
  "batch_adds s [] = []"
| "batch_adds s (op # ops) = op_add s op # batch_adds (s + 1) ops"

lemma fold_inserter:
  "fold (op_handle (MemTableInserter ucmp)) ops (s, m) =
     (s + of_nat (length ops), foldl (\<lambda>m (s, t, k, v). m \<bind> MemTable_Add ucmp s t k v) m (batch_adds s ops))"
proof (induction ops arbitrary: s m)
  case (Cons op ops)
  then show ?case by (cases op) (simp_all add: MemTableInserter_def add_ac)
qed simp

lemma mem_build_append:
  "mem_build ucmp (es @ es') = foldl (\<lambda>m (s, t, k, v). m \<bind> MemTable_Add ucmp s t k v) (mem_build ucmp es) es'"
  by (simp add: mem_build_def)

lemma InsertInto_rep:
  assumes "\<forall>op\<in>set ops. op_small op"
  shows "InsertInto ucmp (batch_rep s ops) (mem_build ucmp es) =
    (Status_OK, s + of_nat (length ops), mem_build ucmp (es @ batch_adds s ops))"
  by (simp add: InsertInto_def Iterate_rep [OF assms] fold_inserter mem_build_append)

lemma op_add_simps: "fst (op_add s op) = s"
  by (cases op) simp_all

lemma batch_adds_bounds:
  assumes "unat s + length ops \<le> unat kMaxSequenceNumber" and "\<forall>op\<in>set ops. op_small op"
    and "(s', t, k, v) \<in> set (batch_adds s ops)"
  shows "s \<le> s' \<and> s' \<le> kMaxSequenceNumber \<and> mem_small k \<and> length v < 2 ^ 32"
  using assms
proof (induction ops arbitrary: s)
  case (Cons op ops)
  have s1: "unat (s + 1) = unat s + 1"
    using Cons.prems(1) unsigned_less [of kMaxSequenceNumber, where 'a = nat]
    by (subst unat_add_lem [THEN iffD1]) (simp_all add: kMaxSequenceNumber_def)
  show ?case
  proof (cases "(s', t, k, v) \<in> set (batch_adds (s + 1) ops)")
    case True
    have "s + 1 \<le> s' \<and> s' \<le> kMaxSequenceNumber \<and> mem_small k \<and> length v < 2 ^ 32"
      using Cons.IH [OF _ _ True] Cons.prems s1 by simp
    then show ?thesis using s1 by (simp add: word_le_nat_alt)
  next
    case False
    then have "(s', t, k, v) = op_add s op" using Cons.prems(3) by auto
    then show ?thesis using Cons.prems(1,2) by (cases op) (auto simp: word_le_nat_alt)
  qed
qed simp

lemma batch_adds_distinct:
  assumes "unat s + length ops \<le> unat kMaxSequenceNumber" and "\<forall>op\<in>set ops. op_small op"
  shows "distinct (map fst (batch_adds s ops))"
  using assms
proof (induction ops arbitrary: s)
  case (Cons op ops)
  have s1: "unat (s + 1) = unat s + 1"
    using Cons.prems(1) unsigned_less [of kMaxSequenceNumber, where 'a = nat]
    by (subst unat_add_lem [THEN iffD1]) (simp_all add: kMaxSequenceNumber_def)
  have "s \<notin> fst ` set (batch_adds (s + 1) ops)"
  proof
    assume "s \<in> fst ` set (batch_adds (s + 1) ops)"
    then obtain t k v where "(s, t, k, v) \<in> set (batch_adds (s + 1) ops)" by auto
    then have "s + 1 \<le> s" using batch_adds_bounds [of "s + 1" ops] Cons.prems s1 by simp
    then show False using s1 by (simp add: word_le_nat_alt)
  qed
  then show ?case using Cons.IH [of "s + 1"] Cons.prems s1 by (simp add: op_add_simps)
qed simp

lemma mem_adds_ok_append:
  assumes "mem_adds_ok es" and "\<forall>e\<in>set es. fst e < s"
    and "unat s + length ops \<le> unat kMaxSequenceNumber" and "\<forall>op\<in>set ops. op_small op"
  shows "mem_adds_ok (es @ batch_adds s ops)"
proof -
  let ?id = "\<lambda>(s :: SequenceNumber, t :: ValueType, k :: bytes, v :: bytes). (k, s)"
  have "distinct (map snd (map ?id (batch_adds s ops)))"
    using batch_adds_distinct [OF assms(3,4)] by (simp add: case_prod_unfold comp_def)
  then have "distinct (map ?id (batch_adds s ops))" by (simp only: distinct_map)
  moreover have "?id e \<noteq> ?id e'" if "e \<in> set es" "e' \<in> set (batch_adds s ops)" for e e'
  proof -
    have "s \<le> fst e'" using batch_adds_bounds [OF assms(3,4)] that(2) by (cases e') auto
    moreover have "fst e < s" using assms(2) that(1) by blast
    ultimately show ?thesis by (auto simp: case_prod_unfold)
  qed
  then have "set (map ?id es) \<inter> set (map ?id (batch_adds s ops)) = {}" by force
  moreover have "\<forall>(s, t, k, v)\<in>set (batch_adds s ops). mem_small k \<and> length v < 2 ^ 32 \<and> s \<le> kMaxSequenceNumber"
    using batch_adds_bounds [OF assms(3,4)] by fast
  ultimately show ?thesis
    using assms(1) unfolding mem_adds_ok_def set_append map_append distinct_append by blast
qed

lemma newest_append_invisible: "\<forall>e\<in>set es'. \<not> visible u s e \<Longrightarrow> newest (es @ es') u s = newest es u s"
  by (induction es) (simp_all add: newest_None)

lemma batch_invisible:
  assumes "unat s + length ops \<le> unat kMaxSequenceNumber" and "\<forall>op\<in>set ops. op_small op" and "snap < s"
  shows "mem_spec (es @ batch_adds s ops) u snap = mem_spec es u snap"
proof -
  have "\<forall>e\<in>set (batch_adds s ops). \<not> visible u snap e"
    using batch_adds_bounds [OF assms(1,2)] assms(3) by (fastforce simp: visible_def)
  then show ?thesis by (simp only: mem_spec_def newest_append_invisible)
qed

lemma Iterate1_loop_puts:
  "\<forall>p\<in>set ps. op_small (PutOp (fst p) (snd p)) \<Longrightarrow>
   Iterate1_loop (concat (map op_bytes (map (\<lambda>p. PutOp (fst p) (snd p)) ps)) @ rest) found k v =
   Iterate1_loop rest (found + of_nat (length ps)) (last (k # map fst ps)) (last (v # map snd ps))"
proof (induction ps arbitrary: found k v)
  case (Cons p ps)
  then show ?case by (simp add: GetLengthPrefixedSlice_Put Let_def add_ac)
qed simp

subsection \<open>Properties\<close>

text \<open>
  C14: iterating over a batch calls the handler with exactly the updates it was built from, in their
  order, and succeeds; appending one batch to another gives the batch of both lists of updates with
  the first one's sequence number.
\<close>

theorem batch_roundtrip:
  assumes "\<forall>op\<in>set xs. op_small op"
  shows "Iterate h (batch_of s xs) st = (Status_OK, fold (op_handle h) xs st) \<and>
    Batch_Sequence (batch_of s xs) = s \<and> Batch_Count (batch_of s xs) = of_nat (length xs) \<and>
    Batch_Append (batch_of s xs) (batch_of s' ys) = Some (batch_of s (xs @ ys))"
  using Iterate_rep [OF assms] by (simp add: Batch_Append_rep)

theorem batch_roundtrip_witness:
  "Iterate \<lparr>handler_Put = (\<lambda>k v st. st @ [(k, Some v)]), handler_Delete = (\<lambda>k st. st @ [(k, None)])\<rparr>
     (batch_of 7 [PutOp [1] [2], DeleteOp [1], PutOp [3] []]) [] =
   (Status_OK, [([1], Some [2]), ([1], None), ([3], Some [])])"
  using batch_roundtrip [of "[PutOp [1] [2], DeleteOp [1], PutOp [3] []]"
      "\<lparr>handler_Put = (\<lambda>k v st. st @ [(k, Some v)]), handler_Delete = (\<lambda>k st. st @ [(k, None)])\<rparr>" 7 "[]"]
  by (simp del: batch_of_eq)

text \<open>
  C13: inserting a batch whose sequence number is larger than all numbers in the memtable succeeds and
  makes its updates visible under consecutive numbers: a lookup at any snapshot returns what the
  versioned map with these additions returns, and a snapshot taken before the batch sees none of them.
\<close>

theorem batch_insert_refines:
  assumes "mem_adds_ok es" and "\<forall>e\<in>set es. fst e < s"
    and "unat s + length ops \<le> unat kMaxSequenceNumber" and "\<forall>op\<in>set ops. op_small op"
    and "mem_small u" and "snap \<le> kMaxSequenceNumber"
  shows "\<exists>m. InsertInto Bytewise_Compare (batch_of s ops) (mem_build Bytewise_Compare es) =
      (Status_OK, s + of_nat (length ops), Some m) \<and>
    MemTable_SUGet Bytewise_Compare (mk_LookupKey u snap) m = Some (mem_spec (es @ batch_adds s ops) u snap) \<and>
    (snap < s \<longrightarrow> MemTable_SUGet Bytewise_Compare (mk_LookupKey u snap) m = Some (mem_spec es u snap))"
proof -
  from ikey.SUGet_spec [OF mem_adds_ok_append [OF assms(1-4)] assms(5,6)] obtain m where
    m: "mem_build Bytewise_Compare (es @ batch_adds s ops) = Some m"
    "MemTable_SUGet Bytewise_Compare (mk_LookupKey u snap) m = Some (mem_spec (es @ batch_adds s ops) u snap)"
    by blast
  show ?thesis
    unfolding batch_of_eq InsertInto_rep [OF assms(4)] m(1)
    using m(2) batch_invisible [OF assms(3,4), of snap es u] by auto
qed

theorem batch_insert_refines_witness:
  "\<exists>m. InsertInto Bytewise_Compare (batch_of 2 [PutOp [7] [5], DeleteOp [8]])
      (mem_build Bytewise_Compare [(1, kTypeValue, [7], [1])]) = (Status_OK, 4, Some m) \<and>
    MemTable_SUGet Bytewise_Compare (mk_LookupKey [7] 3) m = Some (Present [5], Some 2)"
  using batch_insert_refines
    [of "[(1, kTypeValue, [7], [1])]" 2 "[PutOp [7] [5], DeleteOp [8]]" "[7]" 3]
  by (auto simp: mem_adds_ok_def mem_spec_def visible_def kMaxSequenceNumber_def word_le_def word_less_def
      simp del: batch_of_eq)

text \<open>
  C15: \<^verbatim>\<open>Iterate1\<close> returns the last pair of a batch of puts, and refuses every batch in which a deletion
  follows such puts, with the pair before the deletion in its arguments.
\<close>

theorem Iterate1_puts_only:
  assumes "\<forall>p\<in>set ps. op_small (PutOp (fst p) (snd p))"
  shows "Iterate1 (batch_of s (map (\<lambda>p. PutOp (fst p) (snd p)) ps)) k v =
      (Status_OK, last (k # map fst ps), last (v # map snd ps)) \<and>
    Iterate1 (batch_of s (map (\<lambda>p. PutOp (fst p) (snd p)) ps @ DeleteOp key # ops)) k v =
      (Corruption (str ''unknown WriteBatch tag'') [], last (k # map fst ps), last (v # map snd ps))"
  using Iterate1_loop_puts [OF assms, of "[]" 0 k v]
    Iterate1_loop_puts [OF assms, of "op_bytes (DeleteOp key) @ concat (map op_bytes ops)" 0 k v]
  by (simp add: Iterate1_def Let_def)

theorem Iterate1_puts_only_witness:
  "Iterate1 (batch_of 1 [PutOp [1] [2], DeleteOp [1]]) [] [] = (Corruption (str ''unknown WriteBatch tag'') [], [1], [2])"
  using Iterate1_puts_only [of "[([1], [2])]" 1 "[]" "[]" "[1]" "[]"] by simp

end
