(* ===== verification/Version_Edit.thy ===== *)
theory Version_Edit
  imports Write_Batch "HOL-Library.Product_Lexorder"
begin

text \<open>
  Version edits (\<^verbatim>\<open>App/integration/version_edit.cpp\<close>): the records of the manifest.  An edit is written as
  a sequence of tagged fields and read back field by field.
\<close>

subsection \<open>Edits\<close>

record FileMetaData =
  refs :: int
  allowed_seeks :: int
  fnumber :: uint64
  file_size :: uint64
  smallest :: bytes
  largest :: bytes

definition mk_FileMetaData :: "uint64 \<Rightarrow> uint64 \<Rightarrow> bytes \<Rightarrow> bytes \<Rightarrow> FileMetaData" where
  "mk_FileMetaData num sz small large =
     \<lparr>refs = 0, allowed_seeks = 2 ^ 30, fnumber = num, file_size = sz, smallest = small, largest = large\<rparr>"

text \<open>
  The set of deleted files is ordered by level and number; it is a sorted list here.  Internal keys
  are their encodings.
\<close>

record VersionEdit =
  ve_comparator :: bytes
  ve_log_number :: uint64
  ve_prev_log_number :: uint64
  ve_next_file_number :: uint64
  ve_last_sequence :: SequenceNumber
  has_comparator :: bool
  has_log_number :: bool
  has_prev_log_number :: bool
  has_next_file_number :: bool
  has_last_sequence :: bool
  compact_pointers :: "(nat \<times> bytes) list"
  deleted_files :: "(nat \<times> uint64) list"
  new_files :: "(nat \<times> FileMetaData) list"

text \<open>\<^verbatim>\<open>Clear\<close> does not touch the compaction pointers.\<close>

definition VersionEdit_Clear :: "VersionEdit \<Rightarrow> VersionEdit" where
  "VersionEdit_Clear e =
     e\<lparr>ve_comparator := [], ve_log_number := 0, ve_prev_log_number := 0, ve_last_sequence := 0,
       ve_next_file_number := 0, has_comparator := False, has_log_number := False,
       has_prev_log_number := False, has_next_file_number := False, has_last_sequence := False,
       deleted_files := [], new_files := []\<rparr>"

definition mk_VersionEdit :: VersionEdit where
  "mk_VersionEdit =
     \<lparr>ve_comparator = [], ve_log_number = 0, ve_prev_log_number = 0, ve_next_file_number = 0,
      ve_last_sequence = 0, has_comparator = False, has_log_number = False, has_prev_log_number = False,
      has_next_file_number = False, has_last_sequence = False, compact_pointers = [],
      deleted_files = [], new_files = []\<rparr>"

definition SetComparatorName :: "bytes \<Rightarrow> VersionEdit \<Rightarrow> VersionEdit" where
  "SetComparatorName name e = e\<lparr>has_comparator := True, ve_comparator := name\<rparr>"

definition SetLogNumber :: "uint64 \<Rightarrow> VersionEdit \<Rightarrow> VersionEdit" where
  "SetLogNumber num e = e\<lparr>has_log_number := True, ve_log_number := num\<rparr>"

definition SetPrevLogNumber :: "uint64 \<Rightarrow> VersionEdit \<Rightarrow> VersionEdit" where
  "SetPrevLogNumber num e = e\<lparr>has_prev_log_number := True, ve_prev_log_number := num\<rparr>"

definition SetNextFile :: "uint64 \<Rightarrow> VersionEdit \<Rightarrow> VersionEdit" where
  "SetNextFile num e = e\<lparr>has_next_file_number := True, ve_next_file_number := num\<rparr>"

definition SetLastSequence :: "SequenceNumber \<Rightarrow> VersionEdit \<Rightarrow> VersionEdit" where
  "SetLastSequence seq e = e\<lparr>has_last_sequence := True, ve_last_sequence := seq\<rparr>"

definition SetCompactPointer :: "nat \<Rightarrow> bytes \<Rightarrow> VersionEdit \<Rightarrow> VersionEdit" where
  "SetCompactPointer level key e = e\<lparr>compact_pointers := compact_pointers e @ [(level, key)]\<rparr>"

definition AddFile :: "nat \<Rightarrow> uint64 \<Rightarrow> uint64 \<Rightarrow> bytes \<Rightarrow> bytes \<Rightarrow> VersionEdit \<Rightarrow> VersionEdit" where
  "AddFile level file sz small large e =
     e\<lparr>new_files := new_files e @ [(level, mk_FileMetaData file sz small large)]\<rparr>"

definition Edit_DeleteFile :: "nat \<Rightarrow> uint64 \<Rightarrow> VersionEdit \<Rightarrow> VersionEdit" where
  "Edit_DeleteFile level file e = e\<lparr>deleted_files := insort_insert (level, file) (deleted_files e)\<rparr>"

subsection \<open>Encoding\<close>

definition kComparator :: uint32 where "kComparator = 1"
definition kLogNumber :: uint32 where "kLogNumber = 2"
definition kNextFileNumber :: uint32 where "kNextFileNumber = 3"
definition kLastSequence :: uint32 where "kLastSequence = 4"
definition kCompactPointer :: uint32 where "kCompactPointer = 5"
definition kDeletedFile :: uint32 where "kDeletedFile = 6"
definition kNewFile :: uint32 where "kNewFile = 7"
definition kPrevLogNumber :: uint32 where "kPrevLogNumber = 9"

lemmas edit_tags = kComparator_def kLogNumber_def kNextFileNumber_def kLastSequence_def
  kCompactPointer_def kDeletedFile_def kNewFile_def kPrevLogNumber_def

definition put_pointer :: "nat \<times> bytes \<Rightarrow> bytes \<Rightarrow> bytes" where
  "put_pointer cp dst =
     (let dst = PutVarint32 dst kCompactPointer;
          dst = PutVarint32 dst (of_nat (fst cp))
      in PutLengthPrefixedSlice dst (snd cp))"

definition put_deleted :: "nat \<times> uint64 \<Rightarrow> bytes \<Rightarrow> bytes" where
  "put_deleted d dst =
     (let dst = PutVarint32 dst kDeletedFile;
          dst = PutVarint32 dst (of_nat (fst d))
      in PutVarint64 dst (snd d))"

definition put_new_file :: "nat \<times> FileMetaData \<Rightarrow> bytes \<Rightarrow> bytes" where
  "put_new_file lf dst =
     (let f = snd lf;
          dst = PutVarint32 dst kNewFile;
          dst = PutVarint32 dst (of_nat (fst lf));
          dst = PutVarint64 dst (fnumber f);
          dst = PutVarint64 dst (file_size f);
          dst = PutLengthPrefixedSlice dst (smallest f)
      in PutLengthPrefixedSlice dst (largest f))"

definition VersionEdit_EncodeTo :: "bytes \<Rightarrow> VersionEdit \<Rightarrow> bytes" where
  "VersionEdit_EncodeTo dst e =
     (let dst = (if has_comparator e then PutLengthPrefixedSlice (PutVarint32 dst kComparator) (ve_comparator e) else dst);
          dst = (if has_log_number e then PutVarint64 (PutVarint32 dst kLogNumber) (ve_log_number e) else dst);
          dst = (if has_prev_log_number e then PutVarint64 (PutVarint32 dst kPrevLogNumber) (ve_prev_log_number e) else dst);
          dst = (if has_next_file_number e then PutVarint64 (PutVarint32 dst kNextFileNumber) (ve_next_file_number e) else dst);
          dst = (if has_last_sequence e then PutVarint64 (PutVarint32 dst kLastSequence) (ve_last_sequence e) else dst);
          dst = fold put_pointer (compact_pointers e) dst;
          dst = fold put_deleted (deleted_files e) dst
      in fold put_new_file (new_files e) dst)"

subsection \<open>Decoding\<close>

definition GetInternalKey :: "bytes \<Rightarrow> (bytes \<times> bytes) option" where
  "GetInternalKey input = GetLengthPrefixedSlice input"

definition GetLevel :: "bytes \<Rightarrow> (nat \<times> bytes) option" where
  "GetLevel input =
     (case GetVarint32 input of
        None \<Rightarrow> None
      | Some (v, rest) \<Rightarrow> if unat v < kNumLevels then Some (unat v, rest) else None)"

text \<open>The cases of the switch: the message of a field that cannot be read, or the rest of the input and the edit.\<close>

definition DecodeField :: "uint32 \<Rightarrow> bytes \<Rightarrow> VersionEdit \<Rightarrow> string + (bytes \<times> VersionEdit)" where
  "DecodeField tag input e =
     (if tag = kComparator then
        (case GetLengthPrefixedSlice input of
           Some (s, input) \<Rightarrow> Inr (input, e\<lparr>ve_comparator := s, has_comparator := True\<rparr>)
         | None \<Rightarrow> Inl ''comparator name'')
      else if tag = kLogNumber then
        (case GetVarint64 input of
           Some (n, input) \<Rightarrow> Inr (input, e\<lparr>ve_log_number := n, has_log_number := True\<rparr>)
         | None \<Rightarrow> Inl ''log number'')
      else if tag = kPrevLogNumber then
        (case GetVarint64 input of
           Some (n, input) \<Rightarrow> Inr (input, e\<lparr>ve_prev_log_number := n, has_prev_log_number := True\<rparr>)
         | None \<Rightarrow> Inl ''previous log number'')
      else if tag = kNextFileNumber then
        (case GetVarint64 input of
           Some (n, input) \<Rightarrow> Inr (input, e\<lparr>ve_next_file_number := n, has_next_file_number := True\<rparr>)
         | None \<Rightarrow> Inl ''next file number'')
      else if tag = kLastSequence then
        (case GetVarint64 input of
           Some (n, input) \<Rightarrow> Inr (input, e\<lparr>ve_last_sequence := n, has_last_sequence := True\<rparr>)
         | None \<Rightarrow> Inl ''last sequence number'')
      else if tag = kCompactPointer then
        (case do { (level, input) \<leftarrow> GetLevel input; (key, input) \<leftarrow> GetInternalKey input; Some (level, key, input) } of
           Some (level, key, input) \<Rightarrow> Inr (input, e\<lparr>compact_pointers := compact_pointers e @ [(level, key)]\<rparr>)
         | None \<Rightarrow> Inl ''compaction pointer'')
      else if tag = kDeletedFile then
        (case do { (level, input) \<leftarrow> GetLevel input; (n, input) \<leftarrow> GetVarint64 input; Some (level, n, input) } of
           Some (level, n, input) \<Rightarrow> Inr (input, e\<lparr>deleted_files := insort_insert (level, n) (deleted_files e)\<rparr>)
         | None \<Rightarrow> Inl ''deleted file'')
      else if tag = kNewFile then
        (case do { (level, input) \<leftarrow> GetLevel input; (n, input) \<leftarrow> GetVarint64 input;
                   (sz, input) \<leftarrow> GetVarint64 input; (small, input) \<leftarrow> GetInternalKey input;
                   (large, input) \<leftarrow> GetInternalKey input; Some (level, n, sz, small, large, input) } of
           Some (level, n, sz, small, large, input) \<Rightarrow>
             Inr (input, e\<lparr>new_files := new_files e @ [(level, mk_FileMetaData n sz small large)]\<rparr>)
         | None \<Rightarrow> Inl ''new-file entry'')
      else Inl ''unknown tag'')"

lemma GetLevel_length: "GetLevel p = Some (v, q) \<Longrightarrow> length q < length p"
  by (auto simp: GetLevel_def dest!: GetVarint32_length split: option.splits if_splits)

lemma DecodeField_length:
  assumes "DecodeField tag p e = Inr (q, e')"
  shows "length q < length p"
proof -
  note lens = GetVarint64_length GetLevel_length GetLengthPrefixedSlice_length
  have keyl: "GetInternalKey p = Some (k, q) \<Longrightarrow> length q < length p" for p q k
    unfolding GetInternalKey_def by (rule GetLengthPrefixedSlice_length)
  consider "tag = kComparator" | "tag \<in> {kLogNumber, kPrevLogNumber, kNextFileNumber, kLastSequence}"
    | "tag = kCompactPointer" | "tag = kDeletedFile" | "tag = kNewFile"
    using assms by (auto simp: DecodeField_def split: if_splits)
  then show ?thesis
  proof cases
    case 1
    then show ?thesis using assms by (auto simp: DecodeField_def dest: lens split: option.splits)
  next
    case 2
    then show ?thesis
      using assms by (elim insertE emptyE; simp add: DecodeField_def edit_tags split: option.splits) (auto dest: lens)
  next
    case 3
    then show ?thesis
      using assms by (auto simp: DecodeField_def edit_tags dest!: lens keyl split: option.splits Option.bind_splits prod.splits)
  next
    case 4
    then show ?thesis
      using assms by (auto simp: DecodeField_def edit_tags dest!: lens keyl split: option.splits Option.bind_splits prod.splits)
  next
    case 5
    then obtain l p1 n p2 s p3 k p4 k' where "GetLevel p = Some (l, p1)" "GetVarint64 p1 = Some (n, p2)"
      "GetVarint64 p2 = Some (s, p3)" "GetInternalKey p3 = Some (k, p4)" "GetInternalKey p4 = Some (k', q)"
      using assms by (auto simp: DecodeField_def edit_tags split: option.splits Option.bind_splits prod.splits)
    then show ?thesis by (meson lens keyl order.strict_trans)
  qed
qed

function DecodeFrom_loop :: "bytes \<Rightarrow> VersionEdit \<Rightarrow> string option \<times> bytes \<times> VersionEdit" where
  "DecodeFrom_loop input e =
     (case GetVarint32 input of
        None \<Rightarrow> (None, input, e)
      | Some (tag, rest) \<Rightarrow>
          (case DecodeField tag rest e of
             Inl msg \<Rightarrow> (Some msg, rest, e)
           | Inr (rest', e') \<Rightarrow> DecodeFrom_loop rest' e'))"
  by pat_completeness auto
termination
  by (relation "measure (\<lambda>(input, e). length input)")
    (auto dest!: GetVarint32_length DecodeField_length)

declare DecodeFrom_loop.simps [simp del]

definition VersionEdit_DecodeFrom :: "bytes \<Rightarrow> VersionEdit \<Rightarrow> Status \<times> VersionEdit" where
  "VersionEdit_DecodeFrom src e =
     (let (msg, input, e) = DecodeFrom_loop src (VersionEdit_Clear e);
          msg = (if msg = None \<and> input \<noteq> [] then Some ''invalid tag'' else msg)
      in (case msg of None \<Rightarrow> Status_OK | Some m \<Rightarrow> Corruption (str ''VersionEdit'') (str m), e))"

subsection \<open>Lemmas\<close>

definition pointer_bytes :: "nat \<times> bytes \<Rightarrow> bytes" where
  "pointer_bytes cp = EncodeVarint32 kCompactPointer @ EncodeVarint32 (of_nat (fst cp)) @ PutLengthPrefixedSlice [] (snd cp)"

definition deleted_bytes :: "nat \<times> uint64 \<Rightarrow> bytes" where
  "deleted_bytes d = EncodeVarint32 kDeletedFile @ EncodeVarint32 (of_nat (fst d)) @ EncodeVarint64 (snd d)"

definition new_file_bytes :: "nat \<times> FileMetaData \<Rightarrow> bytes" where
  "new_file_bytes lf = EncodeVarint32 kNewFile @ EncodeVarint32 (of_nat (fst lf)) @ EncodeVarint64 (fnumber (snd lf)) @
     EncodeVarint64 (file_size (snd lf)) @ PutLengthPrefixedSlice [] (smallest (snd lf)) @
     PutLengthPrefixedSlice [] (largest (snd lf))"

lemma put_eqs:
  "put_pointer cp dst = dst @ pointer_bytes cp" "put_deleted d dst = dst @ deleted_bytes d"
  "put_new_file lf dst = dst @ new_file_bytes lf"
  by (simp_all add: put_pointer_def pointer_bytes_def put_deleted_def deleted_bytes_def put_new_file_def
      new_file_bytes_def Let_def PutVarint32_def PutVarint64_def PutLengthPrefixedSlice_def)

lemma fold_append: "(\<And>x dst. f x dst = dst @ g x) \<Longrightarrow> fold f xs dst = dst @ concat (map g xs)"
  by (induction xs arbitrary: dst) simp_all

definition edit_bytes :: "VersionEdit \<Rightarrow> bytes" where
  "edit_bytes e =
     (if has_comparator e then EncodeVarint32 kComparator @ PutLengthPrefixedSlice [] (ve_comparator e) else []) @
     (if has_log_number e then EncodeVarint32 kLogNumber @ EncodeVarint64 (ve_log_number e) else []) @
     (if has_prev_log_number e then EncodeVarint32 kPrevLogNumber @ EncodeVarint64 (ve_prev_log_number e) else []) @
     (if has_next_file_number e then EncodeVarint32 kNextFileNumber @ EncodeVarint64 (ve_next_file_number e) else []) @
     (if has_last_sequence e then EncodeVarint32 kLastSequence @ EncodeVarint64 (ve_last_sequence e) else []) @
     concat (map pointer_bytes (compact_pointers e)) @ concat (map deleted_bytes (deleted_files e)) @
     concat (map new_file_bytes (new_files e))"

lemma EncodeTo_eq: "VersionEdit_EncodeTo dst e = dst @ edit_bytes e"
  unfolding VersionEdit_EncodeTo_def Let_def fold_append [of put_pointer pointer_bytes, OF put_eqs(1)]
    fold_append [of put_deleted deleted_bytes, OF put_eqs(2)]
    fold_append [of put_new_file new_file_bytes, OF put_eqs(3)] edit_bytes_def
  by (auto simp: PutVarint32_def PutVarint64_def PutLengthPrefixedSlice_def)

text \<open>Edits that can be written: levels in range, keys below 4 GiB, an ordered set of deletions, and unset fields at their defaults.\<close>

definition edit_ok :: "VersionEdit \<Rightarrow> bool" where
  "edit_ok e \<longleftrightarrow>
     length (ve_comparator e) < 2 ^ 32 \<and>
     (\<forall>cp\<in>set (compact_pointers e). fst cp < kNumLevels \<and> length (snd cp) < 2 ^ 32) \<and>
     sorted_wrt (<) (deleted_files e) \<and> (\<forall>d\<in>set (deleted_files e). fst d < kNumLevels) \<and>
     (\<forall>(l, f)\<in>set (new_files e). l < kNumLevels \<and> length (smallest f) < 2 ^ 32 \<and> length (largest f) < 2 ^ 32 \<and>
        f = mk_FileMetaData (fnumber f) (file_size f) (smallest f) (largest f)) \<and>
     (\<not> has_comparator e \<longrightarrow> ve_comparator e = []) \<and> (\<not> has_log_number e \<longrightarrow> ve_log_number e = 0) \<and>
     (\<not> has_prev_log_number e \<longrightarrow> ve_prev_log_number e = 0) \<and>
     (\<not> has_next_file_number e \<longrightarrow> ve_next_file_number e = 0) \<and>
     (\<not> has_last_sequence e \<longrightarrow> ve_last_sequence e = 0)"

lemma edit_okD:
  assumes "edit_ok e"
  shows "length (ve_comparator e) < 2 ^ 32"
    and "\<forall>cp\<in>set (compact_pointers e). fst cp < kNumLevels \<and> length (snd cp) < 2 ^ 32"
    and "\<forall>d\<in>set (deleted_files e). fst d < kNumLevels"
    and "sorted_wrt (<) (deleted_files e)"
    and "\<forall>(l, f)\<in>set (new_files e). l < kNumLevels \<and> length (smallest f) < 2 ^ 32 \<and> length (largest f) < 2 ^ 32 \<and>
        f = mk_FileMetaData (fnumber f) (file_size f) (smallest f) (largest f)"
  using assms unfolding edit_ok_def by blast+

lemma loop_step:
  "DecodeFrom_loop (EncodeVarint32 tag @ rest) e =
     (case DecodeField tag rest e of Inl msg \<Rightarrow> (Some msg, rest, e) | Inr (rest', e') \<Rightarrow> DecodeFrom_loop rest' e')"
  by (subst DecodeFrom_loop.simps) (simp add: GetVarint32_Encode)

lemma loop_nil: "DecodeFrom_loop [] e = (None, [], e)"
  by (subst DecodeFrom_loop.simps) (simp add: GetVarint32_def GetVarint32PtrFallback_def)

lemma GetLevel_Encode: "l < kNumLevels \<Longrightarrow> GetLevel (EncodeVarint32 (of_nat l) @ rest) = Some (l, rest)"
  by (simp add: GetLevel_def GetVarint32_Encode kNumLevels_def unat_of_nat_small)

lemma field_comparator:
  "length s < 2 ^ 32 \<Longrightarrow> DecodeFrom_loop (EncodeVarint32 kComparator @ PutLengthPrefixedSlice [] s @ rest) e =
     DecodeFrom_loop rest (e\<lparr>ve_comparator := s, has_comparator := True\<rparr>)"
  unfolding loop_step by (simp add: DecodeField_def GetLengthPrefixedSlice_Put)

lemma field_numbers:
  "DecodeFrom_loop (EncodeVarint32 kLogNumber @ EncodeVarint64 n @ rest) e =
     DecodeFrom_loop rest (e\<lparr>ve_log_number := n, has_log_number := True\<rparr>)"
  "DecodeFrom_loop (EncodeVarint32 kPrevLogNumber @ EncodeVarint64 n @ rest) e =
     DecodeFrom_loop rest (e\<lparr>ve_prev_log_number := n, has_prev_log_number := True\<rparr>)"
  "DecodeFrom_loop (EncodeVarint32 kNextFileNumber @ EncodeVarint64 n @ rest) e =
     DecodeFrom_loop rest (e\<lparr>ve_next_file_number := n, has_next_file_number := True\<rparr>)"
  "DecodeFrom_loop (EncodeVarint32 kLastSequence @ EncodeVarint64 n @ rest) e =
     DecodeFrom_loop rest (e\<lparr>ve_last_sequence := n, has_last_sequence := True\<rparr>)"
  unfolding loop_step by (simp_all add: DecodeField_def edit_tags GetVarint64_Encode)

lemma fields_pointers:
  "\<forall>cp\<in>set cps. fst cp < kNumLevels \<and> length (snd cp) < 2 ^ 32 \<Longrightarrow>
   DecodeFrom_loop (concat (map pointer_bytes cps) @ rest) e =
     DecodeFrom_loop rest (e\<lparr>compact_pointers := compact_pointers e @ cps\<rparr>)"
proof (induction cps arbitrary: e)
  case (Cons cp cps)
  have "DecodeFrom_loop (pointer_bytes cp @ concat (map pointer_bytes cps) @ rest) e =
      DecodeFrom_loop (concat (map pointer_bytes cps) @ rest) (e\<lparr>compact_pointers := compact_pointers e @ [cp]\<rparr>)"
    unfolding pointer_bytes_def [of cp] append.assoc loop_step using Cons.prems
    by (simp add: DecodeField_def edit_tags GetLevel_Encode GetInternalKey_def GetLengthPrefixedSlice_Put)
  then show ?case using Cons by simp
qed simp

lemma insort_insert_last: "\<forall>y\<in>set xs. y < x \<Longrightarrow> insort_insert x xs = xs @ [x]"
proof -
  assume less: "\<forall>y\<in>set xs. y < x"
  then have "insort x xs = xs @ [x]" by (induction xs) auto
  with less show ?thesis by (auto simp: insort_insert_key_def)
qed

lemma fields_deleted:
  "\<forall>d\<in>set ds. fst d < kNumLevels \<Longrightarrow> sorted_wrt (<) (deleted_files e @ ds) \<Longrightarrow>
   DecodeFrom_loop (concat (map deleted_bytes ds) @ rest) e =
     DecodeFrom_loop rest (e\<lparr>deleted_files := deleted_files e @ ds\<rparr>)"
proof (induction ds arbitrary: e)
  case (Cons d ds)
  have "insort_insert d (deleted_files e) = deleted_files e @ [d]"
    using Cons.prems(2) by (intro insort_insert_last) (auto simp: sorted_wrt_append)
  then have "DecodeFrom_loop (deleted_bytes d @ concat (map deleted_bytes ds) @ rest) e =
      DecodeFrom_loop (concat (map deleted_bytes ds) @ rest) (e\<lparr>deleted_files := deleted_files e @ [d]\<rparr>)"
    unfolding deleted_bytes_def [of d] append.assoc loop_step using Cons.prems(1)
    by (simp add: DecodeField_def edit_tags GetLevel_Encode GetVarint64_Encode)
  then show ?case using Cons by simp
qed simp

lemma fields_new:
  "\<forall>(l, f)\<in>set lfs. l < kNumLevels \<and> length (smallest f) < 2 ^ 32 \<and> length (largest f) < 2 ^ 32 \<and>
     f = mk_FileMetaData (fnumber f) (file_size f) (smallest f) (largest f) \<Longrightarrow>
   DecodeFrom_loop (concat (map new_file_bytes lfs) @ rest) e =
     DecodeFrom_loop rest (e\<lparr>new_files := new_files e @ lfs\<rparr>)"
proof (induction lfs arbitrary: e)
  case (Cons lf lfs)
  obtain l f where lf: "lf = (l, f)" by (cases lf)
  have f: "l < kNumLevels" "length (smallest f) < 2 ^ 32" "length (largest f) < 2 ^ 32"
    "mk_FileMetaData (fnumber f) (file_size f) (smallest f) (largest f) = f"
    using Cons.prems by (auto simp: lf)
  have "DecodeFrom_loop (new_file_bytes lf @ concat (map new_file_bytes lfs) @ rest) e =
      DecodeFrom_loop (concat (map new_file_bytes lfs) @ rest) (e\<lparr>new_files := new_files e @ [lf]\<rparr>)"
    unfolding new_file_bytes_def [of lf] append.assoc loop_step using f
    by (simp add: lf DecodeField_def edit_tags GetLevel_Encode GetVarint64_Encode GetInternalKey_def
        GetLengthPrefixedSlice_Put)
  then show ?case using Cons by simp
qed simp

lemma opt_fields:
  "length s < 2 ^ 32 \<Longrightarrow>
   DecodeFrom_loop ((if b then EncodeVarint32 kComparator @ PutLengthPrefixedSlice [] s else []) @ rest) e =
     DecodeFrom_loop rest (if b then e\<lparr>ve_comparator := s, has_comparator := True\<rparr> else e)"
  "DecodeFrom_loop ((if b then EncodeVarint32 kLogNumber @ EncodeVarint64 n else []) @ rest) e =
     DecodeFrom_loop rest (if b then e\<lparr>ve_log_number := n, has_log_number := True\<rparr> else e)"
  "DecodeFrom_loop ((if b then EncodeVarint32 kPrevLogNumber @ EncodeVarint64 n else []) @ rest) e =
     DecodeFrom_loop rest (if b then e\<lparr>ve_prev_log_number := n, has_prev_log_number := True\<rparr> else e)"
  "DecodeFrom_loop ((if b then EncodeVarint32 kNextFileNumber @ EncodeVarint64 n else []) @ rest) e =
     DecodeFrom_loop rest (if b then e\<lparr>ve_next_file_number := n, has_next_file_number := True\<rparr> else e)"
  "DecodeFrom_loop ((if b then EncodeVarint32 kLastSequence @ EncodeVarint64 n else []) @ rest) e =
     DecodeFrom_loop rest (if b then e\<lparr>ve_last_sequence := n, has_last_sequence := True\<rparr> else e)"
  by (simp_all add: field_comparator field_numbers)

subsection \<open>Properties\<close>

text \<open>
  C16: an edit written to the manifest is read back: decoding the encoding of an edit succeeds and gives
  the edit, with the compaction pointers of the object that was decoded into kept in front.
\<close>

theorem version_edit_roundtrip:
  assumes "edit_ok e"
  shows "VersionEdit_DecodeFrom (VersionEdit_EncodeTo [] e) e0 =
    (Status_OK, e\<lparr>compact_pointers := compact_pointers e0 @ compact_pointers e\<rparr>)"
proof -
  define c where "c = VersionEdit_Clear e0"
  define e1 where "e1 = (if has_comparator e then c\<lparr>ve_comparator := ve_comparator e, has_comparator := True\<rparr> else c)"
  define e2 where "e2 = (if has_log_number e then e1\<lparr>ve_log_number := ve_log_number e, has_log_number := True\<rparr> else e1)"
  define e3 where "e3 = (if has_prev_log_number e
    then e2\<lparr>ve_prev_log_number := ve_prev_log_number e, has_prev_log_number := True\<rparr> else e2)"
  define e4 where "e4 = (if has_next_file_number e
    then e3\<lparr>ve_next_file_number := ve_next_file_number e, has_next_file_number := True\<rparr> else e3)"
  define e5 where "e5 = (if has_last_sequence e
    then e4\<lparr>ve_last_sequence := ve_last_sequence e, has_last_sequence := True\<rparr> else e4)"
  let ?e = "e5\<lparr>compact_pointers := compact_pointers e5 @ compact_pointers e,
    deleted_files := deleted_files e5 @ deleted_files e, new_files := new_files e5 @ new_files e\<rparr>"
  have e5: "compact_pointers e5 = compact_pointers e0" "deleted_files e5 = []" "new_files e5 = []"
    by (simp_all add: e5_def e4_def e3_def e2_def e1_def c_def VersionEdit_Clear_def)
  note ok = edit_okD [OF assms]
  have "DecodeFrom_loop (edit_bytes e) c = (None, [], ?e)"
    unfolding edit_bytes_def opt_fields(1) [OF ok(1)] opt_fields(2-)
    unfolding e1_def [symmetric] unfolding e2_def [symmetric] unfolding e3_def [symmetric]
    unfolding e4_def [symmetric] unfolding e5_def [symmetric] fields_pointers [OF ok(2)]
    using fields_deleted [OF ok(3)] fields_new [OF ok(5), of "[]"] ok(4) e5 by (simp add: loop_nil)
  moreover have "?e = e\<lparr>compact_pointers := compact_pointers e0 @ compact_pointers e\<rparr>"
    using assms unfolding edit_ok_def e5
    by (intro VersionEdit.equality) (auto simp: e5_def e4_def e3_def e2_def e1_def c_def VersionEdit_Clear_def)
  ultimately show ?thesis by (simp add: VersionEdit_DecodeFrom_def EncodeTo_eq c_def)
qed

theorem version_edit_roundtrip_witness:
  "VersionEdit_DecodeFrom (VersionEdit_EncodeTo []
      (AddFile 2 9 100 [1] [5] (Edit_DeleteFile 1 7 (SetLogNumber 4 mk_VersionEdit)))) mk_VersionEdit =
    (Status_OK, AddFile 2 9 100 [1] [5] (Edit_DeleteFile 1 7 (SetLogNumber 4 mk_VersionEdit)))"
  using version_edit_roundtrip [of "AddFile 2 9 100 [1] [5] (Edit_DeleteFile 1 7 (SetLogNumber 4 mk_VersionEdit))"
      mk_VersionEdit]
  by (simp add: edit_ok_def AddFile_def Edit_DeleteFile_def SetLogNumber_def mk_VersionEdit_def mk_FileMetaData_def
      insort_insert_key_def kNumLevels_def)

end
