(* ===== verification/Iterator.thy ===== *)
theory Iterator
  imports Status Comparator
begin

text \<open>
  The interface \<^verbatim>\<open>Iterator\<close> (\<^verbatim>\<open>App/integration/iterator.h\<close>): a record of operations on the states of an
  implementation.  Its contract is the locale \<open>kv_iterator\<close>: an iterator stands at a position of a
  sorted list of entries, or past its end.
\<close>

record 's Iterator =
  it_Valid :: "'s \<Rightarrow> bool"
  it_SeekToFirst :: "'s \<Rightarrow> 's"
  it_SeekToLast :: "'s \<Rightarrow> 's"
  it_Seek :: "bytes \<Rightarrow> 's \<Rightarrow> 's"
  it_Next :: "'s \<Rightarrow> 's"
  it_Prev :: "'s \<Rightarrow> 's"
  it_key :: "'s \<Rightarrow> bytes"
  it_value :: "'s \<Rightarrow> bytes"
  it_status :: "'s \<Rightarrow> Status"

type_synonym entry = "bytes \<times> bytes"

text \<open>The number of entries with a key before the target: where a seek ends up.\<close>

definition seek_pos :: "(bytes \<Rightarrow> bytes \<Rightarrow> int) \<Rightarrow> entry list \<Rightarrow> bytes \<Rightarrow> nat" where
  "seek_pos cmp es target = length (takeWhile (\<lambda>e. cmp (fst e) target < 0) es)"

text \<open>\<open>at s es i\<close>: the state \<open>s\<close> iterates over \<open>es\<close> and stands at entry \<open>i\<close>, or past the end if there is none.\<close>

locale byte_comparator = weak_comparator ok Compare
  for ok :: "bytes \<Rightarrow> bool" and Compare :: "bytes \<Rightarrow> bytes \<Rightarrow> int"
begin

definition sorted_entries :: "entry list \<Rightarrow> bool" where
  "sorted_entries es \<longleftrightarrow> sorted_wrt (\<lambda>a b. Compare (fst a) (fst b) < 0) es \<and> (\<forall>e\<in>set es. ok (fst e))"

text \<open>A position is where a seek ends up when it separates the smaller keys from the others.\<close>

lemma seek_posI:
  assumes "i \<le> length es" and "\<forall>j<i. Compare (fst (es ! j)) t < 0" and "i < length es \<longrightarrow> \<not> Compare (fst (es ! i)) t < 0"
  shows "seek_pos Compare es t = i"
proof -
  let ?P = "\<lambda>e. Compare (fst e) t < 0"
  have "takeWhile ?P (take i es @ drop i es) = take i es @ takeWhile ?P (drop i es)"
    using assms(1,2) by (intro takeWhile_append2) (auto simp: in_set_conv_nth)
  moreover have "takeWhile ?P (drop i es) = []"
    using assms(3) by (cases "drop i es") (auto simp: drop_eq_Nil2 dest: nth_via_drop)
  ultimately show ?thesis using assms(1) by (simp add: seek_pos_def)
qed

lemma sorted_entriesD:
  "sorted_entries es \<Longrightarrow> i < j \<Longrightarrow> j < length es \<Longrightarrow> Compare (fst (es ! i)) (fst (es ! j)) < 0"
  "sorted_entries es \<Longrightarrow> i < length es \<Longrightarrow> ok (fst (es ! i))"
  by (auto simp: sorted_entries_def sorted_wrt_iff_nth_less)

end

locale kv_iterator = byte_comparator +
  fixes I :: "'s Iterator" and at :: "'s \<Rightarrow> entry list \<Rightarrow> nat \<Rightarrow> bool"
  assumes at_le: "at s es i \<Longrightarrow> i \<le> length es"
    and at_sorted: "at s es i \<Longrightarrow> sorted_entries es"
    and Valid_at: "at s es i \<Longrightarrow> it_Valid I s \<longleftrightarrow> i < length es"
    and key_at: "at s es i \<Longrightarrow> i < length es \<Longrightarrow> it_key I s = fst (es ! i)"
    and value_at: "at s es i \<Longrightarrow> i < length es \<Longrightarrow> it_value I s = snd (es ! i)"
    and status_at: "at s es i \<Longrightarrow> Status_ok (it_status I s)"
    and SeekToFirst_at: "at s es i \<Longrightarrow> at (it_SeekToFirst I s) es 0"
    and SeekToLast_at: "at s es i \<Longrightarrow> at (it_SeekToLast I s) es (length es - 1)"
    and Seek_at: "at s es i \<Longrightarrow> ok target \<Longrightarrow> at (it_Seek I target s) es (seek_pos Compare es target)"
    and Next_at: "at s es i \<Longrightarrow> i < length es \<Longrightarrow> at (it_Next I s) es (Suc i)"
    and Prev_at: "at s es i \<Longrightarrow> i < length es \<Longrightarrow> at (it_Prev I s) es (if i = 0 then length es else i - 1)"

text \<open>Reading everything from the first entry on.\<close>

primrec it_collect :: "'s Iterator \<Rightarrow> nat \<Rightarrow> 's \<Rightarrow> entry list" where
  "it_collect I 0 s = []"
| "it_collect I (Suc n) s =
     (if it_Valid I s then (it_key I s, it_value I s) # it_collect I n (it_Next I s) else [])"

definition it_scan :: "'s Iterator \<Rightarrow> nat \<Rightarrow> 's \<Rightarrow> entry list" where
  "it_scan I n s = it_collect I n (it_SeekToFirst I s)"

context kv_iterator
begin

lemma collect_at: "at s es i \<Longrightarrow> length es \<le> i + n \<Longrightarrow> it_collect I n s = drop i es"
proof (induction n arbitrary: s i)
  case 0
  then show ?case by simp
next
  case (Suc n)
  show ?case
  proof (cases "i < length es")
    case True
    then have "it_collect I n (it_Next I s) = drop (Suc i) es"
      using Suc.IH [OF Next_at [OF Suc.prems(1) True]] Suc.prems(2) by simp
    then show ?thesis
      using True Valid_at [OF Suc.prems(1)] key_at [OF Suc.prems(1) True] value_at [OF Suc.prems(1) True]
      by (simp add: Cons_nth_drop_Suc [symmetric])
  qed (use Valid_at [OF Suc.prems(1)] in simp)
qed

text \<open>A scan returns all entries.\<close>

lemma scan_at: "at s es i \<Longrightarrow> length es \<le> n \<Longrightarrow> it_scan I n s = es"
  using collect_at [OF SeekToFirst_at] by (simp add: it_scan_def)

end

subsection \<open>Positions in sorted lists\<close>

text \<open>The number of entries in front that satisfy a predicate.\<close>

definition tw :: "(entry \<Rightarrow> bool) \<Rightarrow> entry list \<Rightarrow> nat" where
  "tw P es = length (takeWhile P es)"

lemma tw_le: "tw P es \<le> length es"
  by (simp add: tw_def length_takeWhile_le)

lemma tw_before: "j < tw P es \<Longrightarrow> P (es ! j)"
  using takeWhile_nth [of j P es] nth_mem [of j "takeWhile P es"] by (auto simp: tw_def dest!: set_takeWhileD)

lemma tw_at: "tw P es < length es \<Longrightarrow> \<not> P (es ! tw P es)"
  using nth_length_takeWhile [of P es] by (simp add: tw_def)

lemma twI:
  assumes "i \<le> length es" and "\<And>j. j < i \<Longrightarrow> P (es ! j)" and "i < length es \<Longrightarrow> \<not> P (es ! i)"
  shows "tw P es = i"
proof (rule antisym)
  show "tw P es \<le> i"
  proof (rule ccontr)
    assume "\<not> tw P es \<le> i"
    then have "P (es ! i)" "i < length es" using tw_before [of i P es] tw_le [of P es] by auto
    then show False using assms(3) by blast
  qed
  show "i \<le> tw P es"
  proof (rule ccontr)
    assume "\<not> i \<le> tw P es"
    then show False using tw_at [of P es] assms(1,2) by force
  qed
qed

lemma seek_pos_tw: "seek_pos cmp es t = tw (\<lambda>e. cmp (fst e) t < 0) es"
  by (simp add: seek_pos_def tw_def)

lemma tw_cong: "(\<And>e. e \<in> set es \<Longrightarrow> P e \<longleftrightarrow> Q e) \<Longrightarrow> tw P es = tw Q es"
  by (simp add: tw_def cong: takeWhile_cong)

text \<open>The entry before a position, or past the end when there is none.\<close>

definition before :: "nat \<Rightarrow> entry list \<Rightarrow> nat" where
  "before i es = (if i = 0 then length es else i - 1)"

context byte_comparator
begin

abbreviation eless :: "entry \<Rightarrow> entry \<Rightarrow> bool" where
  "eless a b \<equiv> Compare (fst a) (fst b) < 0"

lemma Compare_irrefl: "ok a \<Longrightarrow> \<not> Compare a a < 0"
  using Compare_flip [of a a] by auto

lemma not_less_trans:
  assumes "ok a" "ok b" "ok c" "\<not> Compare b a < 0" "Compare b c < 0"
  shows "Compare a c < 0"
proof (cases "Compare a b < 0")
  case True
  then show ?thesis using Compare_trans assms by blast
next
  case False
  then have "Compare a b = 0" using Compare_flip [OF assms(1,2)] assms(4) by linarith
  show ?thesis
  proof (rule ccontr)
    assume "\<not> Compare a c < 0"
    then have "Compare c a < 0 \<or> Compare c a = 0" using Compare_flip [OF assms(1,3)] Compare_flip [OF assms(3,1)] by linarith
    then show False
      using Compare_less_eq [of b c a] Compare_trans [of b c a] assms by auto
  qed
qed

lemma sorted_in:
  assumes "sorted_entries es" "a \<in> set es" "b \<in> set es"
  shows "a = b \<or> eless a b \<or> eless b a" and "eless a b \<Longrightarrow> \<not> eless b a" and "\<not> eless a a" and "ok (fst a)"
proof -
  obtain i j where ij: "i < length es" "a = es ! i" "j < length es" "b = es ! j"
    using assms(2,3) by (auto simp: in_set_conv_nth)
  then show "a = b \<or> eless a b \<or> eless b a" using sorted_entriesD(1) [OF assms(1)] by (cases i j rule: linorder_cases) auto
  show ok: "ok (fst a)" using sorted_entriesD(2) [OF assms(1)] ij by blast
  then show irr: "\<not> eless a a" by (rule Compare_irrefl)
  show "\<not> eless b a" if "eless a b"
    using Compare_trans [OF ok _ ok that] sorted_entriesD(2) [OF assms(1)] ij irr by blast
qed

lemma sorted_nth_less_iff:
  "sorted_entries es \<Longrightarrow> i < length es \<Longrightarrow> j < length es \<Longrightarrow> eless (es ! i) (es ! j) \<longleftrightarrow> i < j"
  using sorted_entriesD(1) [of es i j] sorted_entriesD(1) [of es j i] sorted_in(2,3) [of es "es ! i" "es ! j"]
  by (cases i j rule: linorder_cases) auto

lemma sorted_entries_unique:
  assumes "sorted_entries as" and "sorted_entries bs" and "set as = set bs"
  shows "as = bs"
  using assms
proof (induction as arbitrary: bs)
  case (Cons a as)
  then obtain b bs' where bs: "bs = b # bs'" by (cases bs) auto
  have srt: "sorted_entries as" "sorted_entries bs'" "\<And>x. x \<in> set as \<Longrightarrow> eless a x" "\<And>x. x \<in> set bs' \<Longrightarrow> eless b x"
    using Cons.prems bs by (auto simp: sorted_entries_def)
  have "a \<notin> set as" "b \<notin> set bs'" using srt(3,4) sorted_in(3) [OF Cons.prems(1), of a a] sorted_in(3) [OF Cons.prems(2), of b b] bs by (metis list.set_intros(1))+
  moreover have "a = b"
  proof (rule ccontr)
    assume "a \<noteq> b"
    then have "a \<in> set bs'" "b \<in> set as" using Cons.prems(3) bs by auto
    then show False using sorted_in(2) [OF Cons.prems(1), of a b] srt(3,4) by simp
  qed
  ultimately have "set as = set bs'" using Cons.prems(3) bs by auto
  then show ?case using Cons.IH srt bs \<open>a = b\<close> by simp
qed simp

text \<open>In a sorted list the entries from the position on do not satisfy a predicate that is closed downwards.\<close>

lemma tw_after:
  assumes "sorted_entries es" and "\<And>a b. a \<in> set es \<Longrightarrow> b \<in> set es \<Longrightarrow> P b \<Longrightarrow> eless a b \<Longrightarrow> P a"
    and "tw P es \<le> j" and "j < length es"
  shows "\<not> P (es ! j)"
proof
  assume P: "P (es ! j)"
  have n: "\<not> P (es ! tw P es)" using tw_at [of P es] assms(3,4) by simp
  then have "tw P es < j" using P assms(3) by (metis le_neq_implies_less)
  then have "eless (es ! tw P es) (es ! j)" using sorted_entriesD(1) [OF assms(1)] assms(4) by blast
  then show False using assms(2) [OF _ _ P] n assms(3,4) by simp
qed

end

subsection \<open>The empty iterator\<close>

text \<open>\<^verbatim>\<open>EmptyIterator\<close>: its state is its status; \<^verbatim>\<open>Next\<close>, \<^verbatim>\<open>Prev\<close>, \<^verbatim>\<open>key\<close> and \<^verbatim>\<open>value\<close> must not be called.\<close>

definition EmptyIterator :: "Status Iterator" where
  "EmptyIterator =
     \<lparr>it_Valid = (\<lambda>s. False), it_SeekToFirst = (\<lambda>s. s), it_SeekToLast = (\<lambda>s. s), it_Seek = (\<lambda>target s. s),
      it_Next = (\<lambda>s. s), it_Prev = (\<lambda>s. s), it_key = (\<lambda>s. []), it_value = (\<lambda>s. []), it_status = (\<lambda>s. s)\<rparr>"

definition NewEmptyIterator :: Status where
  "NewEmptyIterator = Status_OK"

definition NewErrorIterator :: "Status \<Rightarrow> Status" where
  "NewErrorIterator status = status"

sublocale byte_comparator \<subseteq> empty_iter: kv_iterator ok Compare EmptyIterator "\<lambda>s es i. es = [] \<and> i = 0 \<and> Status_ok s"
  by unfold_locales (auto simp: EmptyIterator_def seek_pos_def sorted_entries_def)

interpretation bytewise: byte_comparator "\<lambda>_. True" Bytewise_Compare
  by unfold_locales

end
