(* ===== verification/Two_Level.thy ===== *)
theory Two_Level
  imports Iterator
begin

text \<open>
  The two-level iterator (\<^verbatim>\<open>App/integration/two_level_iterator.cpp\<close>): an index iterator whose values are
  handles of blocks, and a data iterator over the current block, which a function makes from the
  handle.  The loops that skip empty blocks only end if the index iterator does, so the operations may
  have no result; for an index and blocks that meet the contract of iterators they do, and the iterator
  meets the contract for the concatenation of the blocks.
\<close>

record ('i, 'd) TwoLevelIterator =
  tl_status :: Status
  tl_index_iter :: 'i
  tl_data_iter :: "'d option"
  tl_data_block_handle :: bytes

definition NewTwoLevelIterator :: "'i \<Rightarrow> ('i, 'd) TwoLevelIterator" where
  "NewTwoLevelIterator index_iter =
     \<lparr>tl_status = Status_OK, tl_index_iter = index_iter, tl_data_iter = None, tl_data_block_handle = []\<rparr>"

definition SaveError :: "Status \<Rightarrow> ('i, 'd) TwoLevelIterator \<Rightarrow> ('i, 'd) TwoLevelIterator" where
  "SaveError s t = (if Status_ok (tl_status t) \<and> \<not> Status_ok s then t\<lparr>tl_status := s\<rparr> else t)"

definition SetDataIterator :: "'d Iterator \<Rightarrow> 'd option \<Rightarrow> ('i, 'd) TwoLevelIterator \<Rightarrow> ('i, 'd) TwoLevelIterator" where
  "SetDataIterator D data_iter t =
     (let t = (case tl_data_iter t of None \<Rightarrow> t | Some d \<Rightarrow> SaveError (it_status D d) t)
      in t\<lparr>tl_data_iter := data_iter\<rparr>)"

definition InitDataBlock ::
  "'i Iterator \<Rightarrow> 'd Iterator \<Rightarrow> (bytes \<Rightarrow> 'd) \<Rightarrow> ('i, 'd) TwoLevelIterator \<Rightarrow> ('i, 'd) TwoLevelIterator" where
  "InitDataBlock I D block_function t =
     (if \<not> it_Valid I (tl_index_iter t) then SetDataIterator D None t
      else
        (let handle = it_value I (tl_index_iter t)
         in if tl_data_iter t \<noteq> None \<and> Slice_compare handle (tl_data_block_handle t) = 0 then t
            else SetDataIterator D (Some (block_function handle)) (t\<lparr>tl_data_block_handle := handle\<rparr>)))"

text \<open>\<open>on_data f\<close>: \<^verbatim>\<open>if (data_iter_.iter() != NULL) f\<close>.\<close>

definition on_data :: "('d \<Rightarrow> 'd) \<Rightarrow> ('i, 'd) TwoLevelIterator \<Rightarrow> ('i, 'd) TwoLevelIterator" where
  "on_data f t = t\<lparr>tl_data_iter := map_option f (tl_data_iter t)\<rparr>"

definition on_index :: "('i \<Rightarrow> 'i) \<Rightarrow> ('i, 'd) TwoLevelIterator \<Rightarrow> ('i, 'd) TwoLevelIterator" where
  "on_index f t = t\<lparr>tl_index_iter := f (tl_index_iter t)\<rparr>"

definition data_valid :: "'d Iterator \<Rightarrow> ('i, 'd) TwoLevelIterator \<Rightarrow> bool" where
  "data_valid D t = (case tl_data_iter t of None \<Rightarrow> False | Some d \<Rightarrow> it_Valid D d)"

partial_function (option) SkipEmptyDataBlocksForward ::
  "'i Iterator \<Rightarrow> 'd Iterator \<Rightarrow> (bytes \<Rightarrow> 'd) \<Rightarrow> ('i, 'd) TwoLevelIterator \<Rightarrow> ('i, 'd) TwoLevelIterator option" where
  "SkipEmptyDataBlocksForward I D bf t =
     (if data_valid D t then Some t
      else if \<not> it_Valid I (tl_index_iter t) then Some (SetDataIterator D None t)
      else SkipEmptyDataBlocksForward I D bf
             (on_data (it_SeekToFirst D) (InitDataBlock I D bf (on_index (it_Next I) t))))"

partial_function (option) SkipEmptyDataBlocksBackward ::
  "'i Iterator \<Rightarrow> 'd Iterator \<Rightarrow> (bytes \<Rightarrow> 'd) \<Rightarrow> ('i, 'd) TwoLevelIterator \<Rightarrow> ('i, 'd) TwoLevelIterator option" where
  "SkipEmptyDataBlocksBackward I D bf t =
     (if data_valid D t then Some t
      else if \<not> it_Valid I (tl_index_iter t) then Some (SetDataIterator D None t)
      else SkipEmptyDataBlocksBackward I D bf
             (on_data (it_SeekToLast D) (InitDataBlock I D bf (on_index (it_Prev I) t))))"

definition TwoLevel_Seek ::
  "'i Iterator \<Rightarrow> 'd Iterator \<Rightarrow> (bytes \<Rightarrow> 'd) \<Rightarrow> bytes \<Rightarrow> ('i, 'd) TwoLevelIterator \<Rightarrow> ('i, 'd) TwoLevelIterator option" where
  "TwoLevel_Seek I D bf target t =
     SkipEmptyDataBlocksForward I D bf
       (on_data (it_Seek D target) (InitDataBlock I D bf (on_index (it_Seek I target) t)))"

definition TwoLevel_SeekToFirst ::
  "'i Iterator \<Rightarrow> 'd Iterator \<Rightarrow> (bytes \<Rightarrow> 'd) \<Rightarrow> ('i, 'd) TwoLevelIterator \<Rightarrow> ('i, 'd) TwoLevelIterator option" where
  "TwoLevel_SeekToFirst I D bf t =
     SkipEmptyDataBlocksForward I D bf
       (on_data (it_SeekToFirst D) (InitDataBlock I D bf (on_index (it_SeekToFirst I) t)))"

definition TwoLevel_SeekToLast ::
  "'i Iterator \<Rightarrow> 'd Iterator \<Rightarrow> (bytes \<Rightarrow> 'd) \<Rightarrow> ('i, 'd) TwoLevelIterator \<Rightarrow> ('i, 'd) TwoLevelIterator option" where
  "TwoLevel_SeekToLast I D bf t =
     SkipEmptyDataBlocksBackward I D bf
       (on_data (it_SeekToLast D) (InitDataBlock I D bf (on_index (it_SeekToLast I) t)))"

definition TwoLevel_Next ::
  "'i Iterator \<Rightarrow> 'd Iterator \<Rightarrow> (bytes \<Rightarrow> 'd) \<Rightarrow> ('i, 'd) TwoLevelIterator \<Rightarrow> ('i, 'd) TwoLevelIterator option" where
  "TwoLevel_Next I D bf t = SkipEmptyDataBlocksForward I D bf (on_data (it_Next D) t)"

definition TwoLevel_Prev ::
  "'i Iterator \<Rightarrow> 'd Iterator \<Rightarrow> (bytes \<Rightarrow> 'd) \<Rightarrow> ('i, 'd) TwoLevelIterator \<Rightarrow> ('i, 'd) TwoLevelIterator option" where
  "TwoLevel_Prev I D bf t = SkipEmptyDataBlocksBackward I D bf (on_data (it_Prev D) t)"

definition TwoLevel_key :: "'d Iterator \<Rightarrow> ('i, 'd) TwoLevelIterator \<Rightarrow> bytes" where
  "TwoLevel_key D t = (case tl_data_iter t of None \<Rightarrow> [] | Some d \<Rightarrow> it_key D d)"

definition TwoLevel_value :: "'d Iterator \<Rightarrow> ('i, 'd) TwoLevelIterator \<Rightarrow> bytes" where
  "TwoLevel_value D t = (case tl_data_iter t of None \<Rightarrow> [] | Some d \<Rightarrow> it_value D d)"

definition TwoLevel_status :: "'i Iterator \<Rightarrow> 'd Iterator \<Rightarrow> ('i, 'd) TwoLevelIterator \<Rightarrow> Status" where
  "TwoLevel_status I D t =
     (if \<not> Status_ok (it_status I (tl_index_iter t)) then it_status I (tl_index_iter t)
      else case tl_data_iter t of
             None \<Rightarrow> tl_status t
           | Some d \<Rightarrow> if \<not> Status_ok (it_status D d) then it_status D d else tl_status t)"

text \<open>
  The iterator as a record of operations.  Its state is an option: \<^term>\<open>None\<close> is a call that did not
  return.
\<close>

definition two_level_iter ::
  "'i Iterator \<Rightarrow> 'd Iterator \<Rightarrow> (bytes \<Rightarrow> 'd) \<Rightarrow> ('i, 'd) TwoLevelIterator option Iterator" where
  "two_level_iter I D bf =
     \<lparr>it_Valid = (\<lambda>t. case t of None \<Rightarrow> False | Some t \<Rightarrow> data_valid D t),
      it_SeekToFirst = (\<lambda>t. Option.bind t (TwoLevel_SeekToFirst I D bf)),
      it_SeekToLast = (\<lambda>t. Option.bind t (TwoLevel_SeekToLast I D bf)),
      it_Seek = (\<lambda>target t. Option.bind t (TwoLevel_Seek I D bf target)),
      it_Next = (\<lambda>t. Option.bind t (TwoLevel_Next I D bf)),
      it_Prev = (\<lambda>t. Option.bind t (TwoLevel_Prev I D bf)),
      it_key = (\<lambda>t. TwoLevel_key D (the t)), it_value = (\<lambda>t. TwoLevel_value D (the t)),
      it_status = (\<lambda>t. TwoLevel_status I D (the t))\<rparr>"


subsection \<open>The contract\<close>

locale two_level =
  index: kv_iterator ok Compare I iat + data: kv_iterator ok Compare D dat
  for ok :: "bytes \<Rightarrow> bool" and Compare :: "bytes \<Rightarrow> bytes \<Rightarrow> int"
    and I :: "'i Iterator" and iat :: "'i \<Rightarrow> entry list \<Rightarrow> nat \<Rightarrow> bool"
    and D :: "'d Iterator" and dat :: "'d \<Rightarrow> entry list \<Rightarrow> nat \<Rightarrow> bool" +
  fixes bf :: "bytes \<Rightarrow> 'd"
begin

text \<open>
  \<open>ct\<close> gives the entries of the block of a handle.  The key of an index entry is not before any key of
  its block and before all keys of the later blocks.
\<close>

definition index_ok :: "(bytes \<Rightarrow> entry list) \<Rightarrow> entry list \<Rightarrow> bool" where
  "index_ok ct idx \<longleftrightarrow>
     (\<forall>x\<in>set idx. \<exists>q. dat (bf (snd x)) (ct (snd x)) q) \<and>
     (\<forall>x\<in>set idx. \<forall>e\<in>set (ct (snd x)). \<not> Compare (fst x) (fst e) < 0) \<and>
     sorted_wrt (\<lambda>x y. \<forall>e\<in>set (ct (snd y)). Compare (fst x) (fst e) < 0) idx"

definition flat :: "(bytes \<Rightarrow> entry list) \<Rightarrow> entry list \<Rightarrow> entry list" where
  "flat ct idx = concat (map (\<lambda>x. ct (snd x)) idx)"

text \<open>The data iterator, when there is one, is over the block of its handle.\<close>

definition tl_rep :: "(bytes \<Rightarrow> entry list) \<Rightarrow> entry list \<Rightarrow> nat \<Rightarrow> ('i, 'd) TwoLevelIterator \<Rightarrow> bool" where
  "tl_rep ct idx p t \<longleftrightarrow> iat (tl_index_iter t) idx p \<and> index_ok ct idx \<and> index.sorted_entries (flat ct idx) \<and>
     Status_ok (tl_status t) \<and>
     (case tl_data_iter t of None \<Rightarrow> True | Some d \<Rightarrow> \<exists>q. dat d (ct (tl_data_block_handle t)) q)"

definition tl_pos :: "(bytes \<Rightarrow> entry list) \<Rightarrow> entry list \<Rightarrow> nat \<Rightarrow> nat \<Rightarrow> ('i, 'd) TwoLevelIterator \<Rightarrow> bool" where
  "tl_pos ct idx p q t \<longleftrightarrow> tl_rep ct idx p t \<and>
     (if p < length idx
      then tl_data_block_handle t = snd (idx ! p) \<and> (\<exists>d. tl_data_iter t = Some d \<and> dat d (ct (snd (idx ! p))) q)
      else tl_data_iter t = None \<and> q = 0)"

definition tl_off :: "(bytes \<Rightarrow> entry list) \<Rightarrow> entry list \<Rightarrow> nat \<Rightarrow> nat" where
  "tl_off ct idx p = length (flat ct (take p idx))"

definition two_level_at :: "('i, 'd) TwoLevelIterator option \<Rightarrow> entry list \<Rightarrow> nat \<Rightarrow> bool" where
  "two_level_at ot es i \<longleftrightarrow> (\<exists>t ct idx p q. ot = Some t \<and> es = flat ct idx \<and> tl_rep ct idx p t \<and>
     (if i < length es
      then p < length idx \<and> q < length (ct (snd (idx ! p))) \<and> tl_pos ct idx p q t \<and> i = tl_off ct idx p + q
      else i = length es \<and> tl_data_iter t = None))"

lemma flat_split:
  assumes "p < length idx"
  shows "flat ct idx = flat ct (take p idx) @ ct (snd (idx ! p)) @ flat ct (drop (Suc p) idx)"
  using arg_cong [OF id_take_nth_drop [OF assms], of "flat ct"] by (simp add: flat_def)

lemma tl_off_Suc: "p < length idx \<Longrightarrow> tl_off ct idx (Suc p) = tl_off ct idx p + length (ct (snd (idx ! p)))"
  by (simp add: tl_off_def flat_def take_Suc_conv_app_nth)

lemma tl_off_end: "length idx \<le> p \<Longrightarrow> tl_off ct idx p = length (flat ct idx)"
  by (simp add: tl_off_def)

lemma tl_off_0 [simp]: "tl_off ct idx 0 = 0"
  by (simp add: tl_off_def flat_def)

lemma tl_off_less: "p < length idx \<Longrightarrow> q < length (ct (snd (idx ! p))) \<Longrightarrow> tl_off ct idx p + q < length (flat ct idx)"
  using flat_split [of p idx ct] by (simp add: tl_off_def)

lemma flat_nth: "p < length idx \<Longrightarrow> q < length (ct (snd (idx ! p))) \<Longrightarrow> flat ct idx ! (tl_off ct idx p + q) = ct (snd (idx ! p)) ! q"
  using flat_split [of p idx ct] by (simp add: tl_off_def nth_append)

lemma SetData_simps [simp]:
  "tl_index_iter (SetDataIterator D d t) = tl_index_iter t" "tl_data_iter (SetDataIterator D d t) = d"
  "tl_data_block_handle (SetDataIterator D d t) = tl_data_block_handle t"
  "tl_status (SetDataIterator D d (t\<lparr>tl_data_block_handle := h\<rparr>)) = tl_status (SetDataIterator D d t)"
  by (simp_all add: SetDataIterator_def SaveError_def Let_def split: option.splits)

lemma SetData_status:
  assumes "tl_rep ct idx p t"
  shows "Status_ok (tl_status (SetDataIterator D d t))"
  using assms data.status_at by (auto simp: SetDataIterator_def SaveError_def tl_rep_def Let_def split: option.splits)

text \<open>After \<^verbatim>\<open>InitDataBlock\<close> the data iterator is over the block at the index.\<close>

lemma InitDataBlock_rep:
  assumes "tl_rep ct idx p t"
  shows "\<exists>q. tl_pos ct idx p q (InitDataBlock I D bf t)"
proof (cases "p < length idx")
  case True
  let ?h = "snd (idx ! p)"
  have at: "iat (tl_index_iter t) idx p" "index_ok ct idx" using assms by (simp_all add: tl_rep_def)
  have v: "it_Valid I (tl_index_iter t)" "it_value I (tl_index_iter t) = ?h"
    using index.Valid_at [OF at(1)] index.value_at [OF at(1)] True by simp_all
  show ?thesis
  proof (cases "tl_data_iter t \<noteq> None \<and> ?h = tl_data_block_handle t")
    case T: True
    then have "InitDataBlock I D bf t = t" by (auto simp: InitDataBlock_def v Let_def Slice_compare_0)
    then show ?thesis using T True assms by (auto simp: tl_pos_def tl_rep_def)
  next
    case False
    then have *: "InitDataBlock I D bf t = SetDataIterator D (Some (bf ?h)) (t\<lparr>tl_data_block_handle := ?h\<rparr>)"
      by (auto simp: InitDataBlock_def v Let_def Slice_compare_0)
    obtain q where q: "dat (bf ?h) (ct ?h) q" using at(2) True nth_mem unfolding index_ok_def by blast
    have "Status_ok (tl_status (SetDataIterator D (Some (bf ?h)) (t\<lparr>tl_data_block_handle := ?h\<rparr>)))"
      using SetData_status [OF assms, of "Some (bf ?h)"] by simp
    then show ?thesis using True q assms unfolding * tl_pos_def by (auto simp: tl_rep_def)
  qed
next
  case False
  then have "InitDataBlock I D bf t = SetDataIterator D None t"
    using assms index.Valid_at by (auto simp: InitDataBlock_def tl_rep_def)
  then show ?thesis using False SetData_status [OF assms, of None] assms by (auto simp: tl_pos_def tl_rep_def)
qed

lemma on_index_rep: "tl_rep ct idx p t \<Longrightarrow> iat (f (tl_index_iter t)) idx p' \<Longrightarrow> tl_rep ct idx p' (on_index f t)"
  by (auto simp: tl_rep_def on_index_def split: option.splits)

lemma on_data_pos:
  assumes "tl_pos ct idx p q t" and "\<And>d. p < length idx \<Longrightarrow> dat d (ct (snd (idx ! p))) q \<Longrightarrow> dat (f d) (ct (snd (idx ! p))) q'"
    and "\<not> p < length idx \<Longrightarrow> q' = 0"
  shows "tl_pos ct idx p q' (on_data f t)"
  using assms by (auto simp: tl_pos_def tl_rep_def on_data_def split: if_splits option.splits)

text \<open>Moving the index, making the block's iterator and positioning it, as all operations but \<^verbatim>\<open>Next\<close> and \<^verbatim>\<open>Prev\<close> start.\<close>

lemma reposition:
  assumes "tl_rep ct idx p t" and "iat (f (tl_index_iter t)) idx p'"
    and "\<And>d q. p' < length idx \<Longrightarrow> dat d (ct (snd (idx ! p'))) q \<Longrightarrow> dat (g d) (ct (snd (idx ! p'))) q'"
    and "\<not> p' < length idx \<Longrightarrow> q' = 0"
  shows "tl_pos ct idx p' q' (on_data g (InitDataBlock I D bf (on_index f t)))"
  using InitDataBlock_rep [OF on_index_rep [where f = f, OF assms(1,2)]] on_data_pos assms(3,4) by blast

lemma tl_pos_rep: "tl_pos ct idx p q t \<Longrightarrow> tl_rep ct idx p t"
  by (simp add: tl_pos_def)

lemma data_valid_pos: "tl_pos ct idx p q t \<Longrightarrow> data_valid D t \<longleftrightarrow> p < length idx \<and> q < length (ct (snd (idx ! p)))"
  using data.Valid_at by (auto simp: tl_pos_def data_valid_def split: if_splits)

lemma index_valid_pos: "tl_rep ct idx p t \<Longrightarrow> it_Valid I (tl_index_iter t) \<longleftrightarrow> p < length idx"
  using index.Valid_at by (auto simp: tl_rep_def)

lemma finished: "tl_rep ct idx p t \<Longrightarrow> two_level_at (Some (SetDataIterator D None t)) (flat ct idx) (length (flat ct idx))"
  using SetData_status [of ct idx p t None] unfolding two_level_at_def
  by (auto simp: tl_rep_def intro!: exI [of _ ct] exI [of _ idx] exI [of _ p])

lemma positioned: "tl_pos ct idx p q t \<Longrightarrow> p < length idx \<Longrightarrow> q < length (ct (snd (idx ! p))) \<Longrightarrow>
    two_level_at (Some t) (flat ct idx) (tl_off ct idx p + q)"
  using tl_off_less [of p idx q ct] tl_pos_rep [of ct idx p q t] unfolding two_level_at_def by fastforce

lemma SkipForward_at:
  "tl_pos ct idx p q t \<Longrightarrow>
    two_level_at (SkipEmptyDataBlocksForward I D bf t) (flat ct idx) (tl_off ct idx p + q)"
proof (induction "length idx - p" arbitrary: p q t)
  case 0
  note pos = 0(2)
  have p: "\<not> p < length idx" using 0(1) by simp
  then have "\<not> data_valid D t" "\<not> it_Valid I (tl_index_iter t)" "q = 0"
    using data_valid_pos [OF pos] index_valid_pos [OF tl_pos_rep [OF pos]] pos by (auto simp: tl_pos_def)
  then show ?case
    using p finished [OF tl_pos_rep [OF pos]] by (simp add: SkipEmptyDataBlocksForward.simps [of I D bf t] tl_off_end)
next
  case (Suc n)
  note pos = Suc.prems and rep = tl_pos_rep [OF Suc.prems]
  have p: "p < length idx" using Suc.hyps(2) by simp
  show ?case
  proof (cases "q < length (ct (snd (idx ! p)))")
    case True
    then show ?thesis
      using positioned [OF pos p] data_valid_pos [OF pos] p by (simp add: SkipEmptyDataBlocksForward.simps [of I D bf t])
  next
    case False
    let ?t = "on_data (it_SeekToFirst D) (InitDataBlock I D bf (on_index (it_Next I) t))"
    have "tl_pos ct idx (Suc p) 0 ?t"
    proof (rule reposition [OF rep])
      show "iat (it_Next I (tl_index_iter t)) idx (Suc p)" using index.Next_at rep p by (simp add: tl_rep_def)
    qed (auto intro: data.SeekToFirst_at)
    from Suc.hyps(1) [OF _ this] have "two_level_at (SkipEmptyDataBlocksForward I D bf ?t) (flat ct idx) (tl_off ct idx (Suc p) + 0)"
      using Suc.hyps(2) by simp
    moreover have "q = length (ct (snd (idx ! p)))"
      using False pos p data.at_le unfolding tl_pos_def by force
    ultimately show ?thesis
      using False p data_valid_pos [OF pos] index_valid_pos [OF rep]
      by (simp add: SkipEmptyDataBlocksForward.simps [of I D bf t] tl_off_Suc)
  qed
qed

lemma SkipBackward_at:
  assumes "tl_pos ct idx p q t" and "p \<le> length idx"
  shows "two_level_at (SkipEmptyDataBlocksBackward I D bf t) (flat ct idx)
     (if p < length idx \<and> q < length (ct (snd (idx ! p))) then tl_off ct idx p + q
      else if p < length idx then before (tl_off ct idx p) (flat ct idx) else length (flat ct idx))"
  using assms
proof (induction "if p < length idx then Suc p else 0" arbitrary: p q t)
  case 0
  note pos = 0(2)
  have p: "\<not> p < length idx" using 0(1) by (simp split: if_splits)
  then have "\<not> data_valid D t" "\<not> it_Valid I (tl_index_iter t)"
    using data_valid_pos [OF pos] index_valid_pos [OF tl_pos_rep [OF pos]] by simp_all
  then show ?case
    using p finished [OF tl_pos_rep [OF pos]] by (simp add: SkipEmptyDataBlocksBackward.simps [of I D bf t])
next
  case (Suc n)
  note pos = Suc.prems(1) and rep = tl_pos_rep [OF Suc.prems(1)]
  have p: "p < length idx" "n = p" using Suc.hyps(2) by (simp_all split: if_splits)
  show ?case
  proof (cases "q < length (ct (snd (idx ! p)))")
    case True
    then show ?thesis
      using positioned [OF pos p(1)] data_valid_pos [OF pos] p by (simp add: SkipEmptyDataBlocksBackward.simps [of I D bf t])
  next
    case False
    let ?t = "on_data (it_SeekToLast D) (InitDataBlock I D bf (on_index (it_Prev I) t))"
    let ?p = "if p = 0 then length idx else p - 1"
    let ?q = "if p = 0 then 0 else length (ct (snd (idx ! (p - 1)))) - 1"
    have "tl_pos ct idx ?p ?q ?t"
    proof (rule reposition [OF rep])
      show "iat (it_Prev I (tl_index_iter t)) idx ?p" using index.Prev_at rep p(1) by (simp add: tl_rep_def)
      show "dat (it_SeekToLast D d) (ct (snd (idx ! ?p))) ?q" if "?p < length idx" "dat d (ct (snd (idx ! ?p))) q'" for d q'
        using data.SeekToLast_at [OF that(2)] that(1) by (simp split: if_splits)
    qed (use p in \<open>simp split: if_splits\<close>)
    moreover have "n = (if ?p < length idx then Suc ?p else 0)" "?p \<le> length idx" using p by auto
    ultimately have IH: "two_level_at (SkipEmptyDataBlocksBackward I D bf ?t) (flat ct idx)
     (if ?p < length idx \<and> ?q < length (ct (snd (idx ! ?p))) then tl_off ct idx ?p + ?q
      else if ?p < length idx then before (tl_off ct idx ?p) (flat ct idx) else length (flat ct idx))"
      by (intro Suc.hyps(1))
    have step: "SkipEmptyDataBlocksBackward I D bf t = SkipEmptyDataBlocksBackward I D bf ?t"
      using False p(1) data_valid_pos [OF pos] index_valid_pos [OF rep]
      by (simp add: SkipEmptyDataBlocksBackward.simps [of I D bf t])
    show ?thesis
    proof (cases p)
      case 0
      then show ?thesis using IH step False p(1) by (simp add: before_def)
    next
      case (Suc k)
      then have "tl_off ct idx p = tl_off ct idx k + length (ct (snd (idx ! k)))" using p(1) by (simp add: tl_off_Suc)
      then show ?thesis using IH step False p(1) Suc by (cases "ct (snd (idx ! k))") (simp_all add: before_def)
    qed
  qed
qed

text \<open>A seek in the index and one in the block give a seek in the concatenation.\<close>

lemma flat_seek:
  assumes idx: "index_ok ct idx" "index.sorted_entries idx" and srt: "index.sorted_entries (flat ct idx)" and ok: "ok target"
  defines "p \<equiv> seek_pos Compare idx target"
  shows "seek_pos Compare (flat ct idx) target =
     tl_off ct idx p + (if p < length idx then seek_pos Compare (ct (snd (idx ! p))) target else 0)"
proof -
  let ?P = "\<lambda>e. Compare (fst e) target < 0"
  have okI: "ok (fst x)" if "x \<in> set idx" for x using idx(2) that by (auto simp: index.sorted_entries_def)
  have okE: "ok (fst e)" if "x \<in> set idx" "e \<in> set (ct (snd x))" for x e
    using srt that by (auto simp: index.sorted_entries_def flat_def)
  have le: "\<not> Compare (fst x) (fst e) < 0" if "x \<in> set idx" "e \<in> set (ct (snd x))" for x e
    using idx(1) that by (simp add: index_ok_def)
  have pre: "?P e" if e: "e \<in> set (flat ct (take p idx))" for e
  proof -
    obtain x where x: "x \<in> set (take p idx)" "e \<in> set (ct (snd x))" using e by (auto simp: flat_def)
    have "?P x" using x(1) set_takeWhileD [of x ?P idx] by (simp add: p_def seek_pos_def takeWhile_eq_take [symmetric])
    moreover have "x \<in> set idx" using x(1) in_set_takeD by fastforce
    ultimately show ?thesis using index.not_less_trans [of "fst e" "fst x" target] le okI okE x(2) ok by blast
  qed
  show ?thesis
  proof (cases "p < length idx")
    case True
    let ?x = "idx ! p"
    have x: "?x \<in> set idx" "\<not> ?P ?x" using True tw_at [of ?P idx] by (simp_all add: p_def seek_pos_tw)
    have post: "\<not> ?P e" if e: "e \<in> set (flat ct (drop (Suc p) idx))" for e
    proof -
      obtain y where y: "y \<in> set (drop (Suc p) idx)" "e \<in> set (ct (snd y))" using e by (auto simp: flat_def)
      then obtain m where "m < length idx - Suc p" "y = idx ! (Suc p + m)" by (auto simp: in_set_conv_nth)
      then have j: "p < Suc p + m" "Suc p + m < length idx" "e \<in> set (ct (snd (idx ! (Suc p + m))))" using y(2) by auto
      then have "Compare (fst ?x) (fst e) < 0" using idx(1) unfolding index_ok_def sorted_wrt_iff_nth_less by blast
      then show ?thesis using index.Compare_trans [of "fst ?x" "fst e" target] x(2) okI [OF x(1)] okE [OF nth_mem [OF j(2)] j(3)] ok by blast
    qed
    have rest: "takeWhile ?P (flat ct (drop (Suc p) idx)) = []"
      using post by (cases "flat ct (drop (Suc p) idx)") auto
    show ?thesis
      using True rest pre
      by (auto simp: seek_pos_def flat_split [OF True] tl_off_def takeWhile_append takeWhile_eq_all_conv [THEN iffD2])
  next
    case False
    then show ?thesis using pre by (simp add: seek_pos_def tl_off_def takeWhile_eq_all_conv [THEN iffD2])
  qed
qed

text \<open>The entry at a position.\<close>

lemma two_level_entry:
  assumes "two_level_at ot es i" and "i < length es"
  shows "\<exists>t d. ot = Some t \<and> tl_data_iter t = Some d \<and> it_Valid D d \<and> it_key D d = fst (es ! i) \<and> it_value D d = snd (es ! i)"
proof -
  from assms obtain t ct idx p q where t: "ot = Some t" "es = flat ct idx" "p < length idx" "q < length (ct (snd (idx ! p)))"
    "tl_pos ct idx p q t" "i = tl_off ct idx p + q" by (auto simp: two_level_at_def)
  then obtain d where d: "tl_data_iter t = Some d" "dat d (ct (snd (idx ! p))) q" by (auto simp: tl_pos_def)
  then show ?thesis
    using t data.Valid_at [OF d(2)] data.key_at [OF d(2)] data.value_at [OF d(2)] flat_nth [of p idx q ct] by simp
qed

lemma two_level_rep:
  assumes "two_level_at ot es i"
  obtains t ct idx p where "ot = Some t" "es = flat ct idx" "tl_rep ct idx p t"
  using assms by (auto simp: two_level_at_def)

lemma two_level_Seek:
  assumes "two_level_at ot es i" and "ok target"
  shows "two_level_at (it_Seek (two_level_iter I D bf) target ot) es (seek_pos Compare es target)"
proof -
  from two_level_rep [OF assms(1)] obtain t ct idx p where t: "ot = Some t" "es = flat ct idx" "tl_rep ct idx p t" .
  let ?p = "seek_pos Compare idx target"
  let ?q = "if ?p < length idx then seek_pos Compare (ct (snd (idx ! ?p))) target else 0"
  have r: "iat (tl_index_iter t) idx p" "index_ok ct idx" "index.sorted_entries es" using t by (simp_all add: tl_rep_def)
  have "tl_pos ct idx ?p ?q (on_data (it_Seek D target) (InitDataBlock I D bf (on_index (it_Seek I target) t)))"
    by (rule reposition [OF t(3)]) (use index.Seek_at [OF r(1) assms(2)] data.Seek_at assms(2) in auto)
  from SkipForward_at [OF this] show ?thesis
    using flat_seek [OF r(2) index.at_sorted [OF r(1)] _ assms(2)] r(3) t(1,2) by (simp add: two_level_iter_def TwoLevel_Seek_def)
qed

lemma two_level_SeekToFirst:
  assumes "two_level_at ot es i"
  shows "two_level_at (it_SeekToFirst (two_level_iter I D bf) ot) es 0"
proof -
  from two_level_rep [OF assms(1)] obtain t ct idx p where t: "ot = Some t" "es = flat ct idx" "tl_rep ct idx p t" .
  have r: "iat (tl_index_iter t) idx p" using t by (simp add: tl_rep_def)
  have "tl_pos ct idx 0 0 (on_data (it_SeekToFirst D) (InitDataBlock I D bf (on_index (it_SeekToFirst I) t)))"
    by (rule reposition [OF t(3)]) (use index.SeekToFirst_at [OF r] data.SeekToFirst_at in auto)
  from SkipForward_at [OF this] show ?thesis using t(1,2) by (simp add: two_level_iter_def TwoLevel_SeekToFirst_def)
qed

lemma two_level_SeekToLast:
  assumes "two_level_at ot es i"
  shows "two_level_at (it_SeekToLast (two_level_iter I D bf) ot) es (length es - 1)"
proof -
  from two_level_rep [OF assms(1)] obtain t ct idx p where t: "ot = Some t" "es = flat ct idx" "tl_rep ct idx p t" .
  let ?p = "length idx - 1"
  let ?q = "if ?p < length idx then length (ct (snd (idx ! ?p))) - 1 else 0"
  have r: "iat (tl_index_iter t) idx p" using t by (simp add: tl_rep_def)
  have pos: "tl_pos ct idx ?p ?q (on_data (it_SeekToLast D) (InitDataBlock I D bf (on_index (it_SeekToLast I) t)))"
    by (rule reposition [OF t(3)]) (use index.SeekToLast_at [OF r] data.SeekToLast_at in auto)
  have "length es = (if idx = [] then 0 else tl_off ct idx ?p + length (ct (snd (idx ! ?p))))"
    using tl_off_Suc [of ?p idx ct] tl_off_end [of idx "Suc ?p" ct] t(2) by (auto simp: flat_def)
  then show ?thesis
    using SkipBackward_at [OF pos] t(1,2)
    by (cases "ct (snd (idx ! ?p))") (auto simp: two_level_iter_def TwoLevel_SeekToLast_def before_def split: if_splits)
qed

lemma two_level_Next_Prev:
  assumes "two_level_at ot es i" and i: "i < length es"
  shows "two_level_at (it_Next (two_level_iter I D bf) ot) es (Suc i)"
    and "two_level_at (it_Prev (two_level_iter I D bf) ot) es (before i es)"
proof -
  from assms obtain t ct idx p q where t: "ot = Some t" "es = flat ct idx" "p < length idx" "q < length (ct (snd (idx ! p)))"
    "tl_pos ct idx p q t" "i = tl_off ct idx p + q" by (auto simp: two_level_at_def)
  have "tl_pos ct idx p (Suc q) (on_data (it_Next D) t)"
    using t(3,4) data.Next_at by (intro on_data_pos [OF t(5)]) auto
  from SkipForward_at [OF this] show "two_level_at (it_Next (two_level_iter I D bf) ot) es (Suc i)"
    using t by (simp add: two_level_iter_def TwoLevel_Next_def)
  have "tl_pos ct idx p (before q (ct (snd (idx ! p)))) (on_data (it_Prev D) t)"
    using t(3,4) data.Prev_at unfolding before_def by (intro on_data_pos [OF t(5)]) auto
  from SkipBackward_at [OF this] show "two_level_at (it_Prev (two_level_iter I D bf) ot) es (before i es)"
    using t by (auto simp: two_level_iter_def TwoLevel_Prev_def before_def split: if_splits)
qed

theorem two_level_contract: "kv_iterator ok Compare (two_level_iter I D bf) two_level_at"
proof unfold_locales
  fix ot es i assume at: "two_level_at ot es i"
  from two_level_rep [OF at] obtain t ct idx p where t: "ot = Some t" "es = flat ct idx" "tl_rep ct idx p t" .
  show "i \<le> length es" using at by (auto simp: two_level_at_def split: if_splits)
  show "index.sorted_entries es" using t by (simp add: tl_rep_def)
  show "it_Valid (two_level_iter I D bf) ot \<longleftrightarrow> i < length es"
  proof (cases "i < length es")
    case True
    then show ?thesis using two_level_entry [OF at] by (auto simp: two_level_iter_def data_valid_def)
  next
    case False
    then show ?thesis using at by (auto simp: two_level_at_def two_level_iter_def data_valid_def)
  qed
  show "Status_ok (it_status (two_level_iter I D bf) ot)"
    using t index.status_at data.status_at
    by (auto simp: two_level_iter_def TwoLevel_status_def tl_rep_def split: option.splits)
  show "two_level_at (it_SeekToFirst (two_level_iter I D bf) ot) es 0" by (rule two_level_SeekToFirst [OF at])
  show "two_level_at (it_SeekToLast (two_level_iter I D bf) ot) es (length es - 1)" by (rule two_level_SeekToLast [OF at])
  show "two_level_at (it_Seek (two_level_iter I D bf) target ot) es (seek_pos Compare es target)" if "ok target" for target
    by (rule two_level_Seek [OF at that])
  assume i: "i < length es"
  show "it_key (two_level_iter I D bf) ot = fst (es ! i)" "it_value (two_level_iter I D bf) ot = snd (es ! i)"
    using two_level_entry [OF at i] by (auto simp: two_level_iter_def TwoLevel_key_def TwoLevel_value_def)
  show "two_level_at (it_Next (two_level_iter I D bf) ot) es (Suc i)"
    "two_level_at (it_Prev (two_level_iter I D bf) ot) es (if i = 0 then length es else i - 1)"
    using two_level_Next_Prev [OF at i] by (simp_all add: before_def)
qed

text \<open>A new iterator has no data iterator: it is past the end until it is positioned.\<close>

lemma NewTwoLevelIterator_at:
  "iat s idx p \<Longrightarrow> index_ok ct idx \<Longrightarrow> index.sorted_entries (flat ct idx) \<Longrightarrow>
    two_level_at (Some (NewTwoLevelIterator s)) (flat ct idx) (length (flat ct idx))"
  unfolding two_level_at_def
  by (auto simp: tl_rep_def NewTwoLevelIterator_def Status_ok_def Status_OK_def intro!: exI [of _ ct] exI [of _ idx] exI [of _ p])

end

end
