(* ===== verification/Logging.thy ===== *)
theory Logging
  imports Prelude
begin

text \<open>
  Printing and reading of numbers and strings (\<^verbatim>\<open>App/integration/logging.cpp\<close>).  Reading a decimal number
  detects overflow of 64 bits.
\<close>

text \<open>\<^verbatim>\<open>%llu\<close> and \<^verbatim>\<open>%02x\<close> of \<^verbatim>\<open>snprintf\<close>.\<close>

fun decimal :: "nat \<Rightarrow> string" where
  "decimal n = (if n < 10 then [char_of (48 + n)] else decimal (n div 10) @ [char_of (48 + n mod 10)])"

declare decimal.simps [simp del]

definition hex_digit :: "nat \<Rightarrow> char" where
  "hex_digit d = (if d < 10 then char_of (48 + d) else char_of (87 + d))"

definition AppendNumberTo :: "string \<Rightarrow> uint64 \<Rightarrow> string" where
  "AppendNumberTo s num = s @ decimal (unat num)"

definition NumberToString :: "uint64 \<Rightarrow> string" where
  "NumberToString num = AppendNumberTo [] num"

text \<open>Bytes from 128 on are negative as \<^verbatim>\<open>char\<close>s and so escaped like control characters.\<close>

primrec AppendEscapedStringTo :: "string \<Rightarrow> bytes \<Rightarrow> string" where
  "AppendEscapedStringTo s [] = s"
| "AppendEscapedStringTo s (c # value) =
     AppendEscapedStringTo
       (if 32 \<le> unat c \<and> unat c \<le> 126 then s @ [char_of (unat c)]
        else s @ [char_of (92 :: nat), CHR ''x'', hex_digit (unat c div 16), hex_digit (unat c mod 16)]) value"

definition EscapeString :: "bytes \<Rightarrow> string" where
  "EscapeString val = AppendEscapedStringTo [] val"

definition is_digit :: "char \<Rightarrow> bool" where
  "is_digit c \<longleftrightarrow> 48 \<le> (of_char c :: nat) \<and> (of_char c :: nat) \<le> 57"

definition kMaxUint64 :: uint64 where
  "kMaxUint64 = - 1"

text \<open>The number and the rest of the input, or \<open>None\<close> when there is no digit or the number is too large.\<close>

fun ConsumeDecimal_loop :: "string \<Rightarrow> uint64 \<Rightarrow> nat \<Rightarrow> (uint64 \<times> string) option" where
  "ConsumeDecimal_loop [] v digits = (if digits > 0 then Some (v, []) else None)"
| "ConsumeDecimal_loop (c # rest) v digits =
     (if is_digit c
      then (let delta = of_nat (of_char c - 48) :: uint64
            in if v > kMaxUint64 div 10 \<or> (v = kMaxUint64 div 10 \<and> delta > kMaxUint64 mod 10) then None
               else ConsumeDecimal_loop rest (v * 10 + delta) (digits + 1))
      else if digits > 0 then Some (v, c # rest) else None)"

definition ConsumeDecimalNumber :: "string \<Rightarrow> (uint64 \<times> string) option" where
  "ConsumeDecimalNumber input = ConsumeDecimal_loop input 0 0"

subsection \<open>Reading back a printed number\<close>

definition digits_value :: "nat \<Rightarrow> string \<Rightarrow> nat" where
  "digits_value v ds = foldl (\<lambda>v c. v * 10 + (of_char c - 48)) v ds"

lemma digits_value_simps [simp]:
  "digits_value v [] = v" "digits_value v (c # ds) = digits_value (v * 10 + (of_char c - 48)) ds"
  "digits_value v (ds @ es) = digits_value (digits_value v ds) es"
  by (simp_all add: digits_value_def)

lemma digits_value_ge: "v \<le> digits_value v ds"
proof (induction ds arbitrary: v)
  case (Cons c ds)
  show ?case using Cons [of "v * 10 + (of_char c - 48)"] by simp
qed simp

lemma Consume_overflow_test:
  fixes v delta :: uint64
  assumes "unat delta < 10"
  shows "(v > kMaxUint64 div 10 \<or> (v = kMaxUint64 div 10 \<and> delta > kMaxUint64 mod 10)) \<longleftrightarrow>
    2 ^ 64 \<le> unat v * 10 + unat delta"
proof -
  have k: "unat (kMaxUint64 div 10) = 1844674407370955161" "unat (kMaxUint64 mod 10) = 5"
    by (simp_all add: kMaxUint64_def unat_div_distrib unat_mod_distrib unsigned_minus_1_eq_mask mask_eq_exp_minus_1)
  show ?thesis using assms unfolding word_less_nat_alt word_unat_eq_iff k by auto
qed

lemma ConsumeDecimal_loop_digits:
  assumes "\<forall>c\<in>set ds. is_digit c" and "digits_value (unat v) ds < 2 ^ 64"
    and "rest = [] \<or> \<not> is_digit (hd rest)" and "0 < n \<or> ds \<noteq> []"
  shows "ConsumeDecimal_loop (ds @ rest) v n = Some (of_nat (digits_value (unat v) ds), rest)"
  using assms
proof (induction ds arbitrary: v n)
  case Nil
  then show ?case by (cases rest) auto
next
  case (Cons c ds)
  let ?d = "of_nat (of_char c - 48) :: uint64"
  have c: "is_digit c" "of_char c - 48 < (10 :: nat)" using Cons.prems(1) by (auto simp: is_digit_def)
  then have d: "unat ?d = of_char c - 48" by (intro unat_of_nat_small) simp
  have "unat v * 10 + unat ?d < 2 ^ 64"
    using Cons.prems(2) digits_value_ge [of "unat v * 10 + unat ?d" ds] d by simp
  then have nov: "\<not> (v > kMaxUint64 div 10 \<or> (v = kMaxUint64 div 10 \<and> ?d > kMaxUint64 mod 10))"
    and u: "unat (v * 10 + ?d) = unat v * 10 + (of_char c - 48)"
    using Consume_overflow_test [of ?d v] c(2) d
    by (auto simp: unat_word_ariths)
  have "ConsumeDecimal_loop (ds @ rest) (v * 10 + ?d) (n + 1) = Some (of_nat (digits_value (unat v) (c # ds)), rest)"
    using Cons.IH [of "v * 10 + ?d" "n + 1"] Cons.prems u by simp
  then show ?case using c(1) nov by (simp add: Let_def)
qed

lemma decimal_digits: "(\<forall>c\<in>set (decimal n). is_digit c) \<and> decimal n \<noteq> [] \<and> digits_value 0 (decimal n) = n"
proof (induction n rule: decimal.induct)
  case (1 n)
  have small: "of_char (char_of (48 + d) :: char) = 48 + d" if "d < 10" for d :: nat
    using that by simp
  show ?case
    by (subst (1 2 3) decimal.simps) (use 1 small in \<open>auto simp: is_digit_def\<close>)
qed

text \<open>Any number printed with leading zeros is read back.\<close>

lemma ConsumeDecimalNumber_decimal:
  assumes "rest = [] \<or> \<not> is_digit (hd rest)"
  shows "ConsumeDecimalNumber (replicate k CHR ''0'' @ decimal (unat num) @ rest) = Some (num, rest)"
proof -
  let ?ds = "replicate k CHR ''0'' @ decimal (unat num)"
  have "digits_value 0 (replicate k CHR ''0'') = 0" by (induction k) simp_all
  then have v: "digits_value (unat (0 :: uint64)) ?ds = unat num" using decimal_digits [of "unat num"] by simp
  have "\<forall>c\<in>set ?ds. is_digit c" using decimal_digits [of "unat num"] by (auto simp: is_digit_def)
  moreover have "digits_value (unat (0 :: uint64)) ?ds < 2 ^ 64" unfolding v using unsigned_less [of num] by simp
  ultimately have "ConsumeDecimal_loop (?ds @ rest) 0 0 = Some (of_nat (digits_value (unat (0 :: uint64)) ?ds), rest)"
    using assms decimal_digits [of "unat num"] by (intro ConsumeDecimal_loop_digits) auto
  then show ?thesis unfolding v by (simp add: ConsumeDecimalNumber_def)
qed

end
