(* ===== verification/Version.thy ===== *)
theory Version
  imports Complex_Main Version_Edit Two_Level Logging
begin

text \<open>
  Versions (\<^verbatim>\<open>class Version\<close> in \<^verbatim>\<open>App/integration/version_set.h\<close> and \<^verbatim>\<open>version_set.cpp\<close>): the table
  files of each level, the search for the files that may hold a key, lookups, and the choice of the
  files that overlap a range.  The user comparator is a parameter, the internal one is made from it.
  File numbers and sizes are kept at 64 bits; vectors of files are lists.
\<close>

subsection \<open>Searching a level\<close>

text \<open>The sum is an \<^verbatim>\<open>int64_t\<close>: the unsigned sizes are added modulo \<open>2\<^sup>6\<^sup>4\<close> and read as a signed number.\<close>

definition TotalFileSize :: "FileMetaData list \<Rightarrow> int" where
  "TotalFileSize files = sint (sum_list (map file_size files))"

text \<open>The indices of the search are 32 bits wide in the code, more than the files of a level.\<close>

function FindFile_loop :: "(bytes \<Rightarrow> bytes \<Rightarrow> int) \<Rightarrow> FileMetaData list \<Rightarrow> bytes \<Rightarrow> nat \<Rightarrow> nat \<Rightarrow> nat" where
  "FindFile_loop ucmp files key left right =
     (if left < right
      then
        (let mid = (left + right) div 2;
             f = files ! mid
         in if InternalKey_Compare ucmp (largest f) key < 0
            then FindFile_loop ucmp files key (mid + 1) right
            else FindFile_loop ucmp files key left mid)
      else right)"
  by pat_completeness auto
termination by (relation "measure (\<lambda>(ucmp, files, key, left, right). right - left)") auto

declare FindFile_loop.simps [simp del]

definition FindFile :: "(bytes \<Rightarrow> bytes \<Rightarrow> int) \<Rightarrow> FileMetaData list \<Rightarrow> bytes \<Rightarrow> nat" where
  "FindFile ucmp files key = FindFile_loop ucmp files key 0 (length files)"

text \<open>A null key is \<^term>\<open>None\<close>: before all keys in \<open>AfterFile\<close>, after all keys in \<open>BeforeFile\<close>.\<close>

definition AfterFile :: "(bytes \<Rightarrow> bytes \<Rightarrow> int) \<Rightarrow> bytes option \<Rightarrow> FileMetaData \<Rightarrow> bool" where
  "AfterFile ucmp uk f = (case uk of None \<Rightarrow> False | Some k \<Rightarrow> ucmp k (ExtractUserKey (largest f)) > 0)"

definition BeforeFile :: "(bytes \<Rightarrow> bytes \<Rightarrow> int) \<Rightarrow> bytes option \<Rightarrow> FileMetaData \<Rightarrow> bool" where
  "BeforeFile ucmp uk f = (case uk of None \<Rightarrow> False | Some k \<Rightarrow> ucmp k (ExtractUserKey (smallest f)) < 0)"

definition SomeFileOverlapsRange ::
  "(bytes \<Rightarrow> bytes \<Rightarrow> int) \<Rightarrow> bool \<Rightarrow> FileMetaData list \<Rightarrow> bytes option \<Rightarrow> bytes option \<Rightarrow> bool" where
  "SomeFileOverlapsRange ucmp disjoint_sorted_files files smallest_user_key largest_user_key =
     (if \<not> disjoint_sorted_files
      then list_ex (\<lambda>f. \<not> (AfterFile ucmp smallest_user_key f \<or> BeforeFile ucmp largest_user_key f)) files
      else
        (let index = (case smallest_user_key of
                        None \<Rightarrow> 0
                      | Some k \<Rightarrow> FindFile ucmp files (InternalKey k kMaxSequenceNumber kValueTypeForSeek))
         in if index \<ge> length files then False else \<not> BeforeFile ucmp largest_user_key (files ! index)))"

subsection \<open>The iterator over the files of a level\<close>

record LevelFileNumIterator =
  lf_flist :: "FileMetaData list"
  lf_index :: nat

definition mk_LevelFileNumIterator :: "FileMetaData list \<Rightarrow> LevelFileNumIterator" where
  "mk_LevelFileNumIterator flist = \<lparr>lf_flist = flist, lf_index = length flist\<rparr>"

definition LevelFile_key :: "LevelFileNumIterator \<Rightarrow> bytes" where
  "LevelFile_key it = largest (lf_flist it ! lf_index it)"

definition LevelFile_value :: "LevelFileNumIterator \<Rightarrow> bytes" where
  "LevelFile_value it =
     EncodeFixed64 (fnumber (lf_flist it ! lf_index it)) @ EncodeFixed64 (file_size (lf_flist it ! lf_index it))"

definition level_file_iter :: "(bytes \<Rightarrow> bytes \<Rightarrow> int) \<Rightarrow> LevelFileNumIterator Iterator" where
  "level_file_iter ucmp =
     \<lparr>it_Valid = (\<lambda>it. lf_index it < length (lf_flist it)),
      it_SeekToFirst = (\<lambda>it. it\<lparr>lf_index := 0\<rparr>),
      it_SeekToLast = (\<lambda>it. it\<lparr>lf_index := if lf_flist it = [] then 0 else length (lf_flist it) - 1\<rparr>),
      it_Seek = (\<lambda>target it. it\<lparr>lf_index := FindFile ucmp (lf_flist it) target\<rparr>),
      it_Next = (\<lambda>it. it\<lparr>lf_index := lf_index it + 1\<rparr>),
      it_Prev = (\<lambda>it. if lf_index it = 0 then it\<lparr>lf_index := length (lf_flist it)\<rparr> else it\<lparr>lf_index := lf_index it - 1\<rparr>),
      it_key = LevelFile_key, it_value = LevelFile_value, it_status = (\<lambda>it. Status_OK)\<rparr>"

text \<open>\<open>new_iter\<close> stands for \<^verbatim>\<open>TableCache::NewIterator\<close>.\<close>

definition GetFileIterator :: "(uint64 \<Rightarrow> uint64 \<Rightarrow> 'd) \<Rightarrow> bytes \<Rightarrow> Status + 'd" where
  "GetFileIterator new_iter file_value =
     (if length file_value \<noteq> 16
      then Inl (NewErrorIterator (Corruption (str ''FileReader invoked with unexpected value'') []))
      else Inr (new_iter (the (DecodeFixed64 file_value)) (the (DecodeFixed64 (drop 8 file_value)))))"

subsection \<open>Versions\<close>

text \<open>
  \<open>v_files\<close> has one list for each of the \<^term>\<open>kNumLevels\<close> levels.  The links between versions and their
  reference counts are in the version set.
\<close>

record Version =
  v_files :: "FileMetaData list list"
  v_file_to_compact :: "FileMetaData option"
  v_file_to_compact_level :: int
  v_compaction_score :: rat
  v_compaction_level :: int

definition mk_Version :: Version where
  "mk_Version = \<lparr>v_files = replicate kNumLevels [], v_file_to_compact = None, v_file_to_compact_level = -1,
     v_compaction_score = -1, v_compaction_level = -1\<rparr>"

definition NumFiles :: "Version \<Rightarrow> nat \<Rightarrow> nat" where
  "NumFiles v level = length (v_files v ! level)"

definition NewConcatenatingIterator ::
  "Version \<Rightarrow> nat \<Rightarrow> (LevelFileNumIterator, Status + 'd) TwoLevelIterator" where
  "NewConcatenatingIterator v level = NewTwoLevelIterator (mk_LevelFileNumIterator (v_files v ! level))"

text \<open>The iterators over a version: one for each file of level 0, one for each other level that has files.\<close>

definition AddIterators ::
  "(uint64 \<Rightarrow> uint64 \<Rightarrow> 'd) \<Rightarrow> Version \<Rightarrow> ('d + (LevelFileNumIterator, Status + 'd) TwoLevelIterator) list" where
  "AddIterators new_iter v =
     map (\<lambda>f. Inl (new_iter (fnumber f) (file_size f))) (v_files v ! 0) @
     map (\<lambda>level. Inr (NewConcatenatingIterator v level)) (filter (\<lambda>level. v_files v ! level \<noteq> []) [1..<kNumLevels])"

subsection \<open>Lookups\<close>

datatype SaverState = kSaverNotFound | kFound | kDeleted | kCorrupt

text \<open>\<open>sv_seq\<close> is what \<^verbatim>\<open>seq\<close> points to, or \<^term>\<open>None\<close> when the pointer was not set.\<close>

record Saver =
  sv_state :: SaverState
  sv_user_key :: bytes
  sv_value :: bytes
  sv_seq :: "SequenceNumber option"

text \<open>The result is \<^term>\<open>None\<close> after a write through the pointer that was not set.\<close>

definition SaveValue :: "(bytes \<Rightarrow> bytes \<Rightarrow> int) \<Rightarrow> bytes \<Rightarrow> bytes \<Rightarrow> Saver option \<Rightarrow> Saver option" where
  "SaveValue ucmp ikey v arg =
     (case arg of
        None \<Rightarrow> None
      | Some s \<Rightarrow>
          (case ParseInternalKey ikey of
             None \<Rightarrow> Some (s\<lparr>sv_state := kCorrupt\<rparr>)
           | Some parsed_key \<Rightarrow>
               if ucmp (user_key parsed_key) (sv_user_key s) = 0
               then
                 (let s = s\<lparr>sv_state := if value_type parsed_key = kTypeValue then kFound else kDeleted\<rparr>
                  in if sv_state s = kFound
                     then (case sv_seq s of
                             None \<Rightarrow> None
                           | Some _ \<Rightarrow> Some (s\<lparr>sv_seq := Some (sequence parsed_key), sv_value := v\<rparr>))
                     else Some s)
               else Some s))"

definition NewestFirst :: "FileMetaData \<Rightarrow> FileMetaData \<Rightarrow> bool" where
  "NewestFirst a b \<longleftrightarrow> fnumber a > fnumber b"

definition sort_NewestFirst :: "FileMetaData list \<Rightarrow> FileMetaData list" where
  "sort_NewestFirst files = sort_key (\<lambda>f. 2 ^ 64 - unat (fnumber f)) files"

text \<open>The files of a level that may hold the key, in the order in which they are searched.\<close>

definition covers :: "(bytes \<Rightarrow> bytes \<Rightarrow> int) \<Rightarrow> bytes \<Rightarrow> FileMetaData \<Rightarrow> bool" where
  "covers ucmp u f \<longleftrightarrow> ucmp u (ExtractUserKey (smallest f)) \<ge> 0 \<and> ucmp u (ExtractUserKey (largest f)) \<le> 0"

definition files_to_search ::
  "(bytes \<Rightarrow> bytes \<Rightarrow> int) \<Rightarrow> bytes \<Rightarrow> bytes \<Rightarrow> nat \<Rightarrow> FileMetaData list \<Rightarrow> FileMetaData list" where
  "files_to_search ucmp u ikey level files =
     (if level = 0 then sort_NewestFirst (filter (covers ucmp u) files)
      else
        (let index = FindFile ucmp files ikey
         in if index \<ge> length files then []
            else if ucmp u (ExtractUserKey (smallest (files ! index))) < 0 then []
            else [files ! index]))"

text \<open>\<open>func\<close> returns whether to go on, and the state it is called with next.\<close>

fun for_each_file :: "(nat \<Rightarrow> FileMetaData \<Rightarrow> 'a \<Rightarrow> bool \<times> 'a) \<Rightarrow> nat \<Rightarrow> FileMetaData list \<Rightarrow> 'a \<Rightarrow> bool \<times> 'a" where
  "for_each_file func level [] arg = (True, arg)"
| "for_each_file func level (f # fs) arg =
     (let (go_on, arg) = func level f arg in if go_on then for_each_file func level fs arg else (False, arg))"

fun for_each_level ::
  "(bytes \<Rightarrow> bytes \<Rightarrow> int) \<Rightarrow> bytes \<Rightarrow> bytes \<Rightarrow> (nat \<Rightarrow> FileMetaData \<Rightarrow> 'a \<Rightarrow> bool \<times> 'a) \<Rightarrow> nat \<Rightarrow> FileMetaData list list \<Rightarrow> 'a \<Rightarrow> 'a" where
  "for_each_level ucmp u ikey func level [] arg = arg"
| "for_each_level ucmp u ikey func level (files # rest) arg =
     (let (go_on, arg) = for_each_file func level (files_to_search ucmp u ikey level files) arg
      in if go_on then for_each_level ucmp u ikey func (Suc level) rest arg else arg)"

definition ForEachOverlapping ::
  "(bytes \<Rightarrow> bytes \<Rightarrow> int) \<Rightarrow> Version \<Rightarrow> bytes \<Rightarrow> bytes \<Rightarrow> (nat \<Rightarrow> FileMetaData \<Rightarrow> 'a \<Rightarrow> bool \<times> 'a) \<Rightarrow> 'a \<Rightarrow> 'a" where
  "ForEachOverlapping ucmp v u ikey func arg = for_each_level ucmp u ikey func 0 (v_files v) arg"

record GetStats =
  seek_file :: "FileMetaData option"
  seek_file_level :: int

text \<open>
  The state of the two lookup functions: the statistics, the last file that was read, the saver, and
  the state of the table cache with the proof that is collected.
\<close>

record 'p GetState =
  g_stats :: GetStats
  g_last_file_read :: "FileMetaData option"
  g_last_file_read_level :: int
  g_saver :: Saver
  g_cache :: 'p

text \<open>
  One file: \<open>probe\<close> stands for the lookup in the table cache with \<open>SaveValue\<close> as its callback.  The
  first component is the status with which the function returns, if it does.
\<close>

definition search_file ::
  "(FileMetaData \<Rightarrow> bytes \<Rightarrow> (bytes \<Rightarrow> bytes \<Rightarrow> Saver option \<Rightarrow> Saver option) \<Rightarrow> Saver option \<Rightarrow> 'p \<Rightarrow> (Status \<times> Saver option \<times> 'p) option) \<Rightarrow>
   (bytes \<Rightarrow> bytes \<Rightarrow> int) \<Rightarrow> bytes \<Rightarrow> bytes \<Rightarrow> nat \<Rightarrow> FileMetaData \<Rightarrow> 'p GetState \<Rightarrow> (Status option \<times> 'p GetState) option" where
  "search_file probe ucmp u ikey level f g =
     (let g = (if g_last_file_read g \<noteq> None \<and> seek_file (g_stats g) = None
               then g\<lparr>g_stats := \<lparr>seek_file = g_last_file_read g, seek_file_level = g_last_file_read_level g\<rparr>\<rparr> else g);
          g = g\<lparr>g_last_file_read := Some f, g_last_file_read_level := int level\<rparr>;
          saver = (g_saver g)\<lparr>sv_state := kSaverNotFound, sv_user_key := u\<rparr>
      in case probe f ikey (SaveValue ucmp) (Some saver) (g_cache g) of
           Some (s, Some saver, p) \<Rightarrow>
             (let g = g\<lparr>g_saver := saver, g_cache := p\<rparr>
              in if \<not> Status_ok s then Some (Some s, g)
                 else
                   (case sv_state saver of
                      kSaverNotFound \<Rightarrow> Some (None, g)
                    | kFound \<Rightarrow> Some (Some s, g)
                    | kDeleted \<Rightarrow> Some (Some (NotFound [] []), g)
                    | kCorrupt \<Rightarrow> Some (Some (Corruption (str ''corrupted key for '') u), g)))
         | _ \<Rightarrow> None)"

fun search_files ::
  "(FileMetaData \<Rightarrow> bytes \<Rightarrow> (bytes \<Rightarrow> bytes \<Rightarrow> Saver option \<Rightarrow> Saver option) \<Rightarrow> Saver option \<Rightarrow> 'p \<Rightarrow> (Status \<times> Saver option \<times> 'p) option) \<Rightarrow>
   (bytes \<Rightarrow> bytes \<Rightarrow> int) \<Rightarrow> bytes \<Rightarrow> bytes \<Rightarrow> nat \<Rightarrow> FileMetaData list \<Rightarrow> 'p GetState \<Rightarrow> (Status option \<times> 'p GetState) option" where
  "search_files probe ucmp u ikey level [] g = Some (None, g)"
| "search_files probe ucmp u ikey level (f # fs) g =
     (case search_file probe ucmp u ikey level f g of
        Some (None, g) \<Rightarrow> search_files probe ucmp u ikey level fs g
      | r \<Rightarrow> r)"

text \<open>\<open>probe\<close> also gets the number of files of the level.\<close>

fun search_levels ::
  "(nat \<Rightarrow> FileMetaData \<Rightarrow> bytes \<Rightarrow> (bytes \<Rightarrow> bytes \<Rightarrow> Saver option \<Rightarrow> Saver option) \<Rightarrow> Saver option \<Rightarrow> 'p \<Rightarrow> (Status \<times> Saver option \<times> 'p) option) \<Rightarrow>
   (bytes \<Rightarrow> bytes \<Rightarrow> int) \<Rightarrow> bytes \<Rightarrow> bytes \<Rightarrow> nat \<Rightarrow> FileMetaData list list \<Rightarrow> 'p GetState \<Rightarrow> (Status option \<times> 'p GetState) option" where
  "search_levels probe ucmp u ikey level [] g = Some (None, g)"
| "search_levels probe ucmp u ikey level (files # rest) g =
     (case search_files (probe (length files)) ucmp u ikey level (files_to_search ucmp u ikey level files) g of
        Some (None, g) \<Rightarrow> search_levels probe ucmp u ikey (Suc level) rest g
      | r \<Rightarrow> r)"

definition get_init :: "Saver \<Rightarrow> 'p \<Rightarrow> 'p GetState" where
  "get_init saver p =
     \<lparr>g_stats = \<lparr>seek_file = None, seek_file_level = -1\<rparr>, g_last_file_read = None, g_last_file_read_level = -1,
      g_saver = saver, g_cache = p\<rparr>"

text \<open>
  \<^verbatim>\<open>SUGet\<close> returns the value and the sequence number through its arguments; their old contents are
  \<open>val0\<close> and \<open>seq0\<close>.
\<close>

definition Version_SUGet ::
  "(nat \<Rightarrow> FileMetaData \<Rightarrow> bytes \<Rightarrow> (bytes \<Rightarrow> bytes \<Rightarrow> Saver option \<Rightarrow> Saver option) \<Rightarrow> Saver option \<Rightarrow> 'p \<Rightarrow> (Status \<times> Saver option \<times> 'p) option) \<Rightarrow>
   (bytes \<Rightarrow> bytes \<Rightarrow> int) \<Rightarrow> Version \<Rightarrow> LookupKey \<Rightarrow> bytes \<Rightarrow> SequenceNumber \<Rightarrow> 'p \<Rightarrow> (Status \<times> 'p GetState) option" where
  "Version_SUGet probe ucmp v k val0 seq0 p =
     map_option (\<lambda>(r, g). (case r of Some s \<Rightarrow> s | None \<Rightarrow> NotFound [] [], g))
       (search_levels probe ucmp (lookup_user_key k) (internal_key k) 0 (v_files v)
          (get_init \<lparr>sv_state = kSaverNotFound, sv_user_key = [], sv_value = val0, sv_seq = Some seq0\<rparr> p))"

text \<open>
  \<^verbatim>\<open>Get\<close> has one saver for all files and never sets its \<^verbatim>\<open>seq\<close>.  It looks at the state of the saver at
  the end, which is still \<open>junk\<close>, the old contents of the stack, when no file was searched.
\<close>

definition Version_Get ::
  "(FileMetaData \<Rightarrow> bytes \<Rightarrow> (bytes \<Rightarrow> bytes \<Rightarrow> Saver option \<Rightarrow> Saver option) \<Rightarrow> Saver option \<Rightarrow> 'p \<Rightarrow> (Status \<times> Saver option \<times> 'p) option) \<Rightarrow>
   (bytes \<Rightarrow> bytes \<Rightarrow> int) \<Rightarrow> Version \<Rightarrow> LookupKey \<Rightarrow> SaverState \<Rightarrow> bytes \<Rightarrow> 'p \<Rightarrow> (Status \<times> 'p GetState) option" where
  "Version_Get probe ucmp v k junk val0 p =
     map_option (\<lambda>(r, g). (case r of Some s \<Rightarrow> s
                           | None \<Rightarrow> if sv_state (g_saver g) = kSaverNotFound then NotFound [] [] else Status_OK, g))
       (search_levels (\<lambda>n. probe) ucmp (lookup_user_key k) (internal_key k) 0 (v_files v)
          (get_init \<lparr>sv_state = junk, sv_user_key = [], sv_value = val0, sv_seq = None\<rparr> p))"

text \<open>\<open>f\<close> is the file the statistics point to; it is returned with one seek less.\<close>

definition UpdateStats :: "GetStats \<Rightarrow> Version \<Rightarrow> bool \<times> Version \<times> FileMetaData option" where
  "UpdateStats stats v =
     (case seek_file stats of
        None \<Rightarrow> (False, v, None)
      | Some f \<Rightarrow>
          (let f = f\<lparr>allowed_seeks := allowed_seeks f - 1\<rparr>
           in if allowed_seeks f \<le> 0 \<and> v_file_to_compact v = None
              then (True, v\<lparr>v_file_to_compact := Some f, v_file_to_compact_level := seek_file_level stats\<rparr>, Some f)
              else (False, v, Some f)))"

definition sample_match :: "nat \<Rightarrow> FileMetaData \<Rightarrow> GetStats \<times> nat \<Rightarrow> bool \<times> GetStats \<times> nat" where
  "sample_match level f st =
     (let matches = snd st + 1;
          stats = (if matches = 1 then \<lparr>seek_file = Some f, seek_file_level = int level\<rparr> else fst st)
      in (matches < 2, stats, matches))"

definition RecordReadSample ::
  "(bytes \<Rightarrow> bytes \<Rightarrow> int) \<Rightarrow> bytes \<Rightarrow> Version \<Rightarrow> bool \<times> Version \<times> FileMetaData option" where
  "RecordReadSample ucmp ikey v =
     (case ParseInternalKey ikey of
        None \<Rightarrow> (False, v, None)
      | Some p \<Rightarrow>
          (let (stats, matches) =
                 ForEachOverlapping ucmp v (user_key p) ikey sample_match (\<lparr>seek_file = None, seek_file_level = 0\<rparr>, 0)
           in if matches \<ge> 2 then UpdateStats stats v else (False, v, None)))"

subsection \<open>Overlapping files\<close>

definition OverlapInLevel :: "(bytes \<Rightarrow> bytes \<Rightarrow> int) \<Rightarrow> Version \<Rightarrow> nat \<Rightarrow> bytes option \<Rightarrow> bytes option \<Rightarrow> bool" where
  "OverlapInLevel ucmp v level smallest_user_key largest_user_key =
     SomeFileOverlapsRange ucmp (level > 0) (v_files v ! level) smallest_user_key largest_user_key"

text \<open>
  The search starts again whenever a file of level 0 widens the range; whether it ends depends on the
  comparator.
\<close>

partial_function (option) overlapping_loop ::
  "(bytes \<Rightarrow> bytes \<Rightarrow> int) \<Rightarrow> nat \<Rightarrow> FileMetaData list \<Rightarrow> nat \<Rightarrow> bytes option \<Rightarrow> bytes option \<Rightarrow> FileMetaData list \<Rightarrow> FileMetaData list option" where
  "overlapping_loop ucmp level files i user_begin user_end inputs =
     (if i < length files
      then
        (let f = files ! i;
             file_start = ExtractUserKey (smallest f);
             file_limit = ExtractUserKey (largest f)
         in if case user_begin of Some b \<Rightarrow> ucmp file_limit b < 0 | None \<Rightarrow> False
            then overlapping_loop ucmp level files (i + 1) user_begin user_end inputs
            else if case user_end of Some e \<Rightarrow> ucmp file_start e > 0 | None \<Rightarrow> False
            then overlapping_loop ucmp level files (i + 1) user_begin user_end inputs
            else if level = 0 \<and> (case user_begin of Some b \<Rightarrow> ucmp file_start b < 0 | None \<Rightarrow> False)
            then overlapping_loop ucmp level files 0 (Some file_start) user_end []
            else if level = 0 \<and> (case user_end of Some e \<Rightarrow> ucmp file_limit e > 0 | None \<Rightarrow> False)
            then overlapping_loop ucmp level files 0 user_begin (Some file_limit) []
            else overlapping_loop ucmp level files (i + 1) user_begin user_end (inputs @ [f]))
      else Some inputs)"

declare overlapping_loop.simps [code]

definition GetOverlappingInputs ::
  "(bytes \<Rightarrow> bytes \<Rightarrow> int) \<Rightarrow> Version \<Rightarrow> nat \<Rightarrow> bytes option \<Rightarrow> bytes option \<Rightarrow> FileMetaData list option" where
  "GetOverlappingInputs ucmp v level begin_key end_key =
     overlapping_loop ucmp level (v_files v ! level) 0 (map_option ExtractUserKey begin_key) (map_option ExtractUserKey end_key) []"

definition kTargetFileSize :: int where
  "kTargetFileSize = 2 * 1048576"

definition kMaxGrandParentOverlapBytes :: int where
  "kMaxGrandParentOverlapBytes = 10 * kTargetFileSize"

function pick_level_loop :: "(bytes \<Rightarrow> bytes \<Rightarrow> int) \<Rightarrow> Version \<Rightarrow> bytes \<Rightarrow> bytes \<Rightarrow> nat \<Rightarrow> nat option" where
  "pick_level_loop ucmp v smallest_user_key largest_user_key level =
     (if level < kMaxMemCompactLevel
      then
        if OverlapInLevel ucmp v (level + 1) (Some smallest_user_key) (Some largest_user_key) then Some level
        else if level + 2 < kNumLevels
        then
          (case GetOverlappingInputs ucmp v (level + 2) (Some (InternalKey smallest_user_key kMaxSequenceNumber kValueTypeForSeek))
                  (Some (InternalKey largest_user_key 0 kTypeDeletion)) of
             None \<Rightarrow> None
           | Some overlaps \<Rightarrow>
               if TotalFileSize overlaps > kMaxGrandParentOverlapBytes then Some level
               else pick_level_loop ucmp v smallest_user_key largest_user_key (level + 1))
        else pick_level_loop ucmp v smallest_user_key largest_user_key (level + 1)
      else Some level)"
  by pat_completeness auto
termination by (relation "measure (\<lambda>(ucmp, v, s, l, level). kMaxMemCompactLevel - level)") auto

declare pick_level_loop.simps [simp del]

definition PickLevelForMemTableOutput :: "(bytes \<Rightarrow> bytes \<Rightarrow> int) \<Rightarrow> Version \<Rightarrow> bytes \<Rightarrow> bytes \<Rightarrow> nat option" where
  "PickLevelForMemTableOutput ucmp v smallest_user_key largest_user_key =
     (if \<not> OverlapInLevel ucmp v 0 (Some smallest_user_key) (Some largest_user_key)
      then pick_level_loop ucmp v smallest_user_key largest_user_key 0 else Some 0)"

subsection \<open>Printing\<close>

definition ParsedInternalKey_DebugString :: "ParsedInternalKey \<Rightarrow> string" where
  "ParsedInternalKey_DebugString k =
     [CHR 0x27] @ EscapeString (user_key k) @ [CHR 0x27] @ '' @ '' @ NumberToString (sequence k) @ '' : '' @ NumberToString (ucast (ValueType_code (value_type k)))"

definition InternalKey_DebugString :: "bytes \<Rightarrow> string" where
  "InternalKey_DebugString rep =
     (case ParseInternalKey rep of
        Some parsed \<Rightarrow> ParsedInternalKey_DebugString parsed
      | None \<Rightarrow> ''(bad)'' @ EscapeString rep)"

definition file_DebugString :: "FileMetaData \<Rightarrow> string" where
  "file_DebugString f =
     '' '' @ NumberToString (fnumber f) @ '':'' @ NumberToString (file_size f) @ ''['' @ InternalKey_DebugString (smallest f) @
     '' .. '' @ InternalKey_DebugString (largest f) @ '']'' @ [CHR 0x0A]"

definition Version_DebugString :: "Version \<Rightarrow> string" where
  "Version_DebugString v =
     concat (map (\<lambda>level. ''--- level '' @ NumberToString (of_nat level) @ '' ---'' @ [CHR 0x0A] @
                    concat (map file_DebugString (v_files v ! level))) [0..<kNumLevels])"

end
