(* ===== verification/Env_File.thy ===== *)
theory Env_File
  imports Status
begin

text \<open>
  File objects (\<^verbatim>\<open>App/integration/env.h\<close>, \<^verbatim>\<open>env_posix.cpp\<close>).  A C stream opened for reading is what is
  left to read, with an optional position at which the device fails; a stream opened for writing
  is what has been written, with an optional amount of space that is left.  The interfaces
  \<^verbatim>\<open>SequentialFile\<close> and \<^verbatim>\<open>WritableFile\<close> are records of operations; their contracts are the locales
  below.
\<close>

subsection \<open>Sequential files\<close>

record FILE =
  f_rest :: bytes
  f_bad :: "nat option"
  f_seekable :: bool

definition fread :: "nat \<Rightarrow> FILE \<Rightarrow> bytes \<times> bool \<times> FILE" where
  "fread n f =
     (let m = min n (length (f_rest f));
          k = (case f_bad f of None \<Rightarrow> m | Some b \<Rightarrow> min m b)
      in (take k (f_rest f), k = length (f_rest f) \<and> k < n,
          f\<lparr>f_rest := drop k (f_rest f), f_bad := map_option (\<lambda>b. b - k) (f_bad f)\<rparr>))"

text \<open>
  \<^verbatim>\<open>fseek\<close> relative to the current position.  It fails, and moves nothing, on a stream that cannot seek and for a
  distance that is negative as a \<^verbatim>\<open>long\<close>; seeking past the end is allowed.
\<close>

definition fseek_cur :: "nat \<Rightarrow> FILE \<Rightarrow> FILE option" where
  "fseek_cur n f =
     (if f_seekable f \<and> n < 2 ^ 63
      then Some (f\<lparr>f_rest := drop n (f_rest f), f_bad := map_option (\<lambda>b. b - n) (f_bad f)\<rparr>) else None)"

record PosixSequentialFile =
  seq_filename :: bytes
  seq_file :: FILE
  seq_error :: bytes

definition SequentialFile_Read :: "nat \<Rightarrow> PosixSequentialFile \<Rightarrow> Status \<times> bytes \<times> PosixSequentialFile" where
  "SequentialFile_Read n sf =
     (let (r, feof, f) = fread n (seq_file sf);
          s = (if length r < n then (if feof then Status_OK else IOError (seq_filename sf) (seq_error sf))
               else Status_OK)
      in (s, r, sf\<lparr>seq_file := f\<rparr>))"

definition SequentialFile_Skip :: "nat \<Rightarrow> PosixSequentialFile \<Rightarrow> Status \<times> PosixSequentialFile" where
  "SequentialFile_Skip n sf =
     (case fseek_cur n (seq_file sf) of
        None \<Rightarrow> (IOError (seq_filename sf) (seq_error sf), sf)
      | Some f \<Rightarrow> (Status_OK, sf\<lparr>seq_file := f\<rparr>))"

lemma SequentialFile_Read_length:
  "SequentialFile_Read n sf = (s, r, sf') \<Longrightarrow>
   length (f_rest (seq_file sf')) + length r = length (f_rest (seq_file sf)) \<and> length r \<le> n"
  by (auto simp: SequentialFile_Read_def fread_def Let_def split: option.splits)

lemma SequentialFile_Read_good:
  assumes "f_bad (seq_file sf) = None"
  shows "SequentialFile_Read n sf = (Status_OK, take n (f_rest (seq_file sf)),
    sf\<lparr>seq_file := (seq_file sf)\<lparr>f_rest := drop n (f_rest (seq_file sf)), f_bad := None\<rparr>\<rparr>)"
  using assms by (cases "seq_file sf") (auto simp: SequentialFile_Read_def fread_def Let_def min_def)

subsection \<open>Writable files\<close>

text \<open>The operations of the interface \<^verbatim>\<open>WritableFile\<close> that the library calls, on the states of an implementation.\<close>

record 'w WritableFile =
  wf_Append :: "bytes \<Rightarrow> 'w \<Rightarrow> Status \<times> 'w"
  wf_Flush :: "'w \<Rightarrow> Status \<times> 'w"

locale writable_file =
  fixes W :: "'w WritableFile" and contents :: "'w \<Rightarrow> bytes"
  assumes Append_contents:
    "wf_Append W d w = (s, w') \<Longrightarrow> \<exists>k\<le>length d. contents w' = contents w @ take k d \<and> (Status_ok s \<longrightarrow> k = length d)"
    and Flush_contents: "wf_Flush W w = (s, w') \<Longrightarrow> contents w' = contents w"

text \<open>Files on which nothing fails, as long as \<open>good\<close> holds.\<close>

locale reliable_file = writable_file W contents for W :: "'w WritableFile" and contents +
  fixes good :: "'w \<Rightarrow> bool"
  assumes Append_good: "good w \<Longrightarrow> Status_ok (fst (wf_Append W d w)) \<and> good (snd (wf_Append W d w))"
    and Flush_good: "good w \<Longrightarrow> Status_ok (fst (wf_Flush W w)) \<and> good (snd (wf_Flush W w))"
begin

lemma Append_reliable: "good w \<Longrightarrow> contents (snd (wf_Append W d w)) = contents w @ d"
  using Append_contents [of d w] Append_good [of w d] by (cases "wf_Append W d w") fastforce

lemma Flush_reliable: "contents (snd (wf_Flush W w)) = contents w"
  using Flush_contents [of w] by (cases "wf_Flush W w") simp

end

text \<open>
  \<^verbatim>\<open>PosixWritableFile\<close>.  The buffer of the C stream is not observable here: \<^verbatim>\<open>fwrite\<close> fails, after writing
  what fits, when the device has no space left, and a failed stream also fails to flush.
\<close>

record PosixWritableFile =
  wr_filename :: bytes
  wr_data :: bytes
  wr_space :: "nat option"
  wr_failed :: bool
  wr_error :: bytes

definition fwrite :: "bytes \<Rightarrow> PosixWritableFile \<Rightarrow> nat \<times> PosixWritableFile" where
  "fwrite d w =
     (let k = (case wr_space w of None \<Rightarrow> length d | Some b \<Rightarrow> min (length d) b)
      in (k, w\<lparr>wr_data := wr_data w @ take k d, wr_space := map_option (\<lambda>b. b - k) (wr_space w),
               wr_failed := wr_failed w \<or> k < length d\<rparr>))"

definition PosixWritable_Append :: "bytes \<Rightarrow> PosixWritableFile \<Rightarrow> Status \<times> PosixWritableFile" where
  "PosixWritable_Append d w =
     (let (r, w) = fwrite d w
      in if r \<noteq> length d then (IOError (wr_filename w) (wr_error w), w) else (Status_OK, w))"

definition PosixWritable_Flush :: "PosixWritableFile \<Rightarrow> Status \<times> PosixWritableFile" where
  "PosixWritable_Flush w =
     (if wr_failed w then (IOError (wr_filename w) (wr_error w), w) else (Status_OK, w))"

definition posix_file :: "PosixWritableFile WritableFile" where
  "posix_file = \<lparr>wf_Append = PosixWritable_Append, wf_Flush = PosixWritable_Flush\<rparr>"

lemma fwrite_data:
  "fst (fwrite d w) \<le> length d \<and> wr_data (snd (fwrite d w)) = wr_data w @ take (fst (fwrite d w)) d"
  by (simp add: fwrite_def Let_def split: option.split)

interpretation posix: writable_file posix_file wr_data
proof unfold_locales
  fix d w s w' assume "wf_Append posix_file d w = (s, w')"
  then have "w' = snd (fwrite d w) \<and> (Status_ok s \<longrightarrow> fst (fwrite d w) = length d)"
    by (auto simp: posix_file_def PosixWritable_Append_def split: prod.splits if_splits)
  then show "\<exists>k\<le>length d. wr_data w' = wr_data w @ take k d \<and> (Status_ok s \<longrightarrow> k = length d)"
    using fwrite_data [of d w] by blast
qed (auto simp: posix_file_def PosixWritable_Flush_def split: if_splits)

interpretation posix_reliable: reliable_file posix_file wr_data "\<lambda>w. wr_space w = None \<and> \<not> wr_failed w"
  by unfold_locales
    (simp_all add: posix_file_def PosixWritable_Append_def PosixWritable_Flush_def fwrite_def)

text \<open>A new file on a device that does not run out of space.\<close>

definition new_file :: "bytes \<Rightarrow> PosixWritableFile" where
  "new_file name = \<lparr>wr_filename = name, wr_data = [], wr_space = None, wr_failed = False, wr_error = []\<rparr>"

definition open_file :: "bytes \<Rightarrow> bytes \<Rightarrow> PosixSequentialFile" where
  "open_file name d = \<lparr>seq_filename = name, seq_file = \<lparr>f_rest = d, f_bad = None, f_seekable = True\<rparr>, seq_error = []\<rparr>"

end
