(* ===== verification/Env_Random.thy ===== *)
theory Env_Random
  imports Env_File Coding
begin

text \<open>
  Files opened for random access (\<^verbatim>\<open>App/integration/env.h\<close>, \<^verbatim>\<open>env_posix.cpp\<close>): the two implementations of
  \<^verbatim>\<open>RandomAccessFile\<close>, by \<^verbatim>\<open>pread\<close> and by a mapping of the file, and the contract they share.  A read
  returns its status, the bytes, and whether these are in the caller's buffer; \<^term>\<open>None\<close> is a read
  outside the mapped region.
\<close>

type_synonym raf_result = "(Status \<times> bytes \<times> bool) option"

record PosixRandomAccessFile =
  pra_filename :: bytes
  pra_data :: bytes
  pra_bad :: bool
  pra_error :: bytes

text \<open>\<^verbatim>\<open>pread\<close> fails on a bad device and on an offset that is negative as an \<^verbatim>\<open>off_t\<close>; it is short at the end of the file,
  and only there (a local file).\<close>

definition pread :: "PosixRandomAccessFile \<Rightarrow> uint64 \<Rightarrow> uint64 \<Rightarrow> bytes option" where
  "pread f n offset =
     (if pra_bad f \<or> sint offset < 0 then None else Some (take (unat n) (drop (unat offset) (pra_data f))))"

definition PosixRandomAccess_Read :: "PosixRandomAccessFile \<Rightarrow> uint64 \<Rightarrow> uint64 \<Rightarrow> raf_result" where
  "PosixRandomAccess_Read f offset n =
     (case pread f n offset of
        None \<Rightarrow> Some (IOError (pra_filename f) (pra_error f), [], True)
      | Some r \<Rightarrow> Some (Status_OK, r, True))"

record PosixMmapReadableFile =
  mm_filename :: bytes
  mm_region :: bytes
  mm_einval :: bytes

definition PosixMmap_Read :: "PosixMmapReadableFile \<Rightarrow> uint64 \<Rightarrow> uint64 \<Rightarrow> raf_result" where
  "PosixMmap_Read f offset n =
     (if unat (offset + n) > length (mm_region f) then Some (IOError (mm_filename f) (mm_einval f), [], False)
      else if unat offset + unat n \<le> length (mm_region f)
      then Some (Status_OK, take (unat n) (drop (unat offset) (mm_region f)), False)
      else None)"

subsection \<open>The contract\<close>

locale random_file =
  fixes Read :: "'f \<Rightarrow> uint64 \<Rightarrow> uint64 \<Rightarrow> raf_result" and contents :: "'f \<Rightarrow> bytes" and good :: "'f \<Rightarrow> bool"
  assumes Read_good: "good f \<Longrightarrow> unat offset + unat n \<le> length (contents f) \<Longrightarrow>
      \<exists>b. Read f offset n = Some (Status_OK, take (unat n) (drop (unat offset) (contents f)), b)"
begin

lemma Read_range:
  assumes "good f" and "contents f = a @ d @ b" and "length a = unat offset" and "length d = unat n"
  shows "\<exists>b. Read f offset n = Some (Status_OK, d, b)"
  using Read_good [OF assms(1), of offset n] assms(2-4) by simp

end

lemma sint_nonneg_iff: "sint (w :: uint64) \<ge> 0 \<longleftrightarrow> unat w < 2 ^ 63"
proof -
  have "sint w \<ge> 0 \<longleftrightarrow> \<not> bit w 63"
    using bit_last_iff [of w] by (simp add: not_less)
  also have "\<dots> \<longleftrightarrow> unat w < 2 ^ 63"
  proof
    assume "\<not> bit w 63"
    have "n < 63" if "n < 64" "bit w n" for n using that \<open>\<not> bit w 63\<close> by (cases "n = 63") auto
    then have "take_bit 63 w = w" by (intro bit_word_eqI) (auto simp: bit_simps)
    then show "unat w < 2 ^ 63" by (metis take_bit_nat_less_exp unsigned_take_bit_eq)
  next
    assume "unat w < 2 ^ 63"
    then have "take_bit 63 (unat w) = unat w" by (simp add: take_bit_nat_eq_self)
    then have "take_bit 63 w = w" by (metis unsigned_take_bit_eq word_unat_eq_iff)
    then show "\<not> bit w 63" by (metis bit_take_bit_iff less_irrefl)
  qed
  finally show ?thesis .
qed

lemma PosixRandomAccess_Read_length:
  "\<exists>s d c. PosixRandomAccess_Read f offset n = Some (s, d, c) \<and> length d \<le> unat n"
  by (auto simp: PosixRandomAccess_Read_def pread_def)

interpretation pread: random_file PosixRandomAccess_Read pra_data "\<lambda>f. \<not> pra_bad f \<and> length (pra_data f) < 2 ^ 63"
proof unfold_locales
  fix f :: PosixRandomAccessFile and offset n :: uint64
  assume "\<not> pra_bad f \<and> length (pra_data f) < 2 ^ 63" "unat offset + unat n \<le> length (pra_data f)"
  moreover from this have "sint offset \<ge> 0" by (simp add: sint_nonneg_iff)
  ultimately show "\<exists>b. PosixRandomAccess_Read f offset n =
      Some (Status_OK, take (unat n) (drop (unat offset) (pra_data f)), b)"
    by (auto simp: PosixRandomAccess_Read_def pread_def)
qed

interpretation mmap: random_file PosixMmap_Read mm_region "\<lambda>f. length (mm_region f) < 2 ^ 64"
  by unfold_locales (auto simp: PosixMmap_Read_def unat_word_ariths)

end
