(* ===== verification/Table_Format.thy ===== *)
theory Table_Format
  imports Env_Random Crc32c
begin

text \<open>
  The format of table files (\<^verbatim>\<open>App/integration/format.h\<close>, \<^verbatim>\<open>format.cpp\<close>): handles of blocks, the footer, and
  reading a block with its trailer.  Sizes are 64-bit words, so that a handle from a damaged file may
  make them wrap around; the result \<^term>\<open>None\<close> is an access outside the buffer.
\<close>

subsection \<open>Compression\<close>

datatype CompressionType = kNoCompression | kSnappyCompression

fun CompressionType_code :: "CompressionType \<Rightarrow> byte" where
  "CompressionType_code kNoCompression = 0"
| "CompressionType_code kSnappyCompression = 1"

text \<open>The port of the library to this platform has no Snappy: the three functions return false.\<close>

definition Snappy_Compress :: "bytes \<Rightarrow> bytes option" where
  "Snappy_Compress input = None"

definition Snappy_GetUncompressedLength :: "bytes \<Rightarrow> nat option" where
  "Snappy_GetUncompressedLength input = None"

definition Snappy_Uncompress :: "bytes \<Rightarrow> bytes option" where
  "Snappy_Uncompress input = None"

subsection \<open>Block handles and the footer\<close>

record BlockHandle =
  bh_offset :: uint64
  bh_size :: uint64

definition mk_BlockHandle :: BlockHandle where
  "mk_BlockHandle = \<lparr>bh_offset = -1, bh_size = -1\<rparr>"

definition kMaxEncodedLength :: nat where
  "kMaxEncodedLength = 10 + 10"

definition BlockHandle_EncodeTo :: "BlockHandle \<Rightarrow> bytes \<Rightarrow> bytes" where
  "BlockHandle_EncodeTo h dst = PutVarint64 (PutVarint64 dst (bh_offset h)) (bh_size h)"

definition BlockHandle_DecodeFrom :: "bytes \<Rightarrow> Status + (BlockHandle \<times> bytes)" where
  "BlockHandle_DecodeFrom input =
     (case GetVarint64 input of
        None \<Rightarrow> Inl (Corruption (str ''bad block handle'') [])
      | Some (offset, input) \<Rightarrow>
          (case GetVarint64 input of
             None \<Rightarrow> Inl (Corruption (str ''bad block handle'') [])
           | Some (sz, input) \<Rightarrow> Inr (\<lparr>bh_offset = offset, bh_size = sz\<rparr>, input)))"

record Footer =
  metaindex_handle :: BlockHandle
  index_handle :: BlockHandle

definition kEncodedLength :: nat where
  "kEncodedLength = 2 * kMaxEncodedLength + 8"

definition kTableMagicNumber :: uint64 where
  "kTableMagicNumber = 0xdb4775248b80fb57"

text \<open>\<^verbatim>\<open>std::string::resize\<close>.\<close>

definition resize :: "nat \<Rightarrow> bytes \<Rightarrow> bytes" where
  "resize n s = take n s @ replicate (n - length s) 0"

definition Footer_EncodeTo :: "Footer \<Rightarrow> bytes \<Rightarrow> bytes" where
  "Footer_EncodeTo f dst =
     (let dst = BlockHandle_EncodeTo (metaindex_handle f) dst;
          dst = BlockHandle_EncodeTo (index_handle f) dst;
          dst = resize (2 * kMaxEncodedLength) dst;
          dst = PutFixed32 dst (ucast (take_bit 32 kTableMagicNumber))
      in PutFixed32 dst (ucast (drop_bit 32 kTableMagicNumber)))"

definition Footer_DecodeFrom :: "bytes \<Rightarrow> (Status + (Footer \<times> bytes)) option" where
  "Footer_DecodeFrom input =
     (let magic_ptr = drop (kEncodedLength - 8) input
      in case (DecodeFixed32 magic_ptr, DecodeFixed32 (drop 4 magic_ptr)) of
           (Some magic_lo, Some magic_hi) \<Rightarrow>
             (let magic = push_bit 32 (ucast magic_hi :: uint64) OR ucast magic_lo
              in if magic \<noteq> kTableMagicNumber
                 then Some (Inl (Corruption (str ''not an sstable (bad magic number)'') []))
                 else
                   (case BlockHandle_DecodeFrom input of
                      Inl s \<Rightarrow> Some (Inl s)
                    | Inr (metaindex, rest) \<Rightarrow>
                        (case BlockHandle_DecodeFrom rest of
                           Inl s \<Rightarrow> Some (Inl s)
                         | Inr (idx, rest) \<Rightarrow>
                             Some (Inr (\<lparr>metaindex_handle = metaindex, index_handle = idx\<rparr>, drop kEncodedLength input)))))
         | _ \<Rightarrow> None)"

subsection \<open>Reading a block\<close>

definition kBlockTrailerSize :: uint64 where
  "kBlockTrailerSize = 5"

record BlockContents =
  bc_data :: bytes
  bc_cachable :: bool
  bc_heap_allocated :: bool

definition ReadBlock ::
  "(uint64 \<Rightarrow> uint64 \<Rightarrow> raf_result) \<Rightarrow> bool \<Rightarrow> BlockHandle \<Rightarrow> (Status + BlockContents) option" where
  "ReadBlock Read verify_checksums handle =
     (let n = bh_size handle
      in case Read (bh_offset handle) (n + kBlockTrailerSize) of
           None \<Rightarrow> None
         | Some (s, data, in_buf) \<Rightarrow>
             if \<not> Status_ok s then Some (Inl s)
             else if of_nat (length data) \<noteq> n + kBlockTrailerSize
             then Some (Inl (Corruption (str ''truncated block read'') []))
             else if verify_checksums \<and> length data < unat n + 5 then None
             else if verify_checksums \<and> Value 0 (take (unat n + 1) data) \<noteq> Unmask (the (DecodeFixed32 (drop (unat n + 1) data)))
             then Some (Inl (Corruption (str ''block checksum mismatch'') []))
             else if length data \<le> unat n then None
             else if data ! unat n = CompressionType_code kNoCompression
             then Some (Inr \<lparr>bc_data = take (unat n) data, bc_cachable = in_buf, bc_heap_allocated = in_buf\<rparr>)
             else if data ! unat n = CompressionType_code kSnappyCompression
             then
               (case Snappy_GetUncompressedLength (take (unat n) data) of
                  None \<Rightarrow> Some (Inl (Corruption (str ''corrupted compressed block contents'') []))
                | Some ulength \<Rightarrow>
                    (case Snappy_Uncompress (take (unat n) data) of
                       None \<Rightarrow> Some (Inl (Corruption (str ''corrupted compressed block contents'') []))
                     | Some ubuf \<Rightarrow> Some (Inr \<lparr>bc_data = ubuf, bc_cachable = True, bc_heap_allocated = True\<rparr>)))
             else Some (Inl (Corruption (str ''bad block type'') [])))"

text \<open>The trailer that \<^verbatim>\<open>TableBuilder::WriteRawBlock\<close> puts after a block.\<close>

definition block_trailer :: "bytes \<Rightarrow> CompressionType \<Rightarrow> bytes" where
  "block_trailer contents compression_type =
     (let crc = Extend 0 (Value 0 contents) [CompressionType_code compression_type]
      in CompressionType_code compression_type # EncodeFixed32 (Mask crc))"

subsection \<open>Lemmas\<close>

lemma BlockHandle_roundtrip [codec]:
  "BlockHandle_DecodeFrom (BlockHandle_EncodeTo h [] @ rest) = Inr (h, rest)"
  by (simp add: BlockHandle_DecodeFrom_def BlockHandle_EncodeTo_def PutVarint64_def GetVarint64_Encode)

lemma BlockHandle_EncodeTo_append: "BlockHandle_EncodeTo h dst = dst @ BlockHandle_EncodeTo h []"
  by (simp add: BlockHandle_EncodeTo_def PutVarint64_def)

lemma length_BlockHandle: "length (BlockHandle_EncodeTo h []) \<le> kMaxEncodedLength"
  using length_EncodeVarint64 [of "bh_offset h"] length_EncodeVarint64 [of "bh_size h"]
  by (simp add: BlockHandle_EncodeTo_def PutVarint64_def kMaxEncodedLength_def)

lemma BlockHandle_inj: "BlockHandle_EncodeTo h [] = BlockHandle_EncodeTo h' [] \<Longrightarrow> h = h'"
  using BlockHandle_roundtrip [of h "[]"] BlockHandle_roundtrip [of h' "[]"] by simp

lemma Footer_EncodeTo_eq:
  "Footer_EncodeTo f [] =
     resize (2 * kMaxEncodedLength) (BlockHandle_EncodeTo (metaindex_handle f) [] @ BlockHandle_EncodeTo (index_handle f) []) @
     EncodeFixed32 0x8b80fb57 @ EncodeFixed32 0xdb477524"
  using BlockHandle_EncodeTo_append [of "index_handle f" "BlockHandle_EncodeTo (metaindex_handle f) []"]
  by (simp add: Footer_EncodeTo_def Let_def PutFixed32_def kTableMagicNumber_def)

lemma length_Footer [simp]: "length (Footer_EncodeTo f []) = kEncodedLength"
  by (simp add: Footer_EncodeTo_eq resize_def kEncodedLength_def)

lemma Footer_roundtrip [codec]: "Footer_DecodeFrom (Footer_EncodeTo f [] @ rest) = Some (Inr (f, rest))"
proof -
  let ?h = "BlockHandle_EncodeTo (metaindex_handle f) [] @ BlockHandle_EncodeTo (index_handle f) []"
  define pad where "pad = replicate (40 - length ?h) (0 :: byte)"
  define m where "m = EncodeFixed32 0x8b80fb57 @ EncodeFixed32 0xdb477524"
  have len: "length ?h \<le> 40"
    using length_BlockHandle [of "metaindex_handle f"] length_BlockHandle [of "index_handle f"]
    by (simp add: kMaxEncodedLength_def)
  then have eq: "Footer_EncodeTo f [] = (?h @ pad) @ m" "length (?h @ pad) = 40"
    by (simp_all add: Footer_EncodeTo_eq resize_def kMaxEncodedLength_def pad_def m_def)
  have "drop (kEncodedLength - 8) (Footer_EncodeTo f [] @ rest) = m @ rest"
    using eq by (simp add: kEncodedLength_def kMaxEncodedLength_def del: append_assoc)
  moreover have "DecodeFixed32 (m @ rest) = Some 0x8b80fb57" "DecodeFixed32 (drop 4 (m @ rest)) = Some 0xdb477524"
    by (simp_all add: m_def DecodeFixed32_Encode)
  moreover have "push_bit 32 (ucast (0xdb477524 :: uint32) :: uint64) OR ucast (0x8b80fb57 :: uint32) = kTableMagicNumber"
    by (simp add: kTableMagicNumber_def)
  moreover have "BlockHandle_DecodeFrom (Footer_EncodeTo f [] @ rest) =
      Inr (metaindex_handle f, BlockHandle_EncodeTo (index_handle f) [] @ pad @ m @ rest)"
    using BlockHandle_roundtrip [of "metaindex_handle f"] by (simp add: eq)
  moreover have "drop kEncodedLength (Footer_EncodeTo f [] @ rest) = rest" by simp
  ultimately show ?thesis
    by (simp add: Footer_DecodeFrom_def Let_def BlockHandle_roundtrip)
qed


lemma block_trailer_crc: "Extend 0 (Value 0 contents) [c] = Value 0 (contents @ [c])"
  by (simp add: Value_def Extend_append [where c = 0])

lemma length_block_trailer [simp]: "length (block_trailer contents ty) = 5"
  by (simp add: block_trailer_def Let_def)

lemma kBlockTrailerSize_unat: "unat kBlockTrailerSize = 5"
  by (simp add: kBlockTrailerSize_def)

context random_file
begin

text \<open>A block with its trailer is read back, with or without a check of its checksum.\<close>

lemma ReadBlock_good:
  assumes "good f" and lay: "contents f = a @ (d @ block_trailer d kNoCompression) @ b" and small: "length (contents f) < 2 ^ 64"
    and h: "unat (bh_offset h) = length a" "unat (bh_size h) = length d"
  shows "\<exists>c. ReadBlock (Read f) verify h = Some (Inr \<lparr>bc_data = d, bc_cachable = c, bc_heap_allocated = c\<rparr>)"
proof -
  let ?d = "d @ block_trailer d kNoCompression"
  have un: "unat (bh_size h + kBlockTrailerSize) = length ?d"
    using lay small h by (simp add: unat_word_ariths kBlockTrailerSize_unat)
  then obtain c where R: "Read f (bh_offset h) (bh_size h + kBlockTrailerSize) = Some (Status_OK, ?d, c)"
    using Read_range [OF assms(1) lay] h by force
  have len: "of_nat (length ?d) = bh_size h + kBlockTrailerSize"
    using arg_cong [OF un, of "of_nat :: nat \<Rightarrow> uint64"] by (simp del: length_append)
  have t: "block_trailer d kNoCompression = 0 # EncodeFixed32 (Mask (Value 0 (d @ [0])))"
    by (simp add: block_trailer_def Let_def block_trailer_crc)
  have "Value 0 (take (unat (bh_size h) + 1) ?d) = Unmask (the (DecodeFixed32 (drop (unat (bh_size h) + 1) ?d)))"
    using DecodeFixed32_Encode [of "Mask (Value 0 (d @ [0]))" "[]"] by (simp add: h t Unmask_Mask)
  then show ?thesis
    using R len by (auto simp: ReadBlock_def Let_def h t Status_ok_def Status_OK_def nth_append)
qed

end


subsection \<open>Properties\<close>



end
