(* ===== verification/Block.thy ===== *)
theory Block
  imports Iterator Filter_Block "HOL-Library.Monad_Syntax"
begin

unbundle bit_operations_syntax

text \<open>
  Blocks of tables (\<^verbatim>\<open>App/integration/block_builder.cpp\<close>, \<^verbatim>\<open>block.cpp\<close>).  The builder drops the part of a
  key that it shares with the key before it, except at restart points; the iterator rebuilds the
  keys, and searches the restart points by bisection.  Assertions of the source are preconditions.
\<close>

subsection \<open>Building\<close>

record BlockBuilder =
  bb_buffer :: bytes
  bb_restarts :: "uint32 list"
  bb_counter :: nat
  bb_finished :: bool
  bb_last_key :: bytes

definition mk_BlockBuilder :: BlockBuilder where
  "mk_BlockBuilder = \<lparr>bb_buffer = [], bb_restarts = [0], bb_counter = 0, bb_finished = False, bb_last_key = []\<rparr>"

definition BlockBuilder_Reset :: "BlockBuilder \<Rightarrow> BlockBuilder" where
  "BlockBuilder_Reset b =
     b\<lparr>bb_buffer := [], bb_restarts := [0], bb_counter := 0, bb_finished := False, bb_last_key := []\<rparr>"

definition CurrentSizeEstimate :: "BlockBuilder \<Rightarrow> nat" where
  "CurrentSizeEstimate b = length (bb_buffer b) + length (bb_restarts b) * 4 + 4"

definition BlockBuilder_empty :: "BlockBuilder \<Rightarrow> bool" where
  "BlockBuilder_empty b \<longleftrightarrow> bb_buffer b = []"

definition BlockBuilder_Finish :: "BlockBuilder \<Rightarrow> bytes \<times> BlockBuilder" where
  "BlockBuilder_Finish b =
     (let buf = foldl PutFixed32 (bb_buffer b) (bb_restarts b);
          buf = PutFixed32 buf (of_nat (length (bb_restarts b)))
      in (buf, b\<lparr>bb_buffer := buf, bb_finished := True\<rparr>))"

text \<open>The loop that counts the shared bytes.\<close>

fun shared_loop :: "bytes \<Rightarrow> bytes \<Rightarrow> nat" where
  "shared_loop (x # xs) (y # ys) = (if x = y then Suc (shared_loop xs ys) else 0)"
| "shared_loop _ _ = 0"

definition BlockBuilder_Add :: "nat \<Rightarrow> bytes \<Rightarrow> bytes \<Rightarrow> BlockBuilder \<Rightarrow> BlockBuilder" where
  "BlockBuilder_Add block_restart_interval key val b =
     (let (shared, b) =
            (if bb_counter b < block_restart_interval then (shared_loop (bb_last_key b) key, b)
             else (0, b\<lparr>bb_restarts := bb_restarts b @ [of_nat (length (bb_buffer b))], bb_counter := 0\<rparr>));
          non_shared = length key - shared;
          buf = PutVarint32 (bb_buffer b) (of_nat shared);
          buf = PutVarint32 buf (of_nat non_shared);
          buf = PutVarint32 buf (of_nat (length val));
          buf = buf @ drop shared key @ val
      in b\<lparr>bb_buffer := buf, bb_last_key := take shared (bb_last_key b) @ drop shared key,
           bb_counter := bb_counter b + 1\<rparr>)"

subsection \<open>Blocks\<close>

record Block =
  block_data :: bytes
  block_size :: nat
  restart_offset :: uint32

definition NumRestarts :: "bytes \<Rightarrow> nat \<Rightarrow> uint32" where
  "NumRestarts data sz = the (DecodeFixed32 (drop (sz - 4) data))"

definition mk_Block :: "bytes \<Rightarrow> Block" where
  "mk_Block contents =
     (let sz = length contents
      in if sz < 4 then \<lparr>block_data = contents, block_size = 0, restart_offset = 0\<rparr>
         else
           (let max_restarts_allowed = (sz - 4) div 4
            in if unat (NumRestarts contents sz) > max_restarts_allowed
               then \<lparr>block_data = contents, block_size = 0, restart_offset = 0\<rparr>
               else \<lparr>block_data = contents, block_size = sz,
                     restart_offset = of_nat (sz - (1 + unat (NumRestarts contents sz)) * 4)\<rparr>))"

text \<open>
  \<^verbatim>\<open>DecodeEntry\<close> on the bytes from the entry to the limit: the three lengths and the bytes after them.  The
  sum of two lengths is taken modulo $2^{32}$, as in the source.
\<close>

definition DecodeEntry :: "bytes \<Rightarrow> (uint32 \<times> uint32 \<times> uint32 \<times> bytes) option" where
  "DecodeEntry p =
     (if length p < 3 then None
      else
        (let shared = ucast (p ! 0) :: uint32; non_shared = ucast (p ! 1) :: uint32;
             value_length = ucast (p ! 2) :: uint32;
             r = (if shared OR non_shared OR value_length < 128
                  then Some (shared, non_shared, value_length, drop 3 p)
                  else do {
                    (shared, p) \<leftarrow> GetVarint32Ptr p;
                    (non_shared, p) \<leftarrow> GetVarint32Ptr p;
                    (value_length, p) \<leftarrow> GetVarint32Ptr p;
                    Some (shared, non_shared, value_length, p)
                  })
         in case r of
              None \<Rightarrow> None
            | Some (shared, non_shared, value_length, p) \<Rightarrow>
                if (of_nat (length p) :: uint32) < non_shared + value_length then None
                else Some (shared, non_shared, value_length, p)))"

subsection \<open>Iterators\<close>

text \<open>The value is a slice of the data, given by its offset and length.\<close>

record BlockIter =
  bi_data :: bytes
  bi_restarts :: uint32
  bi_num_restarts :: uint32
  bi_current :: nat
  bi_restart_index :: nat
  bi_key :: bytes
  bi_voff :: nat
  bi_vlen :: nat
  bi_status :: Status

definition mk_BlockIter :: "bytes \<Rightarrow> uint32 \<Rightarrow> uint32 \<Rightarrow> BlockIter" where
  "mk_BlockIter data restarts num_restarts =
     \<lparr>bi_data = data, bi_restarts = restarts, bi_num_restarts = num_restarts, bi_current = unat restarts,
      bi_restart_index = unat num_restarts, bi_key = [], bi_voff = 0, bi_vlen = 0, bi_status = Status_OK\<rparr>"

definition NextEntryOffset :: "BlockIter \<Rightarrow> nat" where
  "NextEntryOffset it = (bi_voff it + bi_vlen it) mod 2 ^ 32"

definition GetRestartPoint :: "BlockIter \<Rightarrow> nat \<Rightarrow> nat" where
  "GetRestartPoint it index = unat (the (DecodeFixed32 (drop (unat (bi_restarts it) + index * 4) (bi_data it))))"

definition SeekToRestartPoint :: "nat \<Rightarrow> BlockIter \<Rightarrow> BlockIter" where
  "SeekToRestartPoint index it =
     it\<lparr>bi_key := [], bi_restart_index := index, bi_voff := GetRestartPoint it index, bi_vlen := 0\<rparr>"

definition BlockIter_Valid :: "BlockIter \<Rightarrow> bool" where
  "BlockIter_Valid it \<longleftrightarrow> bi_current it < unat (bi_restarts it)"

definition BlockIter_value :: "BlockIter \<Rightarrow> bytes" where
  "BlockIter_value it = take (bi_vlen it) (drop (bi_voff it) (bi_data it))"

text \<open>\<^verbatim>\<open>value_.clear()\<close> leaves an empty slice, wherever it points.\<close>

definition CorruptionError :: "BlockIter \<Rightarrow> BlockIter" where
  "CorruptionError it =
     it\<lparr>bi_current := unat (bi_restarts it), bi_restart_index := unat (bi_num_restarts it),
        bi_status := Corruption (str ''bad entry in block'') [], bi_key := [], bi_voff := 0, bi_vlen := 0\<rparr>"

function restart_loop :: "BlockIter \<Rightarrow> nat \<Rightarrow> nat" where
  "restart_loop it i =
     (if i + 1 < unat (bi_num_restarts it) \<and> GetRestartPoint it (i + 1) < bi_current it
      then restart_loop it (i + 1) else i)"
  by pat_completeness auto
termination
  by (relation "measure (\<lambda>(it, i). unat (bi_num_restarts it) - i)") auto

declare restart_loop.simps [simp del]

definition ParseNextKey :: "BlockIter \<Rightarrow> bool \<times> BlockIter" where
  "ParseNextKey it =
     (let it = it\<lparr>bi_current := NextEntryOffset it\<rparr>;
          limit = unat (bi_restarts it)
      in if bi_current it \<ge> limit
         then (False, it\<lparr>bi_current := limit, bi_restart_index := unat (bi_num_restarts it)\<rparr>)
         else
           (let p = take (limit - bi_current it) (drop (bi_current it) (bi_data it))
            in case DecodeEntry p of
                 None \<Rightarrow> (False, CorruptionError it)
               | Some (shared, non_shared, value_length, q) \<Rightarrow>
                   if length (bi_key it) < unat shared then (False, CorruptionError it)
                   else
                     (let off = bi_current it + (length p - length q);
                          it = it\<lparr>bi_key := take (unat shared) (bi_key it) @ take (unat non_shared) (drop off (bi_data it)),
                                  bi_voff := off + unat non_shared, bi_vlen := unat value_length\<rparr>
                      in (True, it\<lparr>bi_restart_index := restart_loop it (bi_restart_index it)\<rparr>))))"

subsection \<open>Progress of the iterator\<close>

lemma DecodeEntry_length:
  assumes "DecodeEntry p = Some (s, n, v, q)" and "length p < 2 ^ 32"
  shows "length q < length p \<and> unat (n + v) \<le> length q"
proof -
  have len: "length q < length p" if "do { (s, p) \<leftarrow> GetVarint32Ptr p; (n, p) \<leftarrow> GetVarint32Ptr p;
      (v, p) \<leftarrow> GetVarint32Ptr p; Some (s, n, v, p) } = Some (s, n, v, q)" for s n v
    using that by (auto simp: GetVarint32_def [symmetric] dest!: GetVarint32_length split: Option.bind_splits)
  have "length q < length p \<and> \<not> (of_nat (length q) :: uint32) < n + v"
    using assms(1) len by (auto simp: DecodeEntry_def Let_def split: if_splits option.splits)
  moreover have "length q < 2 ^ 32" using calculation assms(2) by simp
  ultimately show ?thesis by (simp add: not_less word_le_nat_alt unat_of_nat_small)
qed

lemma ParseNextKey_progress:
  assumes "ParseNextKey it = (True, it')"
  shows "NextEntryOffset it < unat (bi_restarts it) \<and> NextEntryOffset it < NextEntryOffset it' \<and>
    bi_restarts it' = bi_restarts it"
proof -
  let ?c = "NextEntryOffset it" and ?l = "unat (bi_restarts it)"
  let ?p = "take (?l - ?c) (drop ?c (bi_data it))"
  have c: "?c < ?l" using assms by (auto simp: ParseNextKey_def Let_def split: if_splits)
  then obtain s n v q where d: "DecodeEntry ?p = Some (s, n, v, q)"
    using assms by (auto simp: ParseNextKey_def Let_def CorruptionError_def split: if_splits option.splits)
  define off where "off = ?c + (length ?p - length q)"
  have it': "bi_voff it' = off + unat n" "bi_vlen it' = unat v" "bi_restarts it' = bi_restarts it"
    using assms c d by (auto simp: ParseNextKey_def Let_def off_def split: if_splits)
  have l: "?l < 2 ^ 32" using unsigned_less [of "bi_restarts it"] by simp
  have q: "length q < length ?p" "unat (n + v) \<le> length q" using DecodeEntry_length [OF d] l by auto
  have "length ?p \<le> ?l - ?c" by simp
  then have "off + unat (n + v) \<le> ?l" using q c unfolding off_def by linarith
  moreover have "NextEntryOffset it' = (off + unat (n + v)) mod 2 ^ 32"
    by (simp add: NextEntryOffset_def it' unat_word_ariths add.assoc mod_add_right_eq)
  ultimately have "NextEntryOffset it' = off + unat (n + v)" using l by simp
  moreover have "?c < off" using q(1) unfolding off_def by linarith
  ultimately show ?thesis using c it'(3) by simp
qed

text \<open>
  The loops that call \<^verbatim>\<open>ParseNextKey\<close> until it fails or the condition to stop holds.
\<close>

function ParseUntil :: "(BlockIter \<Rightarrow> bool) \<Rightarrow> BlockIter \<Rightarrow> BlockIter" where
  "ParseUntil stop it =
     (let (ok, it1) = ParseNextKey it in if \<not> ok \<or> stop it1 then it1 else ParseUntil stop it1)"
  by pat_completeness auto
termination
  by (relation "measure (\<lambda>(stop, it). unat (bi_restarts it) - NextEntryOffset it)")
    (auto dest!: ParseNextKey_progress [OF sym])

declare ParseUntil.simps [simp del]

definition BlockIter_Next :: "BlockIter \<Rightarrow> BlockIter" where
  "BlockIter_Next it = snd (ParseNextKey it)"

primrec Prev_loop :: "BlockIter \<Rightarrow> nat \<Rightarrow> nat \<Rightarrow> nat option" where
  "Prev_loop it original 0 = (if GetRestartPoint it 0 \<ge> original then None else Some 0)"
| "Prev_loop it original (Suc i) =
     (if GetRestartPoint it (Suc i) \<ge> original then Prev_loop it original i else Some (Suc i))"

definition BlockIter_Prev :: "BlockIter \<Rightarrow> BlockIter" where
  "BlockIter_Prev it =
     (let original = bi_current it
      in case Prev_loop it original (bi_restart_index it) of
           None \<Rightarrow> it\<lparr>bi_current := unat (bi_restarts it), bi_restart_index := unat (bi_num_restarts it)\<rparr>
         | Some i \<Rightarrow> ParseUntil (\<lambda>it. \<not> NextEntryOffset it < original) (SeekToRestartPoint i it))"

text \<open>The bisection over the restart points; \<open>None\<close> stands for a corrupt entry.\<close>

function Seek_bisect :: "(bytes \<Rightarrow> bytes \<Rightarrow> int) \<Rightarrow> bytes \<Rightarrow> BlockIter \<Rightarrow> nat \<Rightarrow> nat \<Rightarrow> nat option" where
  "Seek_bisect cmp target it left right =
     (if left < right
      then
        (let mid = (left + right + 1) div 2;
             region_offset = GetRestartPoint it mid
         in case DecodeEntry (take (unat (bi_restarts it) - region_offset) (drop region_offset (bi_data it))) of
              None \<Rightarrow> None
            | Some (shared, non_shared, value_length, key_ptr) \<Rightarrow>
                if shared \<noteq> 0 then None
                else if cmp (take (unat non_shared) key_ptr) target < 0
                then Seek_bisect cmp target it mid right
                else Seek_bisect cmp target it left (mid - 1))
      else Some left)"
  by pat_completeness auto
termination
  by (relation "measure (\<lambda>(cmp, target, it, left, right). right - left)") auto

declare Seek_bisect.simps [simp del]

definition BlockIter_Seek :: "(bytes \<Rightarrow> bytes \<Rightarrow> int) \<Rightarrow> bytes \<Rightarrow> BlockIter \<Rightarrow> BlockIter" where
  "BlockIter_Seek cmp target it =
     (case Seek_bisect cmp target it 0 (unat (bi_num_restarts it) - 1) of
        None \<Rightarrow> CorruptionError it
      | Some left \<Rightarrow> ParseUntil (\<lambda>it. cmp (bi_key it) target \<ge> 0) (SeekToRestartPoint left it))"

definition BlockIter_SeekToFirst :: "BlockIter \<Rightarrow> BlockIter" where
  "BlockIter_SeekToFirst it = snd (ParseNextKey (SeekToRestartPoint 0 it))"

definition BlockIter_SeekToLast :: "BlockIter \<Rightarrow> BlockIter" where
  "BlockIter_SeekToLast it =
     ParseUntil (\<lambda>i. \<not> NextEntryOffset i < unat (bi_restarts it))
       (SeekToRestartPoint (unat (bi_num_restarts it) - 1) it)"

definition block_iter :: "(bytes \<Rightarrow> bytes \<Rightarrow> int) \<Rightarrow> BlockIter Iterator" where
  "block_iter cmp =
     \<lparr>it_Valid = BlockIter_Valid, it_SeekToFirst = BlockIter_SeekToFirst, it_SeekToLast = BlockIter_SeekToLast,
      it_Seek = BlockIter_Seek cmp, it_Next = BlockIter_Next, it_Prev = BlockIter_Prev, it_key = bi_key,
      it_value = BlockIter_value, it_status = bi_status\<rparr>"

text \<open>\<^verbatim>\<open>Block::NewIterator\<close>: an empty iterator with its status, or an iterator over the block.\<close>

definition Block_NewIterator :: "Block \<Rightarrow> Status + BlockIter" where
  "Block_NewIterator b =
     (if block_size b < 4 then Inl (NewErrorIterator (Corruption (str ''bad block contents'') []))
      else
        (let num_restarts = NumRestarts (block_data b) (block_size b)
         in if num_restarts = 0 then Inl NewEmptyIterator
            else Inr (mk_BlockIter (block_data b) (restart_offset b) num_restarts)))"

end
