(* ===== verification/Block_Correct.thy ===== *)
theory Block_Correct
  imports Block Dbformat
begin

unbundle bit_operations_syntax

text \<open>
  Correctness of blocks: the iterator over a finished block meets the contract of iterators for the
  entries that were added, whatever the restart interval.
\<close>

subsection \<open>Decoding entries\<close>

definition entry_slow :: "bytes \<Rightarrow> (uint32 \<times> uint32 \<times> uint32 \<times> bytes) option" where
  "entry_slow p = do { (s, p) \<leftarrow> GetVarint32Ptr p; (n, p) \<leftarrow> GetVarint32Ptr p; (v, p) \<leftarrow> GetVarint32Ptr p;
     Some (s, n, v, p) }"

lemma or_less_128:
  fixes a b :: uint32
  assumes "a OR b < 128"
  shows "a AND 128 = 0 \<and> b AND 128 = 0 \<and> b < 128"
proof -
  have "\<not> bit (a OR b) 7" using assms less_pow2_drop_bit_eq_0 [of "a OR b" 7]
    by (auto simp: word_less_nat_alt bit_iff_odd_drop_bit)
  moreover have "b \<le> a OR b" by (simp add: le_word_or1)
  ultimately show ?thesis using assms by (auto simp: and_128_eq_0_iff bit_or_iff)
qed

text \<open>The fast path of \<^verbatim>\<open>DecodeEntry\<close> agrees with reading three varints.\<close>

lemma DecodeEntry_eq:
  "DecodeEntry p = (if length p < 3 then None else case entry_slow p of None \<Rightarrow> None
     | Some (s, n, v, q) \<Rightarrow> if (of_nat (length q) :: uint32) < n + v then None else Some (s, n, v, q))"
proof (cases "length p < 3")
  case False
  then obtain a b c r where p: "p = a # b # c # r" by (auto simp: not_less numeral_3_eq_3 Suc_le_length_iff)
  show ?thesis
  proof (cases "(ucast a OR ucast b OR ucast c :: uint32) < 128")
    case True
    then have "(ucast a :: uint32) AND 128 = 0" "(ucast b :: uint32) AND 128 = 0" "(ucast c :: uint32) AND 128 = 0"
      using or_less_128 by blast+
    then show ?thesis using True by (simp add: DecodeEntry_def entry_slow_def p numeral_2_eq_2)
  next
    case False
    then show ?thesis by (simp add: DecodeEntry_def entry_slow_def p numeral_2_eq_2 Let_def)
  qed
qed (simp add: DecodeEntry_def)

text \<open>An entry: how many bytes it shares with the key before it, its key and its value.\<close>

type_synonym triple = "nat \<times> bytes \<times> bytes"

definition entry_bytes :: "triple \<Rightarrow> bytes" where
  "entry_bytes e = (case e of (s, k, v) \<Rightarrow>
     EncodeVarint32 (of_nat s) @ EncodeVarint32 (of_nat (length k - s)) @ EncodeVarint32 (of_nat (length v)) @
     drop s k @ v)"

lemma EncodeVarint32_nonempty [simp]: "EncodeVarint32 v \<noteq> []" "0 < length (EncodeVarint32 v)"
  by (simp_all add: EncodeVarint32_eq_64)

lemma length_entry_bytes: "3 \<le> length (entry_bytes e)"
proof -
  obtain s k v where e: "e = (s, k, v)" by (cases e)
  have "Suc 0 \<le> length (EncodeVarint32 w)" for w by (simp add: Suc_le_eq)
  from this [of "of_nat s"] this [of "of_nat (length k - s)"] this [of "of_nat (length v)"]
  show ?thesis by (simp add: e entry_bytes_def)
qed

lemma DecodeEntry_entry:
  assumes "length (entry_bytes (s, k, v) @ rest) < 2 ^ 32" and "s \<le> length k"
  shows "DecodeEntry (entry_bytes (s, k, v) @ rest) =
    Some (of_nat s, of_nat (length k - s), of_nat (length v), drop s k @ v @ rest)"
proof -
  have l: "length k - s + length v + length rest < 2 ^ 32"
    using assms(1) by (simp add: entry_bytes_def)
  have "(of_nat (length k - s) + of_nat (length v) :: uint32) = of_nat (length k - s + length v)" by simp
  moreover have "unat (of_nat (length k - s + length v) :: uint32) = length k - s + length v"
    "unat (of_nat (length k - s + (length v + length rest)) :: uint32) = length k - s + (length v + length rest)"
    using l by (intro unat_of_nat_small; simp)+
  ultimately have "\<not> (of_nat (length (drop s k @ v @ rest)) :: uint32) < of_nat (length k - s) + of_nat (length v)"
    by (simp add: word_less_nat_alt del: of_nat_add)
  moreover have "entry_slow (entry_bytes (s, k, v) @ rest) =
      Some (of_nat s, of_nat (length k - s), of_nat (length v), drop s k @ v @ rest)"
    by (simp add: entry_slow_def entry_bytes_def GetVarint32Ptr_Encode)
  moreover have "\<not> length (entry_bytes (s, k, v) @ rest) < 3"
    using length_entry_bytes [of "(s, k, v)"] by simp
  ultimately show ?thesis unfolding DecodeEntry_eq by simp
qed

subsection \<open>Layout of a block\<close>

definition blk_buf :: "triple list \<Rightarrow> bytes" where
  "blk_buf ts = concat (map entry_bytes ts)"

definition blk_off :: "triple list \<Rightarrow> nat \<Rightarrow> nat" where
  "blk_off ts i = length (blk_buf (take i ts))"

definition restart_bytes :: "triple list \<Rightarrow> nat list \<Rightarrow> bytes" where
  "restart_bytes ts rs = concat (map EncodeFixed32 (map (\<lambda>r. of_nat (blk_off ts r)) rs)) @ EncodeFixed32 (of_nat (length rs))"

definition blk_layout :: "triple list \<Rightarrow> nat list \<Rightarrow> bytes" where
  "blk_layout ts rs = blk_buf ts @ restart_bytes ts rs"

text \<open>
  The shared bytes of every entry are those of the key before it; the restart points are entries that
  share nothing, the first entry among them.
\<close>

fun prefix_chain :: "bytes \<Rightarrow> triple list \<Rightarrow> bool" where
  "prefix_chain prev [] \<longleftrightarrow> True"
| "prefix_chain prev ((s, k, v) # ts) \<longleftrightarrow>
     s \<le> length prev \<and> s \<le> length k \<and> take s prev = take s k \<and> prefix_chain k ts"

definition blk_ok :: "triple list \<Rightarrow> nat list \<Rightarrow> bool" where
  "blk_ok ts rs \<longleftrightarrow> prefix_chain [] ts \<and> rs \<noteq> [] \<and> rs ! 0 = 0 \<and>
     (if ts = [] then rs = [0] else \<forall>r\<in>set rs. r < length ts \<and> fst (ts ! r) = 0) \<and>
     (\<forall>t\<in>set ts. length (fst (snd t)) < 2 ^ 32) \<and> length (blk_layout ts rs) < 2 ^ 32"

lemma blk_off_0 [simp]: "blk_off ts 0 = 0"
  by (simp add: blk_off_def blk_buf_def)

lemma blk_off_Suc: "i < length ts \<Longrightarrow> blk_off ts (Suc i) = blk_off ts i + length (entry_bytes (ts ! i))"
  by (simp add: blk_off_def blk_buf_def take_Suc_conv_app_nth)

lemma blk_off_length: "blk_off ts (length ts) = length (blk_buf ts)"
  by (simp add: blk_off_def)

lemma blk_buf_split: "i < length ts \<Longrightarrow>
  blk_buf ts = blk_buf (take i ts) @ entry_bytes (ts ! i) @ blk_buf (drop (Suc i) ts)"
  by (subst id_take_nth_drop [of i ts]) (simp_all add: blk_buf_def)

lemma blk_off_less: "i < j \<Longrightarrow> j \<le> length ts \<Longrightarrow> blk_off ts i < blk_off ts j"
proof (induction j)
  case (Suc j)
  then have j: "j < length ts" by simp
  have "blk_off ts j < blk_off ts (Suc j)"
    using length_entry_bytes [of "ts ! j"] blk_off_Suc [OF j] by linarith
  then show ?case using Suc by (cases "i = j") auto
qed simp

lemma blk_off_less_iff: "i \<le> length ts \<Longrightarrow> j \<le> length ts \<Longrightarrow> blk_off ts i < blk_off ts j \<longleftrightarrow> i < j"
  using blk_off_less [of i j ts] blk_off_less [of j i ts] by (cases i j rule: linorder_cases) auto

lemma drop_blk_off: "i < length ts \<Longrightarrow>
  drop (blk_off ts i) (blk_layout ts rs) = entry_bytes (ts ! i) @ blk_buf (drop (Suc i) ts) @ restart_bytes ts rs"
  by (simp add: blk_layout_def blk_buf_split [of i ts] blk_off_def)

lemma prefix_chainD:
  assumes "prefix_chain prev ts" and "i < length ts" and "ts ! i = (s, k, v)"
  shows "s \<le> length k \<and> s \<le> length (if i = 0 then prev else fst (snd (ts ! (i - 1)))) \<and>
    take s (if i = 0 then prev else fst (snd (ts ! (i - 1)))) = take s k"
  using assms
proof (induction prev ts arbitrary: i rule: prefix_chain.induct)
  case (2 prev s' k' v' ts)
  show ?case
  proof (cases i)
    case (Suc j)
    then show ?thesis using "2.IH" [of j] "2.prems" by (simp add: nth_Cons' split: if_splits)
  qed (use "2.prems" in auto)
qed simp

subsection \<open>The iterator on a block\<close>

text \<open>The state of an iterator over a block, without its position.\<close>

definition blk_state :: "BlockIter \<Rightarrow> triple list \<Rightarrow> nat list \<Rightarrow> bool" where
  "blk_state it ts rs \<longleftrightarrow> blk_ok ts rs \<and> bi_data it = blk_layout ts rs \<and>
     unat (bi_restarts it) = length (blk_buf ts) \<and> unat (bi_num_restarts it) = length rs \<and> Status_ok (bi_status it)"

text \<open>The next entry to parse is entry \<open>i\<close>, and the key holds what it shares with the one before.\<close>

definition blk_ready :: "BlockIter \<Rightarrow> triple list \<Rightarrow> nat list \<Rightarrow> nat \<Rightarrow> bool" where
  "blk_ready it ts rs i \<longleftrightarrow> blk_state it ts rs \<and> i \<le> length ts \<and> NextEntryOffset it = blk_off ts i \<and>
     bi_restart_index it < length rs \<and>
     (i < length ts \<longrightarrow> fst (ts ! i) \<le> length (bi_key it) \<and>
        take (fst (ts ! i)) (bi_key it) = take (fst (ts ! i)) (fst (snd (ts ! i))))"

definition blk_at :: "BlockIter \<Rightarrow> triple list \<Rightarrow> nat list \<Rightarrow> nat \<Rightarrow> bool" where
  "blk_at it ts rs i \<longleftrightarrow> blk_state it ts rs \<and> i \<le> length ts \<and> bi_current it = blk_off ts i \<and>
     (i < length ts \<longrightarrow> bi_key it = fst (snd (ts ! i)) \<and> BlockIter_value it = snd (snd (ts ! i)) \<and>
        blk_ready it ts rs (Suc i))"

lemma blk_sizes:
  assumes "blk_ok ts rs"
  shows "length (blk_buf ts) < 2 ^ 32" "length rs < 2 ^ 32"
    and "r \<le> length ts \<Longrightarrow> blk_off ts r \<le> length (blk_buf ts)"
proof -
  show "length (blk_buf ts) < 2 ^ 32" "length rs < 2 ^ 32"
    using assms by (simp_all add: blk_ok_def blk_layout_def restart_bytes_def del: map_map)
  show "blk_off ts r \<le> length (blk_buf ts)" if "r \<le> length ts"
    using blk_off_less_iff [OF _ that, of "length ts"] that by (simp add: blk_off_length not_less [symmetric])
qed

lemma restart_bound: "blk_ok ts rs \<Longrightarrow> j < length rs \<Longrightarrow> rs ! j \<le> length ts - 1"
proof (cases "ts = []")
  case False
  assume "blk_ok ts rs" "j < length rs"
  then have "rs ! j < length ts" using False nth_mem [of j rs] by (auto simp: blk_ok_def)
  then show ?thesis by simp
qed (simp add: blk_ok_def)

lemma restart_le: "blk_ok ts rs \<Longrightarrow> j < length rs \<Longrightarrow> rs ! j \<le> length ts"
  using restart_bound [of ts rs j] by simp

lemma GetRestartPoint_eq:
  assumes "blk_state it ts rs" and "j < length rs"
  shows "GetRestartPoint it j = blk_off ts (rs ! j)"
proof -
  have ok: "blk_ok ts rs" using assms(1) by (simp add: blk_state_def)
  let ?ws = "map (\<lambda>r. of_nat (blk_off ts r) :: uint32) rs"
  have "DecodeFixed32 (drop (4 * j) (concat (map EncodeFixed32 ?ws) @ EncodeFixed32 (of_nat (length rs)))) = Some (?ws ! j)"
    using assms(2) by (intro DecodeFixed32_nth) simp
  moreover have "drop (length (blk_buf ts) + j * 4) (blk_layout ts rs) =
      drop (4 * j) (concat (map EncodeFixed32 ?ws) @ EncodeFixed32 (of_nat (length rs)))"
    by (simp add: blk_layout_def restart_bytes_def mult.commute)
  moreover have "blk_off ts (rs ! j) < 2 ^ 32"
    using blk_sizes [OF ok] restart_le [OF ok assms(2)] by (meson order_le_less_trans)
  ultimately show ?thesis
    using assms by (simp add: GetRestartPoint_def blk_state_def unat_of_nat_small)
qed

lemma restart_loop_less: "i < unat (bi_num_restarts it) \<Longrightarrow> restart_loop it i < unat (bi_num_restarts it)"
proof (induction it i rule: restart_loop.induct)
  case (1 it i)
  then show ?case by (subst restart_loop.simps) simp
qed

lemma ParseNextKey_end:
  assumes "blk_ready it ts rs (length ts)"
  shows "\<exists>it'. ParseNextKey it = (False, it') \<and> blk_at it' ts rs (length ts)"
  using assms by (auto simp: ParseNextKey_def Let_def blk_ready_def blk_at_def blk_state_def blk_off_length)

lemma ParseNextKey_ready:
  assumes rdy: "blk_ready it ts rs i" and i: "i < length ts"
  shows "\<exists>it'. ParseNextKey it = (True, it') \<and> blk_at it' ts rs i"
proof -
  obtain s k v where e: "ts ! i = (s, k, v)" by (cases "ts ! i")
  have st: "blk_state it ts rs" and ok: "blk_ok ts rs" using rdy by (simp_all add: blk_ready_def blk_state_def)
  note sizes = blk_sizes [OF ok]
  have chain: "prefix_chain [] ts" using ok by (simp add: blk_ok_def)
  note ch = prefix_chainD [OF chain i e]
  have cur: "NextEntryOffset it = blk_off ts i" and key: "s \<le> length (bi_key it)" "take s (bi_key it) = take s k"
    using rdy i e by (simp_all add: blk_ready_def)
  have lim: "unat (bi_restarts it) = length (blk_buf ts)" and data: "bi_data it = blk_layout ts rs"
    using st by (simp_all add: blk_state_def)
  have less: "blk_off ts i < length (blk_buf ts)" using blk_off_less [OF i order_refl] by (simp add: blk_off_length)
  let ?rest = "blk_buf (drop (Suc i) ts)"
  let ?p = "entry_bytes (s, k, v) @ ?rest"
  have lp: "length (blk_buf ts) - blk_off ts i = length ?p"
    using blk_buf_split [OF i] e by (simp add: blk_off_def)
  have p: "take (length (blk_buf ts) - blk_off ts i) (drop (blk_off ts i) (bi_data it)) = ?p"
    unfolding data drop_blk_off [OF i] lp e by simp
  have small: "length ?p < 2 ^ 32" using sizes(1) lp by linarith
  have dec: "DecodeEntry ?p = Some (of_nat s, of_nat (length k - s), of_nat (length v), drop s k @ v @ ?rest)"
    using DecodeEntry_entry [OF small] ch by blast
  have "length k < 2 ^ 32" using ok e i by (force simp: blk_ok_def dest: nth_mem)
  moreover have "length v < 2 ^ 32" using small by (simp add: entry_bytes_def)
  ultimately have u: "unat (of_nat s :: uint32) = s" "unat (of_nat (length k - s) :: uint32) = length k - s"
    "unat (of_nat (length v) :: uint32) = length v"
    using ch by (intro unat_of_nat_small; simp)+
  let ?off = "blk_off ts i + (length ?p - length (drop s k @ v @ ?rest))"
  have hd: "drop (length ?p - length (drop s k @ v @ ?rest)) ?p = drop s k @ v @ ?rest"
    by (simp add: entry_bytes_def)
  have offs: "drop ?off (bi_data it) = drop s k @ v @ ?rest @ restart_bytes ts rs"
  proof -
    have "drop ?off (bi_data it) = drop (length ?p - length (drop s k @ v @ ?rest)) (drop (blk_off ts i) (bi_data it))"
      by (simp only: drop_drop add.commute [of "blk_off ts i"])
    also have "drop (blk_off ts i) (bi_data it) = ?p @ restart_bytes ts rs"
      unfolding data drop_blk_off [OF i] e by simp
    also have "drop (length ?p - length (drop s k @ v @ ?rest)) (?p @ restart_bytes ts rs) =
        drop (length ?p - length (drop s k @ v @ ?rest)) ?p @ restart_bytes ts rs" by simp
    finally show ?thesis unfolding hd by simp
  qed
  have nxt: "?off + (length k - s) + length v = blk_off ts (Suc i)"
    using blk_off_Suc [OF i] e ch by (simp add: entry_bytes_def)
  define it1 where "it1 = it\<lparr>bi_current := blk_off ts i, bi_key := k, bi_voff := ?off + (length k - s), bi_vlen := length v\<rparr>"
  define it' where "it' = it1\<lparr>bi_restart_index := restart_loop it1 (bi_restart_index it)\<rparr>"
  have "take s k @ drop s k = k" by simp
  then have parse: "ParseNextKey it = (True, it')"
    unfolding ParseNextKey_def Let_def
    using less dec u key by (simp add: cur lim p offs it1_def it'_def del: length_append)
  have val: "BlockIter_value it' = v"
  proof -
    have "drop (?off + (length k - s)) (bi_data it) = drop (length k - s) (drop ?off (bi_data it))"
      by (simp only: drop_drop add.commute)
    also have "\<dots> = v @ ?rest @ restart_bytes ts rs" unfolding offs by simp
    finally show ?thesis by (simp add: BlockIter_value_def it'_def it1_def)
  qed
  have st': "blk_state it' ts rs" using st by (simp add: blk_state_def it'_def it1_def)
  have "bi_restart_index it < length rs" using rdy by (simp add: blk_ready_def)
  then have ri: "bi_restart_index it' < length rs"
    using restart_loop_less [of "bi_restart_index it" it1] st by (simp add: it'_def it1_def blk_state_def)
  have "blk_off ts (Suc i) < 2 ^ 32" using sizes(1) sizes(3) [of "Suc i"] i by simp
  then have "NextEntryOffset it' = blk_off ts (Suc i)"
    using nxt by (simp add: NextEntryOffset_def it'_def it1_def)
  moreover have "fst (ts ! Suc i) \<le> length k \<and> take (fst (ts ! Suc i)) k = take (fst (ts ! Suc i)) (fst (snd (ts ! Suc i)))"
    if "Suc i < length ts"
    using prefix_chainD [OF chain that, of "fst (ts ! Suc i)" "fst (snd (ts ! Suc i))" "snd (snd (ts ! Suc i))"] e by simp
  ultimately have "blk_ready it' ts rs (Suc i)"
    using st' ri i by (simp add: blk_ready_def it'_def it1_def)
  then have "blk_at it' ts rs i" using st' i val e by (simp add: blk_at_def it'_def it1_def)
  with parse show ?thesis by blast
qed

text \<open>The scanning loops stop at the first entry for which their condition holds.\<close>

lemma ParseUntil_spec:
  assumes rdy: "blk_ready it ts rs i" and j: "i \<le> j" "j \<le> length ts"
    and stop: "\<And>it m. blk_at it ts rs m \<Longrightarrow> m < length ts \<Longrightarrow> i \<le> m \<Longrightarrow> m \<le> j \<Longrightarrow> stop it \<longleftrightarrow> m = j"
  shows "blk_at (ParseUntil stop it) ts rs j"
  using assms
proof (induction "j - i" arbitrary: it i)
  case 0
  show ?case
  proof (cases "i < length ts")
    case True
    from ParseNextKey_ready [OF 0(2) True] obtain it' where "ParseNextKey it = (True, it')" "blk_at it' ts rs i" by blast
    then show ?thesis using 0 True by (subst ParseUntil.simps) auto
  next
    case False
    then have "i = length ts" using 0 by simp
    from ParseNextKey_end [OF 0(2) [unfolded this]] obtain it' where
      "ParseNextKey it = (False, it')" "blk_at it' ts rs (length ts)" by blast
    then show ?thesis using 0 \<open>i = length ts\<close> by (subst ParseUntil.simps) auto
  qed
next
  case (Suc d)
  then have i: "i < length ts" "i < j" by simp_all
  from ParseNextKey_ready [OF Suc(3) i(1)] obtain it' where it': "ParseNextKey it = (True, it')" "blk_at it' ts rs i" by blast
  then have "blk_ready it' ts rs (Suc i)" using i by (simp add: blk_at_def)
  then have "blk_at (ParseUntil stop it') ts rs j" using Suc.hyps(1) [of "Suc i" it'] Suc.hyps(2) Suc.prems by simp
  moreover have "\<not> stop it'" using Suc.prems(4) [OF it'(2) i(1)] i by simp
  ultimately show ?case using it'(1) by (subst ParseUntil.simps) simp
qed

lemma SeekToRestartPoint_ready:
  assumes "blk_state it ts rs" and "j < length rs"
  shows "blk_ready (SeekToRestartPoint j it) ts rs (rs ! j)"
proof -
  have ok: "blk_ok ts rs" using assms(1) by (simp add: blk_state_def)
  note le = restart_le [OF ok assms(2)]
  have "blk_off ts (rs ! j) < 2 ^ 32" using blk_sizes [OF ok] le by (meson order_le_less_trans)
  moreover have "fst (ts ! (rs ! j)) = 0" if "rs ! j < length ts"
    using ok assms(2) that by (auto simp: blk_ok_def dest: nth_mem split: if_splits)
  ultimately show ?thesis
    using assms GetRestartPoint_eq [OF assms] le
    by (simp add: blk_ready_def blk_state_def SeekToRestartPoint_def NextEntryOffset_def)
qed

lemma blk_at_state: "blk_at it ts rs i \<Longrightarrow> blk_state it ts rs"
  by (simp add: blk_at_def)

lemma blk_nonempty: "blk_state it ts rs \<Longrightarrow> 0 < length rs \<and> rs ! 0 = 0"
  by (simp add: blk_state_def blk_ok_def)

lemma SeekToFirst_blk:
  assumes "blk_state it ts rs"
  shows "blk_at (BlockIter_SeekToFirst it) ts rs 0"
proof -
  have rdy: "blk_ready (SeekToRestartPoint 0 it) ts rs 0"
    using SeekToRestartPoint_ready [OF assms, of 0] blk_nonempty [OF assms] by simp
  show ?thesis
  proof (cases "ts = []")
    case True
    then show ?thesis
      using ParseNextKey_end [of "SeekToRestartPoint 0 it" ts rs] rdy by (auto simp: BlockIter_SeekToFirst_def)
  next
    case False
    then show ?thesis using ParseNextKey_ready [OF rdy] by (auto simp: BlockIter_SeekToFirst_def)
  qed
qed

lemma SeekToLast_blk:
  assumes st: "blk_state it ts rs"
  shows "blk_at (BlockIter_SeekToLast it) ts rs (length ts - 1)"
proof -
  have ok: "blk_ok ts rs" and n: "unat (bi_num_restarts it) = length rs" "unat (bi_restarts it) = length (blk_buf ts)"
    using st by (simp_all add: blk_state_def)
  have l: "length rs - 1 < length rs" using blk_nonempty [OF st] by simp
  note le = restart_bound [OF ok l]
  have "blk_at (ParseUntil (\<lambda>i. \<not> NextEntryOffset i < length (blk_buf ts)) (SeekToRestartPoint (length rs - 1) it))
      ts rs (length ts - 1)"
    by (rule ParseUntil_spec [OF SeekToRestartPoint_ready [OF st l] le])
      (auto simp: blk_at_def blk_ready_def blk_off_less_iff simp flip: blk_off_length)
  then show ?thesis by (simp add: BlockIter_SeekToLast_def n)
qed

lemma Next_blk:
  assumes "blk_at it ts rs i" and "i < length ts"
  shows "blk_at (BlockIter_Next it) ts rs (Suc i)"
proof -
  have rdy: "blk_ready it ts rs (Suc i)" using assms by (simp add: blk_at_def)
  show ?thesis
  proof (cases "Suc i < length ts")
    case True
    then show ?thesis using ParseNextKey_ready [OF rdy] by (auto simp: BlockIter_Next_def)
  next
    case False
    then have "Suc i = length ts" using assms(2) by simp
    then show ?thesis using ParseNextKey_end [of it ts rs] rdy by (auto simp: BlockIter_Next_def)
  qed
qed

lemma Prev_loop_spec:
  assumes st: "blk_state it ts rs" and j: "j < length rs" and i: "i \<le> length ts"
  shows "case Prev_loop it (blk_off ts i) j of None \<Rightarrow> i = 0 | Some m \<Rightarrow> m < length rs \<and> rs ! m < i"
  using j
proof (induction j)
  case 0
  have "rs ! 0 = 0" using blk_nonempty [OF st] by simp
  then show ?case using GetRestartPoint_eq [OF st 0] blk_off_less_iff [of 0 ts i] i 0 by auto
next
  case (Suc j)
  have "rs ! Suc j \<le> length ts" using restart_le [of ts rs] st Suc.prems by (simp add: blk_state_def)
  then show ?case
    using Suc GetRestartPoint_eq [OF st Suc.prems] blk_off_less_iff [of "rs ! Suc j" ts i] i by auto
qed

lemma Prev_blk:
  assumes at: "blk_at it ts rs i" and i: "i < length ts"
  shows "blk_at (BlockIter_Prev it) ts rs (if i = 0 then length ts else i - 1)"
proof -
  note st = blk_at_state [OF at]
  have cur: "bi_current it = blk_off ts i" and ri: "bi_restart_index it < length rs"
    using at i by (simp_all add: blk_at_def blk_ready_def)
  note spec = Prev_loop_spec [OF st ri less_imp_le [OF i]]
  show ?thesis
  proof (cases "Prev_loop it (blk_off ts i) (bi_restart_index it)")
    case None
    then have "i = 0" using spec by simp
    then show ?thesis
      using None st by (simp add: BlockIter_Prev_def cur blk_at_def blk_state_def blk_off_length)
  next
    case (Some m)
    then have m: "m < length rs" "rs ! m < i" using spec by simp_all
    have "blk_at (ParseUntil (\<lambda>it. \<not> NextEntryOffset it < blk_off ts i) (SeekToRestartPoint m it)) ts rs (i - 1)"
      by (rule ParseUntil_spec [OF SeekToRestartPoint_ready [OF st m(1)]])
        (use m i in \<open>auto simp: blk_at_def blk_ready_def blk_off_less_iff\<close>)
    then show ?thesis using Some m by (simp add: BlockIter_Prev_def cur)
  qed
qed

context byte_comparator
begin

lemma Seek_bisect_spec:
  assumes st: "blk_state it ts rs" and r: "right < length rs" and ne: "ts \<noteq> []"
    and l: "left \<le> right" "left = 0 \<or> Compare (fst (snd (ts ! (rs ! left)))) t < 0"
  shows "\<exists>m<length rs. Seek_bisect Compare t it left right = Some m \<and>
    (m = 0 \<or> Compare (fst (snd (ts ! (rs ! m)))) t < 0)"
  using r l
proof (induction "right - left" arbitrary: left right rule: less_induct)
  case less
  have ok: "blk_ok ts rs" and lim: "unat (bi_restarts it) = length (blk_buf ts)" and data: "bi_data it = blk_layout ts rs"
    using st by (simp_all add: blk_state_def)
  show ?case
  proof (cases "left < right")
    case False
    then show ?thesis using less.prems by (subst Seek_bisect.simps) auto
  next
    case True
    define mid where "mid = (left + right + 1) div 2"
    have mid: "left < mid" "mid \<le> right" "mid < length rs" using True less.prems(1) by (auto simp: mid_def)
    define i where "i = rs ! mid"
    have i: "i < length ts" "fst (ts ! i) = 0"
      using ok mid(3) ne by (auto simp: i_def blk_ok_def dest: nth_mem)
    obtain k v where e: "ts ! i = (0, k, v)" using i(2) by (cases "ts ! i") auto
    let ?p = "entry_bytes (0, k, v) @ blk_buf (drop (Suc i) ts)"
    have lp: "length (blk_buf ts) - blk_off ts i = length ?p"
      using blk_buf_split [OF i(1)] e by (simp add: blk_off_def)
    have p: "take (length (blk_buf ts) - blk_off ts i) (drop (blk_off ts i) (bi_data it)) = ?p"
      unfolding data drop_blk_off [OF i(1)] lp e by simp
    have "length ?p < 2 ^ 32" using blk_sizes(1) [OF ok] lp by linarith
    from DecodeEntry_entry [OF this] have
      dec: "DecodeEntry ?p = Some (0, of_nat (length k), of_nat (length v), k @ v @ blk_buf (drop (Suc i) ts))" by simp
    have "length k < 2 ^ 32" using ok e i(1) by (force simp: blk_ok_def dest: nth_mem)
    then have u: "unat (of_nat (length k) :: uint32) = length k" by (intro unat_of_nat_small) simp
    have step: "Seek_bisect Compare t it left right =
        (if Compare k t < 0 then Seek_bisect Compare t it mid right else Seek_bisect Compare t it left (mid - 1))"
      using True GetRestartPoint_eq [OF st mid(3)] p dec u lim
      unfolding Seek_bisect.simps [of Compare t it left right] Let_def mid_def [symmetric]
      by (simp add: i_def [symmetric])
    show ?thesis
    proof (cases "Compare k t < 0")
      case True
      have "right - mid < right - left" using mid by simp
      from less.hyps [OF this less.prems(1) mid(2)] show ?thesis
        unfolding step using True e by (simp add: i_def)
    next
      case False
      have "mid - 1 - left < right - left" "mid - 1 < length rs" "left \<le> mid - 1" using mid by simp_all
      from less.hyps [OF this less.prems(3)] show ?thesis unfolding step using False by simp
    qed
  qed
qed

lemma Seek_blk:
  assumes st: "blk_state it ts rs" and srt: "sorted_entries (map snd ts)" and t: "ok t"
  shows "blk_at (BlockIter_Seek Compare t it) ts rs (seek_pos Compare (map snd ts) t)"
proof -
  let ?j = "seek_pos Compare (map snd ts) t"
  have n: "unat (bi_num_restarts it) = length rs" using st by (simp add: blk_state_def)
  obtain m where m: "m < length rs" "Seek_bisect Compare t it 0 (length rs - 1) = Some m"
    "ts \<noteq> [] \<Longrightarrow> m = 0 \<or> Compare (fst (snd (ts ! (rs ! m)))) t < 0"
  proof (cases "ts = []")
    case True
    then have "rs = [0]" using st by (simp add: blk_state_def blk_ok_def)
    moreover have "Seek_bisect Compare t it 0 0 = Some 0" by (subst Seek_bisect.simps) simp
    ultimately show thesis using that [of 0] True by simp
  next
    case False
    then show thesis using Seek_bisect_spec [OF st _ False, of "length rs - 1" 0 t] blk_nonempty [OF st] that by auto
  qed
  have le: "?j \<le> length ts" by (simp add: seek_pos_def length_takeWhile_le [of _ "map snd ts", simplified])
  have before: "Compare (fst (snd (ts ! i))) t < 0" if "i < ?j" for i
    using takeWhile_nth [of i "\<lambda>e. Compare (fst e) t < 0" "map snd ts"] nth_mem [of i "takeWhile (\<lambda>e. Compare (fst e) t < 0) (map snd ts)"]
      that le by (auto simp: seek_pos_def dest!: set_takeWhileD)
  have at: "\<not> Compare (fst (snd (ts ! ?j))) t < 0" if "?j < length ts"
    using nth_length_takeWhile [of "\<lambda>e. Compare (fst e) t < 0" "map snd ts"] that by (simp add: seek_pos_def)
  have start: "rs ! m \<le> ?j"
  proof (rule ccontr)
    assume "\<not> rs ! m \<le> ?j"
    then have j: "?j < rs ! m" by simp
    have r: "rs ! m \<le> length ts" using restart_le [of ts rs m] st m(1) by (simp add: blk_state_def)
    have "m \<noteq> 0" using j blk_nonempty [OF st] by (metis not_less_zero)
    moreover have "ts \<noteq> []" using j r by auto
    ultimately have less: "Compare (fst (snd (ts ! (rs ! m)))) t < 0" using m(3) by blast
    have rl: "rs ! m < length ts" using st m(1) \<open>ts \<noteq> []\<close> by (auto simp: blk_state_def blk_ok_def dest: nth_mem)
    have "Compare (fst (snd (ts ! ?j))) (fst (snd (ts ! (rs ! m)))) < 0"
      "ok (fst (snd (ts ! ?j)))" "ok (fst (snd (ts ! (rs ! m))))"
      using sorted_entriesD(1) [OF srt j] sorted_entriesD(2) [OF srt] j rl by simp_all
    then have "Compare (fst (snd (ts ! ?j))) t < 0" using Compare_trans less t by blast
    then show False using at j rl by simp
  qed
  have "blk_at (ParseUntil (\<lambda>it. Compare (bi_key it) t \<ge> 0) (SeekToRestartPoint m it)) ts rs ?j"
  proof (rule ParseUntil_spec [OF SeekToRestartPoint_ready [OF st m(1)] start le])
    fix it n assume "blk_at it ts rs n" "n < length ts" "n \<le> ?j"
    then show "Compare (bi_key it) t \<ge> 0 \<longleftrightarrow> n = ?j" using before [of n] at by (auto simp: blk_at_def not_less order.order_iff_strict)
  qed
  then show ?thesis unfolding BlockIter_Seek_def n m(2) by simp
qed

definition blk_iter_at :: "BlockIter \<Rightarrow> entry list \<Rightarrow> nat \<Rightarrow> bool" where
  "blk_iter_at it es i \<longleftrightarrow> (\<exists>ts rs. es = map snd ts \<and> blk_at it ts rs i) \<and> sorted_entries es"

end

sublocale byte_comparator \<subseteq> block: kv_iterator ok Compare "block_iter Compare" blk_iter_at
proof unfold_locales
  fix s es i assume "blk_iter_at s es i"
  then obtain ts rs where at: "es = map snd ts" "blk_at s ts rs i" "sorted_entries es" by (auto simp: blk_iter_at_def)
  note st = blk_at_state [OF at(2)]
  show "i \<le> length es" "sorted_entries es" using at by (auto simp: blk_at_def)
  show "it_Valid (block_iter Compare) s \<longleftrightarrow> i < length es"
    using at blk_off_less_iff [of i ts "length ts"]
    by (simp add: block_iter_def BlockIter_Valid_def blk_at_def blk_state_def blk_off_length)
  show "Status_ok (it_status (block_iter Compare) s)" using st by (simp add: block_iter_def blk_state_def)
  show "blk_iter_at (it_SeekToFirst (block_iter Compare) s) es 0"
    using SeekToFirst_blk [OF st] at by (auto simp: block_iter_def blk_iter_at_def)
  show "blk_iter_at (it_SeekToLast (block_iter Compare) s) es (length es - 1)"
    using SeekToLast_blk [OF st] at by (auto simp: block_iter_def blk_iter_at_def)
  show "blk_iter_at (it_Seek (block_iter Compare) t s) es (seek_pos Compare es t)" if "ok t" for t
    using Seek_blk [OF st _ that] at by (auto simp: block_iter_def blk_iter_at_def)
  assume i: "i < length es"
  show "it_key (block_iter Compare) s = fst (es ! i)" "it_value (block_iter Compare) s = snd (es ! i)"
    using at i by (simp_all add: block_iter_def blk_at_def)
  show "blk_iter_at (it_Next (block_iter Compare) s) es (Suc i)"
    using Next_blk [OF at(2)] at(1,3) i by (auto simp: block_iter_def blk_iter_at_def)
  show "blk_iter_at (it_Prev (block_iter Compare) s) es (if i = 0 then length es else i - 1)"
    using Prev_blk [OF at(2)] at(1,3) i unfolding block_iter_def blk_iter_at_def by (auto split: if_splits)
qed

subsection \<open>The builder\<close>

lemma shared_loop_prefix:
  "shared_loop a b \<le> length a \<and> shared_loop a b \<le> length b \<and> take (shared_loop a b) a = take (shared_loop a b) b"
  by (induction a b rule: shared_loop.induct) auto

lemma prefix_chain_snoc:
  "prefix_chain prev (ts @ [(s, k, v)]) \<longleftrightarrow> prefix_chain prev ts \<and>
     (let l = (if ts = [] then prev else fst (snd (last ts))) in s \<le> length l \<and> s \<le> length k \<and> take s l = take s k)"
  by (induction prev ts rule: prefix_chain.induct) auto

lemma blk_off_snoc: "r \<le> length ts \<Longrightarrow> blk_off (ts @ [t]) r = blk_off ts r"
  by (simp add: blk_off_def)

definition builder_ok :: "BlockBuilder \<Rightarrow> triple list \<Rightarrow> nat list \<Rightarrow> bool" where
  "builder_ok b ts rs \<longleftrightarrow> bb_buffer b = blk_buf ts \<and> bb_restarts b = map (\<lambda>r. of_nat (blk_off ts r)) rs \<and>
     prefix_chain [] ts \<and> bb_last_key b = (if ts = [] then [] else fst (snd (last ts))) \<and> rs \<noteq> [] \<and> rs ! 0 = 0 \<and>
     (if ts = [] then rs = [0] \<and> bb_counter b = 0 else \<forall>r\<in>set rs. r < length ts \<and> fst (ts ! r) = 0)"

lemma builder_ok_init: "builder_ok mk_BlockBuilder [] [0]"
  by (simp add: builder_ok_def mk_BlockBuilder_def blk_buf_def)

lemma builder_Add:
  assumes b: "builder_ok b ts rs" and n: "1 \<le> n"
  shows "\<exists>s rs'. builder_ok (BlockBuilder_Add n k v b) (ts @ [(s, k, v)]) rs'"
proof -
  define s where "s = (if bb_counter b < n then shared_loop (bb_last_key b) k else 0)"
  define rs' where "rs' = (if bb_counter b < n then rs else rs @ [length ts])"
  let ?b = "BlockBuilder_Add n k v b"
  note sh = shared_loop_prefix [of "bb_last_key b" k]
  have s: "s \<le> length (bb_last_key b)" "s \<le> length k" "take s (bb_last_key b) = take s k"
    using sh by (auto simp: s_def)
  have empty: "bb_counter b < n" if "ts = []" using b n that by (simp add: builder_ok_def)
  have "bb_buffer ?b = blk_buf (ts @ [(s, k, v)])"
    using b by (simp add: BlockBuilder_Add_def Let_def s_def builder_ok_def blk_buf_def entry_bytes_def PutVarint32_def)
  moreover have "bb_last_key ?b = k"
    using s by (auto simp: BlockBuilder_Add_def Let_def s_def)
  moreover have "bb_restarts ?b = map (\<lambda>r. of_nat (blk_off (ts @ [(s, k, v)]) r)) rs'"
  proof -
    have "\<forall>r\<in>set rs. r \<le> length ts" using b by (auto simp: builder_ok_def split: if_splits)
    then show ?thesis
      using b by (auto simp: BlockBuilder_Add_def Let_def rs'_def builder_ok_def blk_off_snoc blk_off_length)
  qed
  moreover have "prefix_chain [] (ts @ [(s, k, v)])"
    using b s by (simp add: prefix_chain_snoc Let_def builder_ok_def)
  moreover have "rs' \<noteq> []" "rs' ! 0 = 0" using b by (auto simp: rs'_def builder_ok_def nth_append)
  moreover have "r < length (ts @ [(s, k, v)]) \<and> fst ((ts @ [(s, k, v)]) ! r) = 0" if "r \<in> set rs'" for r
  proof (cases "r \<in> set rs")
    case True
    then show ?thesis using b s(1) by (auto simp: builder_ok_def nth_append split: if_splits)
  next
    case False
    then have "r = length ts" "s = 0" using that by (auto simp: rs'_def s_def split: if_splits)
    then show ?thesis by simp
  qed
  ultimately show ?thesis by (intro exI [of _ s] exI [of _ rs']) (simp add: builder_ok_def)
qed

definition build_block :: "nat \<Rightarrow> entry list \<Rightarrow> bytes" where
  "build_block n es = fst (BlockBuilder_Finish (fold (\<lambda>e. BlockBuilder_Add n (fst e) (snd e)) es mk_BlockBuilder))"

lemma builder_fold:
  assumes "1 \<le> n" and "builder_ok b ts rs"
  shows "\<exists>ts' rs'. builder_ok (fold (\<lambda>e. BlockBuilder_Add n (fst e) (snd e)) es b) ts' rs' \<and> map snd ts' = map snd ts @ es"
  using assms(2)
proof (induction es arbitrary: b ts rs)
  case Nil
  then show ?case by auto
next
  case (Cons e es)
  from builder_Add [OF Cons.prems assms(1), of "fst e" "snd e"] obtain s rs' where
    "builder_ok (BlockBuilder_Add n (fst e) (snd e) b) (ts @ [(s, fst e, snd e)]) rs'" by blast
  from Cons.IH [OF this] show ?case by auto
qed

lemma build_block_layout:
  assumes "1 \<le> n"
  shows "\<exists>ts rs. build_block n es = blk_layout ts rs \<and> map snd ts = es \<and> prefix_chain [] ts \<and> rs \<noteq> [] \<and> rs ! 0 = 0 \<and>
    (if ts = [] then rs = [0] else \<forall>r\<in>set rs. r < length ts \<and> fst (ts ! r) = 0)"
proof -
  from builder_fold [OF assms builder_ok_init, of es] obtain ts rs where
    b: "builder_ok (fold (\<lambda>e. BlockBuilder_Add n (fst e) (snd e)) es mk_BlockBuilder) ts rs" "map snd ts = es" by auto
  then have "build_block n es = blk_layout ts rs"
    by (simp add: build_block_def BlockBuilder_Finish_def Let_def builder_ok_def blk_layout_def restart_bytes_def
        foldl_PutFixed32 PutFixed32_def)
  moreover have "if ts = [] then rs = [0] else \<forall>r\<in>set rs. r < length ts \<and> fst (ts ! r) = 0"
    using b(1) by (auto simp: builder_ok_def split: if_splits)
  ultimately show ?thesis using b by (intro exI [of _ ts] exI [of _ rs]) (simp add: builder_ok_def)
qed

text \<open>No key is longer than the entries that spell it out.\<close>

lemma key_le_buf:
  assumes "prefix_chain [] ts" and "t \<in> set ts"
  shows "length (fst (snd t)) \<le> length (blk_buf ts)"
  using assms
proof (induction ts arbitrary: t rule: rev_induct)
  case (snoc x ts)
  obtain s k v where x: "x = (s, k, v)" by (cases x)
  have chain: "prefix_chain [] ts" "s \<le> length (if ts = [] then [] else fst (snd (last ts)))" "s \<le> length k"
    using snoc.prems(1) by (auto simp: x prefix_chain_snoc Let_def)
  have IH: "length (fst (snd u)) \<le> length (blk_buf ts)" if "u \<in> set ts" for u using snoc.IH [OF chain(1) that] .
  have "s \<le> length (blk_buf ts)" using chain(2) IH [of "last ts"] by (auto split: if_splits)
  moreover have "length k - s \<le> length (entry_bytes x)" by (simp add: x entry_bytes_def)
  moreover have "length (blk_buf (ts @ [x])) = length (blk_buf ts) + length (entry_bytes x)" by (simp add: blk_buf_def)
  ultimately show ?case using snoc.prems(2) IH [of t] chain(3) x by (cases "t \<in> set ts") auto
qed simp

lemma NewIterator_layout:
  assumes ok: "blk_ok ts rs"
  shows "\<exists>it. Block_NewIterator (mk_Block (blk_layout ts rs)) = Inr it \<and> blk_at it ts rs (length ts)"
proof -
  note sizes = blk_sizes [OF ok]
  have len: "length (blk_layout ts rs) = length (blk_buf ts) + 4 * length rs + 4"
    by (simp add: blk_layout_def restart_bytes_def del: map_map)
  have num: "NumRestarts (blk_layout ts rs) (length (blk_layout ts rs)) = of_nat (length rs)"
    using DecodeFixed32_Encode [of "of_nat (length rs)" "[]"]
    by (simp add: NumRestarts_def len) (simp add: blk_layout_def restart_bytes_def del: map_map)
  have un: "unat (of_nat (length rs) :: uint32) = length rs" "unat (of_nat (length (blk_buf ts)) :: uint32) = length (blk_buf ts)"
    using sizes by (simp_all add: unat_of_nat_small)
  have "(of_nat (length rs) :: uint32) \<noteq> 0" using un(1) ok by (metis blk_ok_def length_0_conv unat_0)
  then have "Block_NewIterator (mk_Block (blk_layout ts rs)) =
      Inr (mk_BlockIter (blk_layout ts rs) (of_nat (length (blk_buf ts))) (of_nat (length rs)))"
    unfolding Block_NewIterator_def mk_Block_def Let_def num un(1) by (simp add: len num [unfolded len])
  moreover have "blk_at (mk_BlockIter (blk_layout ts rs) (of_nat (length (blk_buf ts))) (of_nat (length rs))) ts rs (length ts)"
    using ok un by (simp add: blk_at_def blk_state_def mk_BlockIter_def blk_off_length)
  ultimately show ?thesis by blast
qed

text \<open>A finished block gives an iterator that meets the contract for the entries that were added.\<close>

context byte_comparator
begin

lemma build_block_iter:
  assumes n: "1 \<le> n" and es: "sorted_entries es" and small: "length (build_block n es) < 2 ^ 32"
  shows "\<exists>it. Block_NewIterator (mk_Block (build_block n es)) = Inr it \<and> blk_iter_at it es (length es)"
proof -
  from build_block_layout [OF n, of es] obtain ts rs where
    l: "build_block n es = blk_layout ts rs" "map snd ts = es" "prefix_chain [] ts" "rs \<noteq> []" "rs ! 0 = 0"
    "if ts = [] then rs = [0] else \<forall>r\<in>set rs. r < length ts \<and> fst (ts ! r) = 0" by blast
  have "length (blk_buf ts) < 2 ^ 32" using small l(1) by (simp add: blk_layout_def)
  then have "\<forall>t\<in>set ts. length (fst (snd t)) < 2 ^ 32" using key_le_buf [OF l(3)] by (meson le_less_trans)
  then have "blk_ok ts rs" using l small by (simp add: blk_ok_def)
  from NewIterator_layout [OF this] obtain it where
    it: "Block_NewIterator (mk_Block (blk_layout ts rs)) = Inr it" "blk_at it ts rs (length ts)" by blast
  moreover have "length ts = length es" using l(2) by (metis length_map)
  ultimately show ?thesis unfolding l(1) blk_iter_at_def using l(2) es by (metis it)
qed

end

subsection \<open>Properties\<close>

text \<open>
  C17: a block gives back its entries: for keys in strictly increasing order and any restart interval,
  the iterator over the finished block returns from \<^verbatim>\<open>SeekToFirst\<close> on exactly the entries that were
  added, and \<^verbatim>\<open>Seek\<close> stops at the first entry whose key is not smaller than the target.
\<close>

theorem block_roundtrip:
  assumes "1 \<le> n" and "sorted_wrt (\<lambda>a b. Bytewise_Compare (fst a) (fst b) < 0) es"
    and "length (build_block n es) < 2 ^ 32"
  shows "\<exists>it. Block_NewIterator (mk_Block (build_block n es)) = Inr it \<and>
    it_scan (block_iter Bytewise_Compare) (length es) it = es \<and>
    it_collect (block_iter Bytewise_Compare) (length es) (BlockIter_Seek Bytewise_Compare t it) =
      dropWhile (\<lambda>e. Bytewise_Compare (fst e) t < 0) es"
proof -
  have srt: "bytewise.sorted_entries es" using assms(2) by (simp add: bytewise.sorted_entries_def)
  from bytewise.build_block_iter [OF assms(1) srt assms(3)] obtain it where
    it: "Block_NewIterator (mk_Block (build_block n es)) = Inr it" "bytewise.blk_iter_at it es (length es)" by blast
  have "it_collect (block_iter Bytewise_Compare) (length es) (BlockIter_Seek Bytewise_Compare t it) =
      drop (seek_pos Bytewise_Compare es t) es"
    using bytewise.block.collect_at [OF bytewise.block.Seek_at [OF it(2) TrueI, of t], of "length es"]
    by (simp add: block_iter_def)
  then show ?thesis
    using it bytewise.block.scan_at [OF it(2)] by (auto simp: seek_pos_def dropWhile_eq_drop)
qed

theorem block_roundtrip_witness:
  "\<exists>it. Block_NewIterator (mk_Block (build_block 2 [([1, 2], [9]), ([1, 3], [8]), ([4], [])])) = Inr it \<and>
    it_scan (block_iter Bytewise_Compare) 3 it = [([1, 2], [9]), ([1, 3], [8]), ([4], [])] \<and>
    it_collect (block_iter Bytewise_Compare) 3 (BlockIter_Seek Bytewise_Compare [1, 3] it) = [([1, 3], [8]), ([4], [])]"
proof -
  let ?es = "[([1, 2], [9]), ([1, 3], [8]), ([4], [])] :: entry list"
  have small: "length (build_block 2 ?es) < 2 ^ 32"
    by (simp add: build_block_def BlockBuilder_Finish_def BlockBuilder_Add_def mk_BlockBuilder_def Let_def
        PutVarint32_def PutFixed32_def EncodeVarint32_def)
  have "sorted_wrt (\<lambda>a b. Bytewise_Compare (fst a) (fst b) < 0) ?es"
    by code_simp
  moreover have "dropWhile (\<lambda>e. Bytewise_Compare (fst e) [1, 3] < 0) ?es = [([1, 3], [8]), ([4], [])]"
    by code_simp
  ultimately show ?thesis using block_roundtrip [of 2 ?es "[1, 3]"] small by (simp add: numeral_3_eq_3)
qed

text \<open>
  C18: \<^verbatim>\<open>DecodeEntry\<close> only keeps within the block when the lengths of key and value do not overflow: an entry
  it accepts lies inside the bytes up to the limit, or the two lengths add up to at least $2^{32}$; and
  an entry of the second kind, whose key would take four gigabytes, is accepted at the end of a block.
\<close>

theorem DecodeEntry_bounds:
  "(\<forall>p s n v q. DecodeEntry p = Some (s, n, v, q) \<and> length p < 2 ^ 32 \<longrightarrow>
      unat n + unat v \<le> length q \<or> 2 ^ 32 \<le> unat n + unat v) \<and>
   DecodeEntry [0, 0xff, 0xff, 0xff, 0xff, 0x0f, 1] = Some (0, 0xffffffff, 1, [])"
proof (intro conjI allI impI)
  fix p s n v q assume "DecodeEntry p = Some (s, n, v, q) \<and> length p < 2 ^ 32"
  then have "unat (n + v) \<le> length q" using DecodeEntry_length by blast
  then show "unat n + unat v \<le> length q \<or> 2 ^ 32 \<le> unat n + unat v"
    by (cases "unat n + unat v < 2 ^ 32") (simp_all add: unat_word_ariths)
qed code_simp

theorem DecodeEntry_bounds_witness:
  "DecodeEntry [0, 1, 0, 7] = Some (0, 1, 0, [7 :: byte]) \<and>
   (unat (1 :: uint32) + unat (0 :: uint32) \<le> length [7 :: byte] \<or> 2 ^ 32 \<le> unat (1 :: uint32) + unat (0 :: uint32))"
proof -
  have "DecodeEntry [0, 1, 0, 7] = Some (0, 1, 0, [7])" by code_simp
  with DecodeEntry_bounds [THEN conjunct1, rule_format, of "[0, 1, 0, 7]" 0 1 0 "[7]"] show ?thesis by simp
qed

end
