(* ===== verification/Table_Builder.thy ===== *)
theory Table_Builder
  imports Table_Format Block_Correct
begin

text \<open>
  Writing tables (\<^verbatim>\<open>App/integration/table_builder.cpp\<close>): the entries are cut into data blocks; the index
  block gets an entry for a block once the first key of the next one is known, so that its key can be
  shortened.  Assertions of the source are preconditions.
\<close>

subsection \<open>Options\<close>

text \<open>A comparator and a filter policy are records of their operations; \<open>cmp_addr\<close> is the address of the object.\<close>

record Comparator =
  cmp_addr :: nat
  cmp_Name :: bytes
  cmp_Compare :: "bytes \<Rightarrow> bytes \<Rightarrow> int"
  cmp_FindShortestSeparator :: "bytes \<Rightarrow> bytes \<Rightarrow> bytes"
  cmp_FindShortSuccessor :: "bytes \<Rightarrow> bytes"

record FilterPolicy =
  fp_Name :: bytes
  fp_CreateFilter :: "bytes list \<Rightarrow> bytes \<Rightarrow> bytes"
  fp_KeyMayMatch :: "bytes \<Rightarrow> bytes \<Rightarrow> bool"

record Options =
  opt_comparator :: Comparator
  opt_paranoid_checks :: bool
  opt_block_size :: nat
  opt_block_restart_interval :: nat
  opt_compression :: CompressionType
  opt_filter_policy :: "FilterPolicy option"
  opt_create_if_missing :: bool
  opt_error_if_exists :: bool
  opt_write_buffer_size :: nat
  opt_max_open_files :: int

subsection \<open>The builder\<close>

record 'w TableBuilder =
  tb_options :: Options
  tb_index_block_options :: Options
  tb_file :: 'w
  tb_offset :: uint64
  tb_status :: Status
  tb_data_block :: BlockBuilder
  tb_index_block :: BlockBuilder
  tb_last_key :: bytes
  tb_num_entries :: nat
  tb_closed :: bool
  tb_filter_block :: "(FilterPolicy \<times> FilterBlockBuilder) option"
  tb_pending_index_entry :: bool
  tb_pending_handle :: BlockHandle

definition mk_TableBuilder :: "Options \<Rightarrow> 'w \<Rightarrow> 'w TableBuilder" where
  "mk_TableBuilder options f =
     \<lparr>tb_options = options, tb_index_block_options = options\<lparr>opt_block_restart_interval := 1\<rparr>, tb_file = f,
      tb_offset = 0, tb_status = Status_OK, tb_data_block = mk_BlockBuilder, tb_index_block = mk_BlockBuilder,
      tb_last_key = [], tb_num_entries = 0, tb_closed = False,
      tb_filter_block = map_option (\<lambda>p. (p, StartBlock (fp_CreateFilter p) 0 FilterBlockBuilder_init)) (opt_filter_policy options),
      tb_pending_index_entry = False, tb_pending_handle = mk_BlockHandle\<rparr>"

definition TableBuilder_ChangeOptions :: "Options \<Rightarrow> 'w TableBuilder \<Rightarrow> Status \<times> 'w TableBuilder" where
  "TableBuilder_ChangeOptions options r =
     (if cmp_addr (opt_comparator options) \<noteq> cmp_addr (opt_comparator (tb_options r))
      then (InvalidArgument (str ''changing comparator while building table'') [], r)
      else (Status_OK, r\<lparr>tb_options := options, tb_index_block_options := options\<lparr>opt_block_restart_interval := 1\<rparr>\<rparr>))"

definition tb_ok :: "'w TableBuilder \<Rightarrow> bool" where
  "tb_ok r \<longleftrightarrow> Status_ok (tb_status r)"

definition WriteRawBlock ::
  "'w WritableFile \<Rightarrow> bytes \<Rightarrow> CompressionType \<Rightarrow> 'w TableBuilder \<Rightarrow> BlockHandle \<times> 'w TableBuilder" where
  "WriteRawBlock W block_contents compression_type r =
     (let handle = \<lparr>bh_offset = tb_offset r, bh_size = of_nat (length block_contents)\<rparr>;
          (s, f) = wf_Append W block_contents (tb_file r);
          r = r\<lparr>tb_status := s, tb_file := f\<rparr>
      in if Status_ok s
         then
           (let (s, f) = wf_Append W (block_trailer block_contents compression_type) (tb_file r);
                r = r\<lparr>tb_status := s, tb_file := f\<rparr>
            in (handle, if Status_ok s
                        then r\<lparr>tb_offset := tb_offset r + (of_nat (length block_contents) + kBlockTrailerSize)\<rparr> else r))
         else (handle, r))"

text \<open>\<^verbatim>\<open>WriteBlock\<close> also resets the block builder it is given; the caller stores it.\<close>

definition WriteBlock ::
  "'w WritableFile \<Rightarrow> BlockBuilder \<Rightarrow> 'w TableBuilder \<Rightarrow> BlockHandle \<times> BlockBuilder \<times> 'w TableBuilder" where
  "WriteBlock W block r =
     (let (raw, block) = BlockBuilder_Finish block;
          (block_contents, compression_type) =
            (case opt_compression (tb_options r) of
               kNoCompression \<Rightarrow> (raw, kNoCompression)
             | kSnappyCompression \<Rightarrow>
                 (case Snappy_Compress raw of
                    Some compressed \<Rightarrow>
                      if length compressed < length raw - length raw div 8 then (compressed, kSnappyCompression)
                      else (raw, kNoCompression)
                  | None \<Rightarrow> (raw, kNoCompression)));
          (handle, r) = WriteRawBlock W block_contents compression_type r
      in (handle, BlockBuilder_Reset block, r))"

definition TableBuilder_Flush :: "'w WritableFile \<Rightarrow> 'w TableBuilder \<Rightarrow> 'w TableBuilder" where
  "TableBuilder_Flush W r =
     (if \<not> tb_ok r then r
      else if BlockBuilder_empty (tb_data_block r) then r
      else
        (let (handle, block, r) = WriteBlock W (tb_data_block r) r;
             r = r\<lparr>tb_pending_handle := handle, tb_data_block := block\<rparr>;
             r = (if tb_ok r
                  then (let (s, f) = wf_Flush W (tb_file r)
                        in r\<lparr>tb_pending_index_entry := True, tb_status := s, tb_file := f\<rparr>)
                  else r)
         in r\<lparr>tb_filter_block :=
                map_option (\<lambda>(p, fb). (p, StartBlock (fp_CreateFilter p) (tb_offset r) fb)) (tb_filter_block r)\<rparr>))"

text \<open>The entry for the pending block, with a key that the caller has shortened.\<close>

definition add_index_entry :: "bytes \<Rightarrow> 'w TableBuilder \<Rightarrow> 'w TableBuilder" where
  "add_index_entry key r =
     r\<lparr>tb_last_key := key, tb_pending_index_entry := False,
       tb_index_block := BlockBuilder_Add (opt_block_restart_interval (tb_index_block_options r)) key
         (BlockHandle_EncodeTo (tb_pending_handle r) []) (tb_index_block r)\<rparr>"

definition TableBuilder_Add :: "'w WritableFile \<Rightarrow> bytes \<Rightarrow> bytes \<Rightarrow> 'w TableBuilder \<Rightarrow> 'w TableBuilder" where
  "TableBuilder_Add W key val r =
     (if \<not> tb_ok r then r
      else
        (let r = (if tb_pending_index_entry r
                  then add_index_entry (cmp_FindShortestSeparator (opt_comparator (tb_options r)) (tb_last_key r) key) r
                  else r);
             r = r\<lparr>tb_filter_block := map_option (apsnd (AddKey key)) (tb_filter_block r)\<rparr>;
             r = r\<lparr>tb_last_key := key, tb_num_entries := tb_num_entries r + 1,
                   tb_data_block := BlockBuilder_Add (opt_block_restart_interval (tb_options r)) key val (tb_data_block r)\<rparr>
         in if CurrentSizeEstimate (tb_data_block r) \<ge> opt_block_size (tb_options r) then TableBuilder_Flush W r else r))"

definition filter_meta_key :: "FilterPolicy \<Rightarrow> bytes" where
  "filter_meta_key p = str ''filter.'' @ fp_Name p"

text \<open>
  The steps of \<^verbatim>\<open>Finish\<close>, each under the condition that nothing has failed before.  The name of the filter
  is that of the policy in the current options, which \<^verbatim>\<open>ChangeOptions\<close> must not remove.
\<close>

definition finish_filter :: "'w WritableFile \<Rightarrow> 'w TableBuilder \<Rightarrow> BlockHandle \<times> 'w TableBuilder" where
  "finish_filter W r =
     (case tb_filter_block r of
        Some (p, fb) \<Rightarrow>
          if tb_ok r then WriteRawBlock W (Filter_Finish (fp_CreateFilter p) fb) kNoCompression r
          else (mk_BlockHandle, r)
      | None \<Rightarrow> (mk_BlockHandle, r))"

definition finish_metaindex :: "'w WritableFile \<Rightarrow> BlockHandle \<Rightarrow> 'w TableBuilder \<Rightarrow> BlockHandle \<times> 'w TableBuilder" where
  "finish_metaindex W filter_block_handle r =
     (if tb_ok r
      then
        (let meta_index_block =
               (case (opt_filter_policy (tb_options r), tb_filter_block r) of
                  (Some p, Some fb) \<Rightarrow>
                    BlockBuilder_Add (opt_block_restart_interval (tb_options r)) (filter_meta_key p)
                      (BlockHandle_EncodeTo filter_block_handle []) mk_BlockBuilder
                | _ \<Rightarrow> mk_BlockBuilder);
             (handle, _, r) = WriteBlock W meta_index_block r
         in (handle, r))
      else (mk_BlockHandle, r))"

definition finish_index :: "'w WritableFile \<Rightarrow> 'w TableBuilder \<Rightarrow> BlockHandle \<times> 'w TableBuilder" where
  "finish_index W r =
     (if tb_ok r
      then
        (let r = (if tb_pending_index_entry r
                  then add_index_entry (cmp_FindShortSuccessor (opt_comparator (tb_options r)) (tb_last_key r)) r
                  else r);
             (handle, block, r) = WriteBlock W (tb_index_block r) r
         in (handle, r\<lparr>tb_index_block := block\<rparr>))
      else (mk_BlockHandle, r))"

definition finish_footer :: "'w WritableFile \<Rightarrow> BlockHandle \<Rightarrow> BlockHandle \<Rightarrow> 'w TableBuilder \<Rightarrow> 'w TableBuilder" where
  "finish_footer W metaindex_block_handle index_block_handle r =
     (if tb_ok r
      then
        (let footer_encoding = Footer_EncodeTo \<lparr>metaindex_handle = metaindex_block_handle, index_handle = index_block_handle\<rparr> [];
             (s, f) = wf_Append W footer_encoding (tb_file r);
             r = r\<lparr>tb_status := s, tb_file := f\<rparr>
         in if Status_ok s then r\<lparr>tb_offset := tb_offset r + of_nat (length footer_encoding)\<rparr> else r)
      else r)"

definition TableBuilder_Finish :: "'w WritableFile \<Rightarrow> 'w TableBuilder \<Rightarrow> Status \<times> 'w TableBuilder" where
  "TableBuilder_Finish W r =
     (let r = TableBuilder_Flush W r;
          r = r\<lparr>tb_closed := True\<rparr>;
          (filter_block_handle, r) = finish_filter W r;
          (metaindex_block_handle, r) = finish_metaindex W filter_block_handle r;
          (index_block_handle, r) = finish_index W r;
          r = finish_footer W metaindex_block_handle index_block_handle r
      in (tb_status r, r))"

definition TableBuilder_Abandon :: "'w TableBuilder \<Rightarrow> 'w TableBuilder" where
  "TableBuilder_Abandon r = r\<lparr>tb_closed := True\<rparr>"

definition TableBuilder_NumEntries :: "'w TableBuilder \<Rightarrow> nat" where
  "TableBuilder_NumEntries r = tb_num_entries r"

definition TableBuilder_FileSize :: "'w TableBuilder \<Rightarrow> uint64" where
  "TableBuilder_FileSize r = tb_offset r"

text \<open>A table from a list of entries.\<close>

definition build_table :: "'w WritableFile \<Rightarrow> Options \<Rightarrow> entry list \<Rightarrow> 'w \<Rightarrow> Status \<times> 'w TableBuilder" where
  "build_table W options es f =
     TableBuilder_Finish W (fold (\<lambda>e. TableBuilder_Add W (fst e) (snd e)) es (mk_TableBuilder options f))"


subsection \<open>What the builder writes\<close>

text \<open>A comparator object that orders keys and shortens them within the order.\<close>

locale table_comparator =
  shortening_comparator ok "cmp_Compare c" "cmp_FindShortestSeparator c" "cmp_FindShortSuccessor c"
  for ok :: "bytes \<Rightarrow> bool" and c :: Comparator

sublocale table_comparator \<subseteq> byte_comparator ok "cmp_Compare c"
  by unfold_locales

definition frame :: "bytes \<Rightarrow> bytes" where
  "frame d = d @ block_trailer d kNoCompression"

lemma Status_ok_iff: "Status_ok s \<longleftrightarrow> s = Status_OK"
  by (simp add: Status_ok_def Status_OK_def)

lemma Reset_mk: "BlockBuilder_Reset b = mk_BlockBuilder"
  by (cases b) (simp add: BlockBuilder_Reset_def mk_BlockBuilder_def)

definition blk :: "nat \<Rightarrow> entry list \<Rightarrow> BlockBuilder" where
  "blk n es = fold (\<lambda>e. BlockBuilder_Add n (fst e) (snd e)) es mk_BlockBuilder"

lemma blk_snoc: "blk n (es @ [e]) = BlockBuilder_Add n (fst e) (snd e) (blk n es)"
  by (simp add: blk_def)

lemma Finish_blk: "fst (BlockBuilder_Finish (blk n es)) = build_block n es"
  by (simp add: build_block_def blk_def)

lemma blk_empty: "BlockBuilder_empty (blk n es) \<longleftrightarrow> es = []"
proof (cases es rule: rev_cases)
  case (snoc es e)
  have "bb_buffer (BlockBuilder_Add n k v b) \<noteq> []" for k v b
    by (simp add: BlockBuilder_Add_def Let_def PutVarint32_def)
  then show ?thesis using snoc by (simp add: blk_snoc BlockBuilder_empty_def)
qed (simp add: blk_def BlockBuilder_empty_def mk_BlockBuilder_def)

text \<open>The data blocks in the file, their offsets and handles, and the entries of the index.\<close>

definition base :: "nat \<Rightarrow> entry list list \<Rightarrow> bytes" where
  "base n bs = concat (map (\<lambda>b. frame (build_block n b)) bs)"

definition block_handle :: "nat \<Rightarrow> entry list list \<Rightarrow> nat \<Rightarrow> BlockHandle" where
  "block_handle n bs j = \<lparr>bh_offset = of_nat (length (base n (take j bs))), bh_size = of_nat (length (build_block n (bs ! j)))\<rparr>"

definition index_entries :: "nat \<Rightarrow> entry list list \<Rightarrow> bytes list \<Rightarrow> entry list" where
  "index_entries n bs seps = map (\<lambda>j. (seps ! j, BlockHandle_EncodeTo (block_handle n bs j) [])) [0..<length seps]"

definition filter_calls :: "nat \<Rightarrow> entry list list \<Rightarrow> entry list \<Rightarrow> (uint64 \<times> bytes list) list" where
  "filter_calls n bs cur =
     map (\<lambda>j. (bh_offset (block_handle n bs j), map fst (bs ! j))) [0..<length bs] @ [(of_nat (length (base n bs)), map fst cur)]"

lemma base_snoc: "base n (bs @ [b]) = base n bs @ frame (build_block n b)"
  by (simp add: base_def)

lemma block_handle_append: "j < length bs \<Longrightarrow> block_handle n (bs @ cs) j = block_handle n bs j"
  by (simp add: block_handle_def nth_append)

lemma index_entries_append: "length seps \<le> length bs \<Longrightarrow> index_entries n (bs @ cs) seps = index_entries n bs seps"
  by (simp add: index_entries_def block_handle_append)

lemma index_entries_snoc:
  "index_entries n bs (seps @ [s]) = index_entries n bs seps @ [(s, BlockHandle_EncodeTo (block_handle n bs (length seps)) [])]"
  by (simp add: index_entries_def nth_append)

lemma filter_calls_snoc:
  "filter_calls n (bs @ [b]) cur =
     map (\<lambda>j. (bh_offset (block_handle n bs j), map fst (bs ! j))) [0..<length bs] @
     [(of_nat (length (base n bs)), map fst b), (of_nat (length (base n (bs @ [b]))), map fst cur)]"
  by (simp add: filter_calls_def block_handle_append nth_append block_handle_def [of n "bs @ [b]" "length bs"])

lemma build_filters_snoc: "build_filters cr (xs @ [(q, ks)]) = foldl (\<lambda>b k. AddKey k b) (StartBlock cr q (build_filters cr xs)) ks"
  by (simp add: build_filters_def)

lemma filter_calls_Add:
  "build_filters cr (filter_calls n bs (cur @ [e])) = AddKey (fst e) (build_filters cr (filter_calls n bs cur))"
  by (simp add: filter_calls_def build_filters_snoc)

lemma filter_calls_Start:
  "build_filters cr (filter_calls n (bs @ [b]) []) =
     StartBlock cr (of_nat (length (base n (bs @ [b])))) (build_filters cr (filter_calls n bs b))"
  unfolding filter_calls_snoc by (simp add: filter_calls_def build_filters_def)


text \<open>The whole file.\<close>

definition handle_at :: "bytes \<Rightarrow> bytes \<Rightarrow> BlockHandle" where
  "handle_at pre d = \<lparr>bh_offset = of_nat (length pre), bh_size = of_nat (length d)\<rparr>"

definition filter_data :: "FilterPolicy \<Rightarrow> nat \<Rightarrow> entry list list \<Rightarrow> bytes" where
  "filter_data p n bs = Filter_Finish (fp_CreateFilter p) (build_filters (fp_CreateFilter p) (filter_calls n bs []))"

definition pre_meta :: "FilterPolicy option \<Rightarrow> nat \<Rightarrow> entry list list \<Rightarrow> bytes" where
  "pre_meta po n bs = base n bs @ (case po of None \<Rightarrow> [] | Some p \<Rightarrow> frame (filter_data p n bs))"

definition meta_data :: "FilterPolicy option \<Rightarrow> nat \<Rightarrow> entry list list \<Rightarrow> bytes" where
  "meta_data po n bs = build_block n
     (case po of None \<Rightarrow> []
      | Some p \<Rightarrow> [(filter_meta_key p, BlockHandle_EncodeTo (handle_at (base n bs) (filter_data p n bs)) [])])"

definition pre_index :: "FilterPolicy option \<Rightarrow> nat \<Rightarrow> entry list list \<Rightarrow> bytes" where
  "pre_index po n bs = pre_meta po n bs @ frame (meta_data po n bs)"

definition index_data :: "nat \<Rightarrow> entry list list \<Rightarrow> bytes list \<Rightarrow> bytes" where
  "index_data n bs seps = build_block 1 (index_entries n bs seps)"

definition table_footer :: "FilterPolicy option \<Rightarrow> nat \<Rightarrow> entry list list \<Rightarrow> bytes list \<Rightarrow> Footer" where
  "table_footer po n bs seps =
     \<lparr>metaindex_handle = handle_at (pre_meta po n bs) (meta_data po n bs),
      index_handle = handle_at (pre_index po n bs) (index_data n bs seps)\<rparr>"

definition table_file :: "FilterPolicy option \<Rightarrow> nat \<Rightarrow> entry list list \<Rightarrow> bytes list \<Rightarrow> bytes" where
  "table_file po n bs seps =
     pre_index po n bs @ frame (index_data n bs seps) @ Footer_EncodeTo (table_footer po n bs seps) []"

text \<open>
  The keys of the index: the j-th is at or after every key of block j and before every key of the blocks after it
  and of the block that is being filled; if there is such a key, it is the separator for the first of them.
\<close>

context table_comparator
begin

definition sep_ok :: "entry list list \<Rightarrow> entry list \<Rightarrow> bytes list \<Rightarrow> bool" where
  "sep_ok bs cur seps \<longleftrightarrow> (\<forall>j<length seps. ok (seps ! j) \<and> (\<forall>e\<in>set (bs ! j). \<not> cmp_Compare c (seps ! j) (fst e) < 0) \<and>
     (\<forall>e\<in>set (concat (drop (Suc j) bs) @ cur). cmp_Compare c (seps ! j) (fst e) < 0) \<and>
     (\<forall>e\<in>set (take 1 (concat (drop (Suc j) bs) @ cur)).
        seps ! j = cmp_FindShortestSeparator c (fst (last (bs ! j))) (fst e)))"

end

locale table_writer = table_comparator ok c + reliable_file W contents good
  for ok :: "bytes \<Rightarrow> bool" and c :: Comparator and W :: "'w WritableFile" and contents :: "'w \<Rightarrow> bytes" and good :: "'w \<Rightarrow> bool" +
  fixes Opt :: Options
  assumes Opt_comparator: "opt_comparator Opt = c" and Opt_restart: "1 \<le> opt_block_restart_interval Opt"
begin

abbreviation n :: nat where "n \<equiv> opt_block_restart_interval Opt"

definition tb_rep :: "'w TableBuilder \<Rightarrow> entry list list \<Rightarrow> entry list \<Rightarrow> bytes list \<Rightarrow> bool" where
  "tb_rep r bs cur seps \<longleftrightarrow>
     tb_options r = Opt \<and> opt_block_restart_interval (tb_index_block_options r) = 1 \<and> good (tb_file r) \<and> tb_status r = Status_OK \<and>
     contents (tb_file r) = base n bs \<and> tb_offset r = of_nat (length (base n bs)) \<and>
     tb_data_block r = blk n cur \<and> tb_index_block r = blk 1 (index_entries n bs seps) \<and>
     tb_filter_block r = map_option (\<lambda>p. (p, build_filters (fp_CreateFilter p) (filter_calls n bs cur))) (opt_filter_policy Opt) \<and>
     [] \<notin> set bs \<and> sorted_entries (concat bs @ cur) \<and> sep_ok bs cur seps \<and>
     (if tb_pending_index_entry r
      then length bs = Suc (length seps) \<and> cur = [] \<and> tb_pending_handle r = block_handle n bs (length seps) \<and>
        tb_last_key r = fst (last (last bs))
      else length bs = length seps \<and> (cur = [] \<longrightarrow> bs = []) \<and> (cur \<noteq> [] \<longrightarrow> tb_last_key r = fst (last cur)))"

lemma tb_rep_init:
  assumes "good f" and "contents f = []"
  shows "tb_rep (mk_TableBuilder Opt f) [] [] []"
  using assms
  by (simp add: tb_rep_def mk_TableBuilder_def blk_def base_def index_entries_def filter_calls_def build_filters_def
      sorted_entries_def sep_ok_def)

text \<open>Writing to a file on which nothing fails.\<close>

lemma Append_OK:
  assumes "good f"
  obtains f' where "wf_Append W d f = (Status_OK, f')" "good f'" "contents f' = contents f @ d"
  using Append_good [OF assms, of d] Append_reliable [OF assms, of d]
  by (cases "wf_Append W d f") (simp add: Status_ok_iff)

lemma Flush_OK:
  assumes "good f"
  obtains f' where "wf_Flush W f = (Status_OK, f')" "good f'" "contents f' = contents f"
  using Flush_good [OF assms] Flush_reliable [of f] by (cases "wf_Flush W f") (simp add: Status_ok_iff)

lemma WriteRawBlock_good:
  assumes "good (tb_file r)"
  shows "\<exists>f. good f \<and> contents f = contents (tb_file r) @ frame d \<and>
    WriteRawBlock W d kNoCompression r =
      (\<lparr>bh_offset = tb_offset r, bh_size = of_nat (length d)\<rparr>,
       r\<lparr>tb_status := Status_OK, tb_file := f, tb_offset := tb_offset r + of_nat (length (frame d))\<rparr>)"
proof -
  obtain f1 where f1: "wf_Append W d (tb_file r) = (Status_OK, f1)" "good f1" "contents f1 = contents (tb_file r) @ d"
    using Append_OK [OF assms] .
  obtain f2 where f2: "wf_Append W (block_trailer d kNoCompression) f1 = (Status_OK, f2)" "good f2"
    "contents f2 = contents f1 @ block_trailer d kNoCompression" using Append_OK [OF f1(2)] .
  show ?thesis
    using f1 f2 by (intro exI [of _ f2])
      (simp add: WriteRawBlock_def Let_def Status_ok_iff frame_def kBlockTrailerSize_def ac_simps)
qed

lemma WriteBlock_good:
  assumes "good (tb_file r)"
  shows "\<exists>f. good f \<and> contents f = contents (tb_file r) @ frame (fst (BlockBuilder_Finish b)) \<and>
    WriteBlock W b r =
      (\<lparr>bh_offset = tb_offset r, bh_size = of_nat (length (fst (BlockBuilder_Finish b)))\<rparr>, mk_BlockBuilder,
       r\<lparr>tb_status := Status_OK, tb_file := f, tb_offset := tb_offset r + of_nat (length (frame (fst (BlockBuilder_Finish b))))\<rparr>)"
  using WriteRawBlock_good [OF assms, of "fst (BlockBuilder_Finish b)"]
  by (cases "opt_compression (tb_options r)") (auto simp: WriteBlock_def Let_def Snappy_Compress_def Reset_mk split: prod.splits)

lemma Flush_rep:
  assumes rep: "tb_rep r bs cur seps" and cur: "cur \<noteq> []"
  shows "tb_rep (TableBuilder_Flush W r) (bs @ [cur]) [] seps"
proof -
  have r: "good (tb_file r)" "contents (tb_file r) = base n bs" "tb_offset r = of_nat (length (base n bs))"
    "tb_data_block r = blk n cur" "tb_status r = Status_OK" "\<not> tb_pending_index_entry r" "length bs = length seps" "tb_last_key r = fst (last cur)"
    "tb_filter_block r = map_option (\<lambda>p. (p, build_filters (fp_CreateFilter p) (filter_calls n bs cur))) (opt_filter_policy Opt)"
    using rep cur by (auto simp: tb_rep_def split: if_splits)
  obtain f1 where f1: "good f1" "contents f1 = base n (bs @ [cur])"
    "WriteBlock W (tb_data_block r) r =
      (block_handle n (bs @ [cur]) (length bs), mk_BlockBuilder,
       r\<lparr>tb_status := Status_OK, tb_file := f1, tb_offset := of_nat (length (base n (bs @ [cur])))\<rparr>)"
    using WriteBlock_good [OF r(1), of "tb_data_block r"]
    by (auto simp: r(2-4) Finish_blk base_snoc block_handle_def nth_append)
  obtain f2 where f2: "wf_Flush W f1 = (Status_OK, f2)" "good f2" "contents f2 = contents f1"
    using Flush_OK [OF f1(1)] .
  have flush: "TableBuilder_Flush W r =
    r\<lparr>tb_status := Status_OK, tb_file := f2, tb_offset := of_nat (length (base n (bs @ [cur]))),
      tb_pending_handle := block_handle n (bs @ [cur]) (length bs), tb_data_block := mk_BlockBuilder, tb_pending_index_entry := True,
      tb_filter_block := map_option (\<lambda>p. (p, build_filters (fp_CreateFilter p) (filter_calls n (bs @ [cur]) []))) (opt_filter_policy Opt)\<rparr>"
    using cur f2(1) by (simp add: TableBuilder_Flush_def Let_def f1(3) [unfolded r(4)] tb_ok_def Status_ok_iff r(4,5,9) blk_empty
        option.map_comp comp_def filter_calls_Start)
  have "sep_ok (bs @ [cur]) [] seps"
    using rep r(7) by (simp add: tb_rep_def sep_ok_def nth_append)
  then show ?thesis
    unfolding flush using rep cur f1 f2 r
    by (simp add: tb_rep_def index_entries_append blk_def [of n "[]"])
qed

lemma sorted_snoc_less: "sorted_entries (xs @ [e]) \<Longrightarrow> x \<in> set xs \<Longrightarrow> eless x e"
  by (auto simp: sorted_entries_def sorted_wrt_append)

text \<open>The separators stay right when a larger key is added.\<close>

lemma take_1_append: "xs \<noteq> [] \<Longrightarrow> take 1 (xs @ ys) = take 1 xs"
  by (cases xs) auto

lemma sep_ok_Add:
  assumes rep: "tb_rep r bs cur seps" and srt: "sorted_entries (concat bs @ cur @ [e])"
  shows "sep_ok bs (cur @ [e]) seps"
proof -
  have sep: "sep_ok bs cur seps" "[] \<notin> set bs" using rep by (simp_all add: tb_rep_def)
  have new: "cmp_Compare c (seps ! j) (fst e) < 0 \<and> concat (drop (Suc j) bs) @ cur \<noteq> []" if j: "j < length seps" for j
  proof -
    have ne: "concat (drop (Suc j) bs) @ cur \<noteq> []"
    proof (cases "cur = []")
      case True
      then have "length bs = Suc (length seps)" using rep j by (auto simp: tb_rep_def split: if_splits)
      then have k: "Suc j < length bs" using j by simp
      then have "bs ! Suc j \<noteq> []" using sep(2) nth_mem [OF k] by metis
      moreover have "bs ! Suc j \<in> set (drop (Suc j) bs)" using k by (simp add: Cons_nth_drop_Suc [symmetric])
      ultimately show ?thesis by auto
    qed simp
    then obtain e' where e': "e' \<in> set (concat (drop (Suc j) bs) @ cur)" by (metis list.set_sel(1))
    then have "e' \<in> set (concat bs @ cur)" using in_set_dropD by fastforce
    then have "eless e' e" "ok (fst e')" "ok (fst e)"
      using srt sorted_snoc_less [of "concat bs @ cur" e e'] by (auto simp: sorted_entries_def)
    moreover have "cmp_Compare c (seps ! j) (fst e') < 0" "ok (seps ! j)" using sep(1) j e' by (auto simp: sep_ok_def)
    ultimately show ?thesis using Compare_trans ne by blast
  qed
  have "take 1 (concat (drop (Suc j) bs) @ cur @ [e]) = take 1 (concat (drop (Suc j) bs) @ cur)" if "j < length seps" for j
    using take_1_append [OF new [OF that, THEN conjunct2], of "[e]"] by (simp only: append_assoc)
  then show ?thesis using sep(1) new unfolding sep_ok_def by (auto simp del: take_append One_nat_def)
qed

lemma pending_last:
  assumes "tb_rep r bs cur seps" and "tb_pending_index_entry r"
  shows "cur = []" "length bs = Suc (length seps)" "bs ! length seps = last bs" "last bs \<noteq> []" "last (last bs) \<in> set (concat bs)"
    "ok (tb_last_key r)" "e \<in> set (last bs) \<Longrightarrow> cmp_Compare c (fst e) (tb_last_key r) \<le> 0"
proof -
  show l: "cur = []" "length bs = Suc (length seps)" using assms by (simp_all add: tb_rep_def)
  then show "bs ! length seps = last bs" by (metis diff_Suc_1 last_conv_nth length_0_conv nat.distinct(1))
  have bs: "bs \<noteq> []" using l(2) by auto
  then show ne: "last bs \<noteq> []" using assms(1) last_in_set unfolding tb_rep_def by metis
  then show mem: "last (last bs) \<in> set (concat bs)" using last_in_set bs by fastforce
  have lk: "tb_last_key r = fst (last (last bs))" and srt: "sorted_entries (concat bs)" using assms l(1) by (auto simp: tb_rep_def)
  then show ok: "ok (tb_last_key r)" using mem by (auto simp: sorted_entries_def)
  have srtl: "sorted_entries (last bs)"
    using srt bs by (cases bs rule: rev_cases) (auto simp: sorted_entries_def sorted_wrt_append)
  show "cmp_Compare c (fst e) (tb_last_key r) \<le> 0" if "e \<in> set (last bs)"
  proof (cases "e = last (last bs)")
    case True
    then show ?thesis using lk ok Compare_refl by simp
  next
    case False
    then have "e \<in> set (butlast (last bs))" using that ne by (metis append_butlast_last_id in_set_conv_decomp_first rotate1.simps(2) set_ConsD set_rotate1)
    then have "eless e (last (last bs))"
      using sorted_snoc_less [of "butlast (last bs)" "last (last bs)" e] srtl ne by simp
    then show ?thesis using lk by simp
  qed
qed

lemma sep_ok_snoc:
  assumes rep: "tb_rep r bs cur seps" and p: "tb_pending_index_entry r" and s: "ok s" "cmp_Compare c (tb_last_key r) s \<le> 0"
    and new: "sep_ok bs new seps" "\<forall>e\<in>set new. cmp_Compare c s (fst e) < 0"
      "\<forall>e\<in>set (take 1 new). s = cmp_FindShortestSeparator c (tb_last_key r) (fst e)"
  shows "sep_ok bs new (seps @ [s])"
proof -
  note l = pending_last [OF rep p]
  have "\<not> cmp_Compare c s (fst e) < 0" if "e \<in> set (last bs)" for e
  proof -
    have "ok (fst e)" using that rep l(2) by (cases bs rule: rev_cases) (auto simp: tb_rep_def sorted_entries_def)
    then show ?thesis using Compare_le_trans [OF _ l(6) s(1) l(7) [OF that] s(2)] Compare_not_less s(1) by blast
  qed
  moreover have "tb_last_key r = fst (last (last bs))" using rep p by (simp add: tb_rep_def)
  ultimately show ?thesis using new l(2,3) s(1) by (auto simp: sep_ok_def nth_append less_Suc_eq)
qed

text \<open>The builder after an entry was added, before a possible flush.\<close>

definition add_entry :: "entry \<Rightarrow> 'w TableBuilder \<Rightarrow> 'w TableBuilder" where
  "add_entry e r =
     (let r = (if tb_pending_index_entry r then add_index_entry (cmp_FindShortestSeparator c (tb_last_key r) (fst e)) r else r)
      in r\<lparr>tb_filter_block := map_option (apsnd (AddKey (fst e))) (tb_filter_block r), tb_last_key := fst e,
           tb_num_entries := tb_num_entries r + 1, tb_data_block := BlockBuilder_Add n (fst e) (snd e) (tb_data_block r)\<rparr>)"

lemma add_entry_rep:
  assumes rep: "tb_rep r bs cur seps" and srt: "sorted_entries (concat bs @ cur @ [e])"
  shows "\<exists>seps. tb_rep (add_entry e r) bs (cur @ [e]) seps"
proof (cases "tb_pending_index_entry r")
  case True
  note l = pending_last [OF rep True]
  let ?s = "cmp_FindShortestSeparator c (tb_last_key r) (fst e)"
  have "ok (fst e)" using srt by (simp add: sorted_entries_def)
  moreover have "cmp_Compare c (tb_last_key r) (fst e) < 0"
    using sorted_snoc_less [of "concat bs" e "last (last bs)"] srt l(1,5) True rep by (simp add: tb_rep_def)
  ultimately have s: "ok ?s" "cmp_Compare c (tb_last_key r) ?s \<le> 0" "cmp_Compare c ?s (fst e) < 0"
    using separator_ok separator_between l(6) by blast+
  have "sep_ok bs [e] (seps @ [?s])"
    using sep_ok_snoc [OF rep True s(1,2)] sep_ok_Add [OF rep srt] s(3) l(1) by simp
  then have "tb_rep (add_entry e r) bs (cur @ [e]) (seps @ [?s])"
    using rep True srt l(1) unfolding tb_rep_def
    by (simp add: add_entry_def Let_def add_index_entry_def index_entries_snoc blk_snoc option.map_comp comp_def
        filter_calls_Add [where cur = "[]", simplified] blk_snoc [where es = "[]", simplified])
  then show ?thesis by blast
next
  case False
  have "tb_rep (add_entry e r) bs (cur @ [e]) seps"
    using rep False srt sep_ok_Add [OF rep srt] unfolding tb_rep_def
    by (simp add: add_entry_def Let_def blk_snoc option.map_comp comp_def filter_calls_Add)
  then show ?thesis by blast
qed

lemma Add_rep:
  assumes rep: "tb_rep r bs cur seps" and srt: "sorted_entries (concat bs @ cur @ [e])"
  shows "\<exists>bs' cur' seps'. tb_rep (TableBuilder_Add W (fst e) (snd e) r) bs' cur' seps' \<and> concat bs' @ cur' = concat bs @ cur @ [e]"
proof -
  obtain seps' where a: "tb_rep (add_entry e r) bs (cur @ [e]) seps'" using add_entry_rep [OF rep srt] by blast
  have "TableBuilder_Add W (fst e) (snd e) r =
      (if CurrentSizeEstimate (tb_data_block (add_entry e r)) \<ge> opt_block_size Opt
       then TableBuilder_Flush W (add_entry e r) else add_entry e r)"
    using rep by (simp add: TableBuilder_Add_def add_entry_def Let_def tb_rep_def tb_ok_def Status_ok_iff Opt_comparator add_index_entry_def)
  then show ?thesis using a Flush_rep [OF a] by (cases "CurrentSizeEstimate (tb_data_block (add_entry e r)) \<ge> opt_block_size Opt") force+
qed

lemma fold_Add_rep:
  assumes "tb_rep r bs cur seps" and "sorted_entries (concat bs @ cur @ es)"
  shows "\<exists>bs' cur' seps'. tb_rep (fold (\<lambda>e. TableBuilder_Add W (fst e) (snd e)) es r) bs' cur' seps' \<and> concat bs' @ cur' = concat bs @ cur @ es"
  using assms
proof (induction es arbitrary: r bs cur seps)
  case (Cons e es)
  have "sorted_entries (concat bs @ cur @ [e])" using Cons.prems(2) by (auto simp: sorted_entries_def sorted_wrt_append)
  from Add_rep [OF Cons.prems(1) this] obtain bs' cur' seps' where
    a: "tb_rep (TableBuilder_Add W (fst e) (snd e) r) bs' cur' seps'" "concat bs' @ cur' = concat bs @ cur @ [e]" by blast
  have eq: "concat bs' @ cur' @ es = concat bs @ cur @ e # es" using arg_cong [OF a(2), of "\<lambda>x. x @ es"] by simp
  have "sorted_entries (concat bs' @ cur' @ es)" unfolding eq by (rule Cons.prems(2))
  from Cons.IH [OF a(1) this, unfolded eq] show ?case by simp
qed auto

lemma Flush_empty: "tb_rep r bs [] seps \<Longrightarrow> TableBuilder_Flush W r = r"
  by (simp add: TableBuilder_Flush_def tb_rep_def blk_empty)

lemma finish_filter_rep:
  assumes "tb_rep r bs [] seps"
  shows "\<exists>f. good f \<and> contents f = pre_meta (opt_filter_policy Opt) n bs \<and>
    finish_filter W (r\<lparr>tb_closed := True\<rparr>) =
      (case opt_filter_policy Opt of None \<Rightarrow> mk_BlockHandle | Some p \<Rightarrow> handle_at (base n bs) (filter_data p n bs),
       r\<lparr>tb_closed := True, tb_file := f, tb_offset := of_nat (length (pre_meta (opt_filter_policy Opt) n bs))\<rparr>)"
proof (cases "opt_filter_policy Opt")
  case None
  with assms show ?thesis by (intro exI [of _ "tb_file r"]) (simp add: finish_filter_def tb_rep_def pre_meta_def)
next
  case (Some p)
  have r: "tb_filter_block r = Some (p, build_filters (fp_CreateFilter p) (filter_calls n bs []))" "good (tb_file r)"
    "tb_status r = Status_OK" "tb_offset r = of_nat (length (base n bs))" "contents (tb_file r) = base n bs"
    using assms Some by (simp_all add: tb_rep_def)
  have ff: "finish_filter W (r\<lparr>tb_closed := True\<rparr>) = WriteRawBlock W (filter_data p n bs) kNoCompression (r\<lparr>tb_closed := True\<rparr>)"
    by (simp add: finish_filter_def r tb_ok_def Status_ok_iff filter_data_def)
  have "good (tb_file (r\<lparr>tb_closed := True\<rparr>))" using r by simp
  from WriteRawBlock_good [OF this, of "filter_data p n bs"] show ?thesis
    unfolding ff using r Some by (auto simp: pre_meta_def handle_at_def)
qed

lemma finish_metaindex_rep:
  assumes "tb_options r = Opt" "good (tb_file r)" "tb_status r = Status_OK" "contents (tb_file r) = pre_meta (opt_filter_policy Opt) n bs"
    "tb_offset r = of_nat (length (pre_meta (opt_filter_policy Opt) n bs))" "(tb_filter_block r = None) = (opt_filter_policy Opt = None)"
  shows "\<exists>f. good f \<and> contents f = pre_index (opt_filter_policy Opt) n bs \<and>
    finish_metaindex W (case opt_filter_policy Opt of None \<Rightarrow> mk_BlockHandle | Some p \<Rightarrow> handle_at (base n bs) (filter_data p n bs)) r =
      (handle_at (pre_meta (opt_filter_policy Opt) n bs) (meta_data (opt_filter_policy Opt) n bs),
       r\<lparr>tb_file := f, tb_offset := of_nat (length (pre_index (opt_filter_policy Opt) n bs))\<rparr>)"
proof -
  let ?es = "case opt_filter_policy Opt of None \<Rightarrow> []
      | Some p \<Rightarrow> [(filter_meta_key p, BlockHandle_EncodeTo (handle_at (base n bs) (filter_data p n bs)) [])]"
  from WriteBlock_good [OF assms(2), of "blk n ?es"] obtain f where f: "good f" "contents f = pre_index (opt_filter_policy Opt) n bs"
    "WriteBlock W (blk n ?es) r =
      (handle_at (pre_meta (opt_filter_policy Opt) n bs) (meta_data (opt_filter_policy Opt) n bs), mk_BlockBuilder,
       r\<lparr>tb_status := Status_OK, tb_file := f, tb_offset := of_nat (length (pre_index (opt_filter_policy Opt) n bs))\<rparr>)"
    unfolding Finish_blk by (auto simp: assms meta_data_def pre_index_def handle_at_def)
  moreover have "r\<lparr>tb_status := Status_OK\<rparr> = r" using assms(3) by simp
  ultimately show ?thesis
    using assms(1,3,6) by (intro exI [of _ f]) (cases "opt_filter_policy Opt"; cases "tb_filter_block r"; simp add: finish_metaindex_def Let_def tb_ok_def Status_ok_iff blk_def)
qed

lemma finish_index_rep:
  fixes po
  assumes rep: "tb_rep r bs [] seps" and f: "good f" "contents f = pre_index po n bs"
  shows "\<exists>seps' r'. length bs = length seps' \<and> sep_ok bs [] seps' \<and>
    (bs \<noteq> [] \<longrightarrow> last seps' = cmp_FindShortSuccessor c (fst (last (last bs)))) \<and> good (tb_file r') \<and> tb_status r' = Status_OK \<and>
    contents (tb_file r') = pre_index po n bs @ frame (index_data n bs seps') \<and>
    tb_offset r' = of_nat (length (contents (tb_file r'))) \<and>
    finish_index W (r\<lparr>tb_closed := True, tb_file := f, tb_offset := of_nat (length (pre_index po n bs))\<rparr>) =
      (handle_at (pre_index po n bs) (index_data n bs seps'), r')"
proof -
  let ?r = "r\<lparr>tb_closed := True, tb_file := f, tb_offset := of_nat (length (pre_index po n bs))\<rparr>"
  define r1 where "r1 = (if tb_pending_index_entry ?r
    then add_index_entry (cmp_FindShortSuccessor (opt_comparator (tb_options ?r)) (tb_last_key ?r)) ?r else ?r)"
  have st: "tb_status r = Status_OK" using rep by (simp add: tb_rep_def)
  have r1: "tb_file r1 = f" "tb_status r1 = Status_OK" "tb_offset r1 = of_nat (length (pre_index po n bs))"
    using st by (simp_all add: r1_def add_index_entry_def)
  have "\<exists>seps'. length bs = length seps' \<and> sep_ok bs [] seps' \<and>
    (bs \<noteq> [] \<longrightarrow> last seps' = cmp_FindShortSuccessor c (fst (last (last bs)))) \<and> tb_index_block r1 = blk 1 (index_entries n bs seps')"
  proof (cases "tb_pending_index_entry r")
    case True
    note l = pending_last [OF rep True]
    let ?s = "cmp_FindShortSuccessor c (tb_last_key r)"
    have "ok ?s" "cmp_Compare c (tb_last_key r) ?s \<le> 0" using successor_ok successor_ge l(6) by blast+
    from sep_ok_snoc [OF rep True this, of "[]"] have "sep_ok bs [] (seps @ [?s])" using rep by (simp add: tb_rep_def)
    moreover have "tb_index_block r1 = blk 1 (index_entries n bs (seps @ [?s]))"
      using rep True unfolding tb_rep_def by (simp add: r1_def add_index_entry_def index_entries_snoc blk_snoc Opt_comparator)
    moreover have "tb_last_key r = fst (last (last bs))" using rep True by (simp add: tb_rep_def)
    ultimately show ?thesis using l(2) by (intro exI [of _ "seps @ [?s]"]) simp
  next
    case False
    then show ?thesis using rep by (intro exI [of _ seps]) (auto simp: tb_rep_def r1_def)
  qed
  then obtain seps' where s: "length bs = length seps'" "sep_ok bs [] seps'" "tb_index_block r1 = blk 1 (index_entries n bs seps')"
    and succ: "bs \<noteq> [] \<longrightarrow> last seps' = cmp_FindShortSuccessor c (fst (last (last bs)))" by blast
  from WriteBlock_good [of r1 "tb_index_block r1"] r1 f obtain f' where f': "good f'"
    "contents f' = pre_index po n bs @ frame (index_data n bs seps')"
    "WriteBlock W (tb_index_block r1) r1 = (handle_at (pre_index po n bs) (index_data n bs seps'), mk_BlockBuilder,
      r1\<lparr>tb_status := Status_OK, tb_file := f', tb_offset := of_nat (length (contents f'))\<rparr>)"
    by (auto simp: s(3) Finish_blk index_data_def handle_at_def)
  have "finish_index W ?r = (handle_at (pre_index po n bs) (index_data n bs seps'),
      r1\<lparr>tb_status := Status_OK, tb_file := f', tb_offset := of_nat (length (contents f')), tb_index_block := mk_BlockBuilder\<rparr>)"
    using st f'(3) unfolding finish_index_def r1_def by (simp add: tb_ok_def Status_ok_iff)
  with s succ f' show ?thesis
    by (intro exI [of _ seps'] exI [of _ "r1\<lparr>tb_status := Status_OK, tb_file := f', tb_offset := of_nat (length (contents f')),
      tb_index_block := mk_BlockBuilder\<rparr>"]) simp
qed

theorem Finish_rep:
  assumes "tb_rep r bs cur seps"
  shows "\<exists>bs' seps' r'. TableBuilder_Finish W r = (Status_OK, r') \<and> concat bs' = concat bs @ cur \<and> [] \<notin> set bs' \<and>
    length bs' = length seps' \<and> sep_ok bs' [] seps' \<and>
    (bs' \<noteq> [] \<longrightarrow> last seps' = cmp_FindShortSuccessor c (fst (last (last bs')))) \<and> good (tb_file r') \<and>
    contents (tb_file r') = table_file (opt_filter_policy Opt) n bs' seps' \<and>
    TableBuilder_FileSize r' = of_nat (length (contents (tb_file r')))"
proof -
  let ?po = "opt_filter_policy Opt"
  obtain bs' where bs': "tb_rep (TableBuilder_Flush W r) bs' [] seps" "concat bs' = concat bs @ cur"
    using Flush_rep [OF assms] Flush_empty assms by (cases "cur = []") fastforce+
  define r0 where "r0 = TableBuilder_Flush W r"
  have rep: "tb_rep r0 bs' [] seps" using bs'(1) by (simp add: r0_def)
  obtain f1 where f1: "good f1" "contents f1 = pre_meta ?po n bs'"
    "finish_filter W (r0\<lparr>tb_closed := True\<rparr>) =
      (case ?po of None \<Rightarrow> mk_BlockHandle | Some p \<Rightarrow> handle_at (base n bs') (filter_data p n bs'),
       r0\<lparr>tb_closed := True, tb_file := f1, tb_offset := of_nat (length (pre_meta ?po n bs'))\<rparr>)"
    using finish_filter_rep [OF rep] by blast
  obtain f2 where f2: "good f2" "contents f2 = pre_index ?po n bs'"
    "finish_metaindex W (case ?po of None \<Rightarrow> mk_BlockHandle | Some p \<Rightarrow> handle_at (base n bs') (filter_data p n bs'))
       (r0\<lparr>tb_closed := True, tb_file := f1, tb_offset := of_nat (length (pre_meta ?po n bs'))\<rparr>) =
      (handle_at (pre_meta ?po n bs') (meta_data ?po n bs'),
       r0\<lparr>tb_closed := True, tb_file := f2, tb_offset := of_nat (length (pre_index ?po n bs'))\<rparr>)"
    using finish_metaindex_rep [of "r0\<lparr>tb_closed := True, tb_file := f1, tb_offset := of_nat (length (pre_meta ?po n bs'))\<rparr>" bs'] f1 rep
    by (auto simp: tb_rep_def)
  from finish_index_rep [OF rep f2(1,2)] obtain seps' r3 where
    r3: "length bs' = length seps'" "sep_ok bs' [] seps'" "good (tb_file r3)" "tb_status r3 = Status_OK"
    "contents (tb_file r3) = pre_index ?po n bs' @ frame (index_data n bs' seps')" "tb_offset r3 = of_nat (length (contents (tb_file r3)))"
    "finish_index W (r0\<lparr>tb_closed := True, tb_file := f2, tb_offset := of_nat (length (pre_index ?po n bs'))\<rparr>) =
      (handle_at (pre_index ?po n bs') (index_data n bs' seps'), r3)"
    and succ: "bs' \<noteq> [] \<longrightarrow> last seps' = cmp_FindShortSuccessor c (fst (last (last bs')))" by blast
  obtain f4 where f4: "wf_Append W (Footer_EncodeTo (table_footer ?po n bs' seps') []) (tb_file r3) = (Status_OK, f4)" "good f4"
    "contents f4 = contents (tb_file r3) @ Footer_EncodeTo (table_footer ?po n bs' seps') []" using Append_OK [OF r3(3)] .
  have "TableBuilder_Finish W r = (Status_OK, r3\<lparr>tb_status := Status_OK, tb_file := f4, tb_offset := of_nat (length (contents f4))\<rparr>)"
    using f4 r3(4,6) by (simp add: TableBuilder_Finish_def Let_def r0_def [symmetric] f1(3) f2(3) r3(7) finish_footer_def tb_ok_def
        Status_ok_iff table_footer_def)
  moreover have "[] \<notin> set bs'" using rep by (simp add: tb_rep_def)
  ultimately show ?thesis
    using bs'(2) r3(1,2,5) succ f4(2,3) by (intro exI [of _ bs'] exI [of _ seps']) (simp add: table_file_def TableBuilder_FileSize_def)
qed

text \<open>Building a table from sorted entries on a reliable file succeeds and writes the layout above.\<close>

theorem build_table_layout:
  assumes "good f" "contents f = []" "sorted_entries es"
  shows "\<exists>bs seps r. build_table W Opt es f = (Status_OK, r) \<and> concat bs = es \<and> [] \<notin> set bs \<and> length bs = length seps \<and>
    sep_ok bs [] seps \<and> (bs \<noteq> [] \<longrightarrow> last seps = cmp_FindShortSuccessor c (fst (last (last bs)))) \<and>
    good (tb_file r) \<and> contents (tb_file r) = table_file (opt_filter_policy Opt) n bs seps \<and>
    TableBuilder_FileSize r = of_nat (length (contents (tb_file r)))"
proof -
  obtain bs cur seps where r: "tb_rep (fold (\<lambda>e. TableBuilder_Add W (fst e) (snd e)) es (mk_TableBuilder Opt f)) bs cur seps"
    "concat bs @ cur = es"
    using fold_Add_rep [OF tb_rep_init [OF assms(1,2)], of es] assms(3) by auto
  from Finish_rep [OF r(1)] show ?thesis unfolding build_table_def r(2) by blast
qed

end

end
