(* ===== verification/Table.thy ===== *)
theory Table
  imports Table_Builder Two_Level Dbformat
begin

text \<open>
  Reading tables (\<^verbatim>\<open>App/integration/table.cpp\<close>): opening a file, the filter block, the iterator over the
  entries and point lookups.  The file of a table is given by its read function; the block cache, when
  there is one, by the map from its keys to the blocks it holds.  \<^term>\<open>None\<close> is an access outside a
  buffer.
\<close>

subsection \<open>Iterators that are one of two kinds, or undefined\<close>

text \<open>\<^verbatim>\<open>Block::NewIterator\<close> returns an iterator over the block or an empty one with an error.\<close>

definition sum_iter :: "'a Iterator \<Rightarrow> 'b Iterator \<Rightarrow> ('a + 'b) Iterator" where
  "sum_iter A B =
     \<lparr>it_Valid = case_sum (it_Valid A) (it_Valid B), it_SeekToFirst = map_sum (it_SeekToFirst A) (it_SeekToFirst B),
      it_SeekToLast = map_sum (it_SeekToLast A) (it_SeekToLast B), it_Seek = (\<lambda>t. map_sum (it_Seek A t) (it_Seek B t)),
      it_Next = map_sum (it_Next A) (it_Next B), it_Prev = map_sum (it_Prev A) (it_Prev B),
      it_key = case_sum (it_key A) (it_key B), it_value = case_sum (it_value A) (it_value B),
      it_status = case_sum (it_status A) (it_status B)\<rparr>"

definition opt_iter :: "'a Iterator \<Rightarrow> 'a option Iterator" where
  "opt_iter A =
     \<lparr>it_Valid = case_option False (it_Valid A), it_SeekToFirst = map_option (it_SeekToFirst A),
      it_SeekToLast = map_option (it_SeekToLast A), it_Seek = (\<lambda>t. map_option (it_Seek A t)),
      it_Next = map_option (it_Next A), it_Prev = map_option (it_Prev A), it_key = case_option [] (it_key A),
      it_value = case_option [] (it_value A), it_status = case_option Status_OK (it_status A)\<rparr>"

definition block_iterator :: "(bytes \<Rightarrow> bytes \<Rightarrow> int) \<Rightarrow> (Status + BlockIter) Iterator" where
  "block_iterator cmp = sum_iter EmptyIterator (block_iter cmp)"

context byte_comparator
begin

lemma sum_contract:
  assumes A: "kv_iterator ok Compare A aat" and B: "kv_iterator ok Compare B bat"
  shows "kv_iterator ok Compare (sum_iter A B) (case_sum aat bat)"
  by unfold_locales
    (auto simp: sum_iter_def kv_iterator.key_at [OF A] kv_iterator.key_at [OF B] kv_iterator.value_at [OF A] kv_iterator.value_at [OF B]
      simp del: One_nat_def split: sum.splits split del: if_split
      dest: kv_iterator.at_le [OF A] kv_iterator.at_le [OF B] kv_iterator.at_sorted [OF A] kv_iterator.at_sorted [OF B]
        kv_iterator.Valid_at [OF A] kv_iterator.Valid_at [OF B] kv_iterator.status_at [OF A] kv_iterator.status_at [OF B]
      intro: kv_iterator.SeekToFirst_at [OF A] kv_iterator.SeekToFirst_at [OF B] kv_iterator.SeekToLast_at [OF A]
        kv_iterator.SeekToLast_at [OF B] kv_iterator.Seek_at [OF A] kv_iterator.Seek_at [OF B] kv_iterator.Next_at [OF A]
        kv_iterator.Next_at [OF B] kv_iterator.Prev_at [OF A] kv_iterator.Prev_at [OF B])

lemma opt_contract:
  assumes A: "kv_iterator ok Compare A aat"
  shows "kv_iterator ok Compare (opt_iter A) (case_option (\<lambda>es i. False) aat)"
  by unfold_locales
    (auto simp: opt_iter_def kv_iterator.key_at [OF A] kv_iterator.value_at [OF A]
      simp del: One_nat_def split: option.splits split del: if_split
      dest: kv_iterator.at_le [OF A] kv_iterator.at_sorted [OF A] kv_iterator.Valid_at [OF A] kv_iterator.status_at [OF A]
      intro: kv_iterator.SeekToFirst_at [OF A] kv_iterator.SeekToLast_at [OF A] kv_iterator.Seek_at [OF A] kv_iterator.Next_at [OF A]
        kv_iterator.Prev_at [OF A])

definition block_iterator_at :: "Status + BlockIter \<Rightarrow> entry list \<Rightarrow> nat \<Rightarrow> bool" where
  "block_iterator_at = case_sum (\<lambda>s es i. es = [] \<and> i = 0 \<and> Status_ok s) blk_iter_at"

lemma block_iterator_contract: "kv_iterator ok Compare (block_iterator Compare) block_iterator_at"
  unfolding block_iterator_def block_iterator_at_def
  by (rule sum_contract) (unfold_locales)

end

subsection \<open>Tables\<close>

record ReadOptions =
  ro_verify_checksums :: bool
  ro_fill_cache :: bool

record Table =
  t_options :: Options
  t_file :: "uint64 \<Rightarrow> uint64 \<Rightarrow> raf_result"
  t_cache_id :: uint64
  t_filter :: "FilterBlockReader option"
  t_metaindex_handle :: BlockHandle
  t_index_block :: Block

definition Table_ReadFilter :: "bytes \<Rightarrow> Table \<Rightarrow> Table option" where
  "Table_ReadFilter filter_handle_value t =
     (case BlockHandle_DecodeFrom filter_handle_value of
        Inl s \<Rightarrow> Some t
      | Inr (filter_handle, _) \<Rightarrow>
          (case ReadBlock (t_file t) (opt_paranoid_checks (t_options t)) filter_handle of
             None \<Rightarrow> None
           | Some (Inl s) \<Rightarrow> Some t
           | Some (Inr block) \<Rightarrow> Some (t\<lparr>t_filter := Some (mk_FilterBlockReader (bc_data block))\<rparr>)))"

definition Table_ReadMeta :: "Footer \<Rightarrow> Table \<Rightarrow> Table option" where
  "Table_ReadMeta footer t =
     (case opt_filter_policy (t_options t) of
        None \<Rightarrow> Some t
      | Some policy \<Rightarrow>
          (case ReadBlock (t_file t) (opt_paranoid_checks (t_options t)) (metaindex_handle footer) of
             None \<Rightarrow> None
           | Some (Inl s) \<Rightarrow> Some t
           | Some (Inr contents) \<Rightarrow>
               (let I = block_iterator Bytewise_Compare;
                    key = filter_meta_key policy;
                    iter = it_Seek I key (Block_NewIterator (mk_Block (bc_data contents)))
                in if it_Valid I iter \<and> it_key I iter = key then Table_ReadFilter (it_value I iter) t else Some t)))"

text \<open>\<open>cache_id\<close> is \<^verbatim>\<open>NewId()\<close> of the block cache, or 0.\<close>

definition Table_Open ::
  "Options \<Rightarrow> (uint64 \<Rightarrow> uint64 \<Rightarrow> raf_result) \<Rightarrow> uint64 \<Rightarrow> uint64 \<Rightarrow> (Status + Table) option" where
  "Table_Open options Read sz cache_id =
     (if unat sz < kEncodedLength then Some (Inl (Corruption (str ''file is too short to be an sstable'') []))
      else
        (case Read (sz - of_nat kEncodedLength) (of_nat kEncodedLength) of
           None \<Rightarrow> None
         | Some (s, footer_input, _) \<Rightarrow>
             if \<not> Status_ok s then Some (Inl s)
             else
               (case Footer_DecodeFrom footer_input of
                  None \<Rightarrow> None
                | Some (Inl s) \<Rightarrow> Some (Inl s)
                | Some (Inr (footer, _)) \<Rightarrow>
                    (case ReadBlock Read (opt_paranoid_checks options) (index_handle footer) of
                       None \<Rightarrow> None
                     | Some (Inl s) \<Rightarrow> Some (Inl s)
                     | Some (Inr contents) \<Rightarrow>
                         map_option Inr (Table_ReadMeta footer
                           \<lparr>t_options = options, t_file = Read, t_cache_id = cache_id, t_filter = None,
                            t_metaindex_handle = metaindex_handle footer, t_index_block = mk_Block (bc_data contents)\<rparr>)))))"

subsection \<open>Blocks of a table\<close>

type_synonym block_cache = "(bytes \<rightharpoonup> Block) option"

definition cache_key :: "Table \<Rightarrow> BlockHandle \<Rightarrow> bytes" where
  "cache_key t handle = EncodeFixed64 (t_cache_id t) @ EncodeFixed64 (bh_offset handle)"

definition Table_BlockReader ::
  "Table \<Rightarrow> ReadOptions \<Rightarrow> block_cache \<Rightarrow> bytes \<Rightarrow> (Status + BlockIter) option \<times> block_cache" where
  "Table_BlockReader t options cache index_value =
     (case BlockHandle_DecodeFrom index_value of
        Inl s \<Rightarrow> (Some (Inl (NewErrorIterator s)), cache)
      | Inr (handle, _) \<Rightarrow>
          (case Option.bind cache (\<lambda>m. m (cache_key t handle)) of
             Some block \<Rightarrow> (Some (Block_NewIterator block), cache)
           | None \<Rightarrow>
               (case ReadBlock (t_file t) (ro_verify_checksums options) handle of
                  None \<Rightarrow> (None, cache)
                | Some (Inl s) \<Rightarrow> (Some (Inl (NewErrorIterator s)), cache)
                | Some (Inr contents) \<Rightarrow>
                    (let block = mk_Block (bc_data contents)
                     in (Some (Block_NewIterator block),
                         if bc_cachable contents \<and> ro_fill_cache options
                         then map_option (\<lambda>m. m(cache_key t handle \<mapsto> block)) cache else cache)))))"

definition Table_NewIterator :: "Table \<Rightarrow> (Status + BlockIter, (Status + BlockIter) option) TwoLevelIterator" where
  "Table_NewIterator t = NewTwoLevelIterator (Block_NewIterator (t_index_block t))"

definition table_iter ::
  "Table \<Rightarrow> ReadOptions \<Rightarrow> block_cache \<Rightarrow> (Status + BlockIter, (Status + BlockIter) option) TwoLevelIterator option Iterator" where
  "table_iter t options cache =
     (let I = block_iterator (cmp_Compare (opt_comparator (t_options t)))
      in two_level_iter I (opt_iter I) (\<lambda>h. fst (Table_BlockReader t options cache h)))"

definition Table_InternalGet ::
  "Table \<Rightarrow> ReadOptions \<Rightarrow> bytes \<Rightarrow> (bytes \<Rightarrow> bytes \<Rightarrow> 'a \<Rightarrow> 'a) \<Rightarrow> 'a \<Rightarrow> block_cache \<Rightarrow> (Status \<times> 'a \<times> block_cache) option" where
  "Table_InternalGet t options k saver arg cache =
     (let I = block_iterator (cmp_Compare (opt_comparator (t_options t)));
          iiter = it_Seek I k (Block_NewIterator (t_index_block t));
          finish = (\<lambda>(s, arg, cache). (if Status_ok s then it_status I iiter else s, arg, cache))
      in if it_Valid I iiter
         then
           (let handle_value = it_value I iiter;
                may_match =
                  (case (t_filter t, opt_filter_policy (t_options t), BlockHandle_DecodeFrom handle_value) of
                     (Some f, Some policy, Inr (handle, _)) \<Rightarrow> FilterBlock_KeyMayMatch (fp_KeyMayMatch policy) f (bh_offset handle) k
                   | _ \<Rightarrow> Some True)
            in case may_match of
                 None \<Rightarrow> None
               | Some False \<Rightarrow> Some (finish (Status_OK, arg, cache))
               | Some True \<Rightarrow>
                   (case Table_BlockReader t options cache handle_value of
                      (None, _) \<Rightarrow> None
                    | (Some it, cache) \<Rightarrow>
                        (let block_iter = it_Seek I k it;
                             arg = (if it_Valid I block_iter then saver (it_key I block_iter) (it_value I block_iter) arg else arg)
                         in Some (finish (it_status I block_iter, arg, cache)))))
         else Some (finish (Status_OK, arg, cache)))"

definition Table_ApproximateOffsetOf :: "Table \<Rightarrow> bytes \<Rightarrow> uint64" where
  "Table_ApproximateOffsetOf t key =
     (let I = block_iterator (cmp_Compare (opt_comparator (t_options t)));
          index_iter = it_Seek I key (Block_NewIterator (t_index_block t))
      in if it_Valid I index_iter
         then (case BlockHandle_DecodeFrom (it_value I index_iter) of
                 Inr (handle, _) \<Rightarrow> bh_offset handle
               | Inl s \<Rightarrow> bh_offset (t_metaindex_handle t))
         else bh_offset (t_metaindex_handle t))"

end
