(* ===== verification/Version_Search.thy ===== *)
theory Version_Search
  imports Version Table
begin

text \<open>
  The searches in a level: the binary search and the overlap test agree with a scan of all files, the
  iterator over the files of a level meets the contract of iterators, and the collection of overlapping
  inputs ends and is closed.
\<close>

subsection \<open>Binary search\<close>

text \<open>For a predicate that is closed downwards the loop finds the first position where it fails.\<close>

lemma FindFile_loop_first:
  assumes "left \<le> right" and "right \<le> length files"
    and "\<And>j. j < left \<Longrightarrow> InternalKey_Compare ucmp (largest (files ! j)) key < 0"
    and "\<And>j. right \<le> j \<Longrightarrow> j < length files \<Longrightarrow> \<not> InternalKey_Compare ucmp (largest (files ! j)) key < 0"
    and "\<And>i j. i < j \<Longrightarrow> j < length files \<Longrightarrow> InternalKey_Compare ucmp (largest (files ! j)) key < 0 \<Longrightarrow>
      InternalKey_Compare ucmp (largest (files ! i)) key < 0"
  shows "FindFile_loop ucmp files key left right = length (takeWhile (\<lambda>f. InternalKey_Compare ucmp (largest f) key < 0) files)"
  using assms
proof (induction ucmp files key left right rule: FindFile_loop.induct)
  case (1 ucmp files key left right)
  let ?P = "\<lambda>f. InternalKey_Compare ucmp (largest f) key < 0"
  show ?case
  proof (cases "left < right")
    case True
    let ?mid = "(left + right) div 2"
    have mid: "left \<le> ?mid" "?mid < right" using True by auto
    show ?thesis
    proof (cases "?P (files ! ?mid)")
      case less: True
      have "?P (files ! j)" if "j < ?mid + 1" for j
        using less "1.prems"(5) [of j ?mid] that mid "1.prems"(2) by (cases "j = ?mid") auto
      then show ?thesis
        using "1.IH"(1) [OF True refl refl less] mid "1.prems" less True by (subst FindFile_loop.simps) (simp add: Let_def)
    next
      case ge: False
      have "\<not> ?P (files ! j)" if "?mid \<le> j" "j < length files" for j
        using ge "1.prems"(5) [of ?mid j] that by (cases "j = ?mid") auto
      then show ?thesis
        using "1.IH"(2) [OF True refl refl ge] mid "1.prems" ge True by (subst FindFile_loop.simps) (simp add: Let_def)
    qed
  next
    case False
    then have eq: "left = right" using "1.prems"(1) by simp
    have "takeWhile ?P files = take right files"
      using "1.prems"(3,4) eq by (intro takeWhile_eq_take_P_nth) auto
    then show ?thesis
      using False "1.prems"(2) by (subst FindFile_loop.simps) simp
  qed
qed

text \<open>The files of a level from 1 on: every file is a range, and the ranges follow one another.\<close>

definition ikey_proper :: "bytes \<Rightarrow> bool" where
  "ikey_proper k \<longleftrightarrow> ikey_ok k \<and> DecodeTrailer k \<le> PackSequenceAndType kMaxSequenceNumber kValueTypeForSeek"

definition file_range_ok :: "(bytes \<Rightarrow> bytes \<Rightarrow> int) \<Rightarrow> FileMetaData \<Rightarrow> bool" where
  "file_range_ok ucmp f \<longleftrightarrow> ikey_proper (smallest f) \<and> ikey_proper (largest f) \<and> InternalKey_Compare ucmp (smallest f) (largest f) \<le> 0"

definition level_sorted :: "(bytes \<Rightarrow> bytes \<Rightarrow> int) \<Rightarrow> FileMetaData list \<Rightarrow> bool" where
  "level_sorted ucmp files \<longleftrightarrow> (\<forall>f\<in>set files. file_range_ok ucmp f) \<and>
     sorted_wrt (\<lambda>f g. InternalKey_Compare ucmp (largest f) (smallest g) < 0) files"

context internal_key_order
begin

abbreviation icmp :: "bytes \<Rightarrow> bytes \<Rightarrow> int" where
  "icmp \<equiv> InternalKey_Compare ucmp"

lemma level_sortedD:
  assumes "level_sorted ucmp files" and "i < j" and "j < length files"
  shows "icmp (largest (files ! i)) (smallest (files ! j)) < 0" "icmp (largest (files ! i)) (largest (files ! j)) < 0"
    "icmp (smallest (files ! i)) (smallest (files ! j)) < 0"
proof -
  have ok: "file_range_ok ucmp (files ! i)" "file_range_ok ucmp (files ! j)" using assms by (simp_all add: level_sorted_def)
  show lt: "icmp (largest (files ! i)) (smallest (files ! j)) < 0"
    using assms by (simp add: level_sorted_def sorted_wrt_iff_nth_less)
  show "icmp (largest (files ! i)) (largest (files ! j)) < 0"
    using internal.Compare_less_le_trans [OF _ _ _ lt] ok by (simp add: file_range_ok_def ikey_proper_def)
  show "icmp (smallest (files ! i)) (smallest (files ! j)) < 0"
    using internal.Compare_le_less_trans [OF _ _ _ _ lt] ok by (simp add: file_range_ok_def ikey_proper_def)
qed

lemma level_rangeD: "level_sorted ucmp files \<Longrightarrow> i < length files \<Longrightarrow> file_range_ok ucmp (files ! i)"
  by (simp add: level_sorted_def)

text \<open>\<open>FindFile\<close> is the first file whose largest key is not before the key.\<close>

lemma FindFile_scan:
  assumes "level_sorted ucmp files" and "ikey_ok key"
  shows "FindFile ucmp files key = length (takeWhile (\<lambda>f. icmp (largest f) key < 0) files)"
  unfolding FindFile_def
proof (rule FindFile_loop_first)
  fix i j assume "i < j" "j < length files" "icmp (largest (files ! j)) key < 0"
  then show "icmp (largest (files ! i)) key < 0"
    using level_sortedD(2) [OF assms(1)] by (meson InternalKey_Compare_trans)
qed auto

lemma FindFile_before: "level_sorted ucmp files \<Longrightarrow> ikey_ok key \<Longrightarrow> j < FindFile ucmp files key \<Longrightarrow> icmp (largest (files ! j)) key < 0"
  unfolding FindFile_scan using nth_mem [of j "takeWhile (\<lambda>f. icmp (largest f) key < 0) files"]
  by (auto simp: takeWhile_nth dest!: set_takeWhileD)

lemma FindFile_at: "level_sorted ucmp files \<Longrightarrow> ikey_ok key \<Longrightarrow> FindFile ucmp files key < length files \<Longrightarrow>
    \<not> icmp (largest (files ! FindFile ucmp files key)) key < 0"
  unfolding FindFile_scan by (rule nth_length_takeWhile)

lemma FindFile_le: "level_sorted ucmp files \<Longrightarrow> ikey_ok key \<Longrightarrow> FindFile ucmp files key \<le> length files"
  unfolding FindFile_scan by (rule length_takeWhile_le)

text \<open>The internal key with which a user key is sought is the first one of that user key.\<close>

lemma seek_key_less:
  "ikey_proper k \<Longrightarrow> icmp k (InternalKey u kMaxSequenceNumber kValueTypeForSeek) < 0 \<longleftrightarrow> ucmp (ExtractUserKey k) u < 0"
  by (simp add: InternalKey_Compare_less ikey_proper_def InternalKey_eq) (meson leD)

lemma icmp_user: "icmp a b \<le> 0 \<Longrightarrow> ucmp (ExtractUserKey a) (ExtractUserKey b) \<le> 0"
  by (auto simp: InternalKey_Compare_less InternalKey_Compare_0 order_le_less user.Compare_refl)

lemma user_ranges:
  assumes "level_sorted ucmp files" and "i < j" and "j < length files"
  shows "ucmp (ExtractUserKey (largest (files ! i))) (ExtractUserKey (smallest (files ! j))) \<le> 0"
    "ucmp (ExtractUserKey (smallest (files ! i))) (ExtractUserKey (smallest (files ! j))) \<le> 0"
  using level_sortedD [OF assms] icmp_user by (simp_all add: order_le_less)

text \<open>On the files of a sorted level the overlap test finds what a scan of all files finds.\<close>

definition overlaps :: "bytes option \<Rightarrow> bytes option \<Rightarrow> FileMetaData \<Rightarrow> bool" where
  "overlaps b e f \<longleftrightarrow> \<not> AfterFile ucmp b f \<and> \<not> BeforeFile ucmp e f"

lemma not_before_mono:
  assumes "level_sorted ucmp files" "i \<le> j" "j < length files" "\<not> BeforeFile ucmp e (files ! j)"
  shows "\<not> BeforeFile ucmp e (files ! i)"
proof (cases "i = j \<or> e = None")
  case False
  then obtain k where e: "e = Some k" and "i < j" using assms(2) by auto
  then have "ucmp (ExtractUserKey (smallest (files ! i))) (ExtractUserKey (smallest (files ! j))) \<le> 0"
    using user_ranges(2) assms by blast
  then show ?thesis using assms(4) e user.Compare_less_le_trans by (auto simp: BeforeFile_def)
qed (use assms in \<open>auto simp: BeforeFile_def\<close>)

lemma SomeFileOverlapsRange_scan:
  assumes srt: "d \<Longrightarrow> level_sorted ucmp files"
  shows "SomeFileOverlapsRange ucmp d files b e \<longleftrightarrow> (\<exists>f\<in>set files. overlaps b e f)"
proof (cases d)
  case True
  note srt = srt [OF True]
  define i where "i = (case b of None \<Rightarrow> 0 | Some k \<Rightarrow> FindFile ucmp files (InternalKey k kMaxSequenceNumber kValueTypeForSeek))"
  have proper: "ikey_proper (largest (files ! j))" if "j < length files" for j
    using level_rangeD [OF srt that] by (simp add: file_range_ok_def)
  have after: "AfterFile ucmp b (files ! j)" if "j < i" "j < length files" for j
    using FindFile_before [OF srt, of "InternalKey k kMaxSequenceNumber kValueTypeForSeek" j for k] seek_key_less [OF proper [OF that(2)]] that
    by (auto simp: i_def AfterFile_def user.Compare_flip split: option.splits)
  have at: "\<not> AfterFile ucmp b (files ! i)" if "i < length files"
    using FindFile_at [OF srt, of "InternalKey k kMaxSequenceNumber kValueTypeForSeek" for k] seek_key_less [OF proper [OF that]] that
    by (auto simp: i_def AfterFile_def user.Compare_flip split: option.splits)
  show ?thesis
  proof
    assume "SomeFileOverlapsRange ucmp d files b e"
    then have "i < length files" "\<not> BeforeFile ucmp e (files ! i)"
      using True by (auto simp: SomeFileOverlapsRange_def i_def [symmetric] Let_def split: if_splits)
    then show "\<exists>f\<in>set files. overlaps b e f" using at by (auto simp: overlaps_def intro: nth_mem)
  next
    assume "\<exists>f\<in>set files. overlaps b e f"
    then obtain j where j: "j < length files" "overlaps b e (files ! j)" by (auto simp: in_set_conv_nth)
    then have "i \<le> j" using after [of j] by (force simp: overlaps_def)
    then have "\<not> BeforeFile ucmp e (files ! i)" "i < length files"
      using not_before_mono [OF srt _ j(1)] j by (auto simp: overlaps_def)
    then show "SomeFileOverlapsRange ucmp d files b e"
      using True by (simp add: SomeFileOverlapsRange_def i_def [symmetric] Let_def)
  qed
qed (auto simp: SomeFileOverlapsRange_def overlaps_def list_ex_iff)

subsection \<open>The iterator over the files of a level\<close>

definition file_entry :: "FileMetaData \<Rightarrow> entry" where
  "file_entry f = (largest f, EncodeFixed64 (fnumber f) @ EncodeFixed64 (file_size f))"

definition level_file_at :: "LevelFileNumIterator \<Rightarrow> entry list \<Rightarrow> nat \<Rightarrow> bool" where
  "level_file_at it es i \<longleftrightarrow> level_sorted ucmp (lf_flist it) \<and> es = map file_entry (lf_flist it) \<and> i = lf_index it \<and> i \<le> length es"

lemma level_file_seek: "level_sorted ucmp files \<Longrightarrow> ikey_ok t \<Longrightarrow> seek_pos icmp (map file_entry files) t = FindFile ucmp files t"
  by (simp add: FindFile_scan seek_pos_def takeWhile_map comp_def file_entry_def)

end

sublocale internal_key_order \<subseteq> ib: byte_comparator ikey_ok "InternalKey_Compare ucmp"
  by unfold_locales

context internal_key_order
begin

lemma file_entries_sorted: "level_sorted ucmp files \<Longrightarrow> ib.sorted_entries (map file_entry files)"
  using level_sortedD(2) level_rangeD
  by (auto simp: ib.sorted_entries_def sorted_wrt_iff_nth_less file_entry_def level_sorted_def file_range_ok_def ikey_proper_def)

theorem level_file_contract: "kv_iterator ikey_ok icmp (level_file_iter ucmp) level_file_at"
proof unfold_locales
  fix it es i assume at: "level_file_at it es i"
  then have srt: "level_sorted ucmp (lf_flist it)" and es: "es = map file_entry (lf_flist it)" and i: "i = lf_index it" "i \<le> length es"
    by (auto simp: level_file_at_def)
  show "i \<le> length es" by (rule i)
  show "ib.sorted_entries es" using file_entries_sorted [OF srt] es by simp
  show "it_Valid (level_file_iter ucmp) it \<longleftrightarrow> i < length es" using i es by (simp add: level_file_iter_def)
  show "Status_ok (it_status (level_file_iter ucmp) it)" by (simp add: level_file_iter_def Status_ok_def Status_OK_def)
  show "level_file_at (it_SeekToFirst (level_file_iter ucmp) it) es 0" using srt es by (simp add: level_file_iter_def level_file_at_def)
  show "level_file_at (it_SeekToLast (level_file_iter ucmp) it) es (length es - 1)"
    using srt es by (simp add: level_file_iter_def level_file_at_def)
  show "level_file_at (it_Seek (level_file_iter ucmp) t it) es (seek_pos icmp es t)" if "ikey_ok t" for t
    using srt es level_file_seek [OF srt that] FindFile_le [OF srt that] by (simp add: level_file_iter_def level_file_at_def)
  assume "i < length es"
  then show "it_key (level_file_iter ucmp) it = fst (es ! i)" "it_value (level_file_iter ucmp) it = snd (es ! i)"
    "level_file_at (it_Next (level_file_iter ucmp) it) es (Suc i)"
    "level_file_at (it_Prev (level_file_iter ucmp) it) es (if i = 0 then length es else i - 1)"
    using srt es i by (auto simp: level_file_iter_def level_file_at_def LevelFile_key_def LevelFile_value_def file_entry_def)
qed

lemma mk_LevelFileNumIterator_at:
  "level_sorted ucmp files \<Longrightarrow> level_file_at (mk_LevelFileNumIterator files) (map file_entry files) (length files)"
  by (simp add: level_file_at_def mk_LevelFileNumIterator_def)

subsection \<open>Overlapping inputs\<close>

text \<open>The user keys as a total order, and the range of a file.\<close>

definition ule :: "bytes \<Rightarrow> bytes \<Rightarrow> bool" where
  "ule a b \<longleftrightarrow> ucmp a b \<le> 0"

abbreviation fstart :: "FileMetaData \<Rightarrow> bytes" where
  "fstart f \<equiv> ExtractUserKey (smallest f)"

abbreviation flimit :: "FileMetaData \<Rightarrow> bytes" where
  "flimit f \<equiv> ExtractUserKey (largest f)"

lemma ule_refl [simp]: "ule a a"
  by (simp add: ule_def user.Compare_refl)

lemma ule_trans: "ule a b \<Longrightarrow> ule b c \<Longrightarrow> ule a c"
  using user.Compare_le_trans by (simp add: ule_def)

lemma ule_total: "ule a b \<or> ule b a"
  using user.Compare_not_less [of a b] by (auto simp: ule_def)

lemma ucmp_less: "ucmp a b < 0 \<longleftrightarrow> \<not> ule b a"
  using user.Compare_not_less [of a b] by (auto simp: ule_def)

lemma ucmp_greater: "ucmp a b > 0 \<longleftrightarrow> \<not> ule a b"
  by (auto simp: ule_def)

definition inside :: "bytes option \<Rightarrow> bytes option \<Rightarrow> FileMetaData \<Rightarrow> bool" where
  "inside b e f \<longleftrightarrow> (\<forall>k. b = Some k \<longrightarrow> ule k (fstart f)) \<and> (\<forall>k. e = Some k \<longrightarrow> ule (flimit f) k)"

lemma overlaps_iff: "overlaps b e f \<longleftrightarrow> (\<forall>k. b = Some k \<longrightarrow> ule k (flimit f)) \<and> (\<forall>k. e = Some k \<longrightarrow> ule (fstart f) k)"
  by (auto simp: overlaps_def AfterFile_def BeforeFile_def ucmp_less ucmp_greater split: option.splits)

definition files_overlap :: "FileMetaData \<Rightarrow> FileMetaData \<Rightarrow> bool" where
  "files_overlap f g \<longleftrightarrow> ule (fstart f) (flimit g) \<and> ule (fstart g) (flimit f)"

text \<open>A range widened to hold a file that overlaps it meets no file that neither the range nor that file meets.\<close>

lemma overlaps_wider:
  assumes "overlaps b e f" and "ule (fstart g) (flimit g)"
  shows "b \<noteq> None \<Longrightarrow> overlaps (Some (fstart f)) e g \<Longrightarrow> overlaps b e g \<or> files_overlap f g"
    "e \<noteq> None \<Longrightarrow> overlaps b (Some (flimit f)) g \<Longrightarrow> overlaps b e g \<or> files_overlap f g"
  using assms unfolding overlaps_iff files_overlap_def by (metis option.exhaust_sel option.sel ule_total ule_trans)+

definition closed_under :: "FileMetaData list \<Rightarrow> bytes option \<Rightarrow> bytes option \<Rightarrow> FileMetaData set \<Rightarrow> bool" where
  "closed_under files b e S \<longleftrightarrow> (\<forall>g\<in>set files. overlaps b e g \<longrightarrow> g \<in> S) \<and> (\<forall>f\<in>S. \<forall>g\<in>set files. files_overlap f g \<longrightarrow> g \<in> S)"

text \<open>How much a range can still be widened.\<close>

definition outside :: "FileMetaData list \<Rightarrow> bytes option \<Rightarrow> bytes option \<Rightarrow> nat" where
  "outside files b e = length (filter (\<lambda>f. \<exists>k. b = Some k \<and> \<not> ule k (fstart f)) files) +
     length (filter (\<lambda>f. \<exists>k. e = Some k \<and> \<not> ule (flimit f) k) files)"

lemma filter_shrinks:
  assumes "\<And>x. x \<in> set xs \<Longrightarrow> P x \<Longrightarrow> Q x" and "y \<in> set xs" "Q y" "\<not> P y"
  shows "length (filter P xs) < length (filter Q xs)"
proof -
  have "filter P xs = filter P (filter Q xs)" using assms(1) by (auto simp: filter_filter intro!: filter_cong)
  then show ?thesis using length_filter_less [of y "filter Q xs" P] assms(2-4) by simp
qed

lemma outside_less:
  assumes "f \<in> set files"
  shows "\<not> ule k (fstart f) \<Longrightarrow> outside files (Some (fstart f)) e < outside files (Some k) e"
    "\<not> ule (flimit f) k \<Longrightarrow> outside files b (Some (flimit f)) < outside files b (Some k)"
proof -
  show "outside files (Some (fstart f)) e < outside files (Some k) e" if "\<not> ule k (fstart f)"
    using filter_shrinks [of files "\<lambda>g. \<not> ule (fstart f) (fstart g)" "\<lambda>g. \<not> ule k (fstart g)" f] that assms ule_trans ule_total
    by (auto simp: outside_def) (metis ule_total ule_trans)
  show "outside files b (Some (flimit f)) < outside files b (Some k)" if "\<not> ule (flimit f) k"
    using filter_shrinks [of files "\<lambda>g. \<not> ule (flimit g) (flimit f)" "\<lambda>g. \<not> ule (flimit g) k" f] that assms
    by (auto simp: outside_def) (metis ule_total ule_trans)
qed

lemma overlapping_step:
  assumes "i < length files"
  shows "overlapping_loop ucmp level files i b e inputs =
    (let f = files ! i
     in if \<not> overlaps b e f then overlapping_loop ucmp level files (i + 1) b e inputs
        else if level = 0 \<and> (\<exists>k. b = Some k \<and> \<not> ule k (fstart f)) then overlapping_loop ucmp level files 0 (Some (fstart f)) e []
        else if level = 0 \<and> (\<exists>k. e = Some k \<and> \<not> ule (flimit f) k) then overlapping_loop ucmp level files 0 b (Some (flimit f)) []
        else overlapping_loop ucmp level files (i + 1) b e (inputs @ [f]))"
  using assms by (subst overlapping_loop.simps) (auto simp: Let_def overlaps_iff ucmp_less ucmp_greater split: option.splits)

lemma overlapping_end [simp]: "overlapping_loop ucmp level files (length files) b e inputs = Some inputs"
  by (subst overlapping_loop.simps) simp

lemma overlapping_above:
  assumes "level \<noteq> 0" and "i \<le> length files"
  shows "overlapping_loop ucmp level files i b e inputs = Some (inputs @ filter (overlaps b e) (drop i files))"
  using assms(2)
proof (induction "length files - i" arbitrary: i inputs)
  case (Suc n)
  then have "i < length files" by simp
  with Suc assms(1) show ?case
    by (simp add: overlapping_step Let_def Cons_nth_drop_Suc [symmetric, of i])
qed auto

definition settled :: "FileMetaData list \<Rightarrow> bytes option \<Rightarrow> bytes option \<Rightarrow> bytes option \<Rightarrow> bytes option \<Rightarrow> bool" where
  "settled files b e b' e' \<longleftrightarrow>
     (\<forall>f\<in>set files. overlaps b' e' f \<longrightarrow> inside b' e' f) \<and> (\<forall>g\<in>set files. overlaps b e g \<longrightarrow> overlaps b' e' g) \<and>
     (\<forall>S. closed_under files b e S \<longrightarrow> closed_under files b' e' S)"

lemma settled_wider:
  assumes f: "f \<in> set files" "overlaps b e f" and ranges: "\<forall>g\<in>set files. ule (fstart g) (flimit g)"
  shows "b = Some k \<Longrightarrow> \<not> ule k (fstart f) \<Longrightarrow> settled files (Some (fstart f)) e b' e' \<Longrightarrow> settled files b e b' e'"
    "e = Some k \<Longrightarrow> \<not> ule (flimit f) k \<Longrightarrow> settled files b (Some (flimit f)) b' e' \<Longrightarrow> settled files b e b' e'"
proof -
  have S: "f \<in> S" if "closed_under files b e S" for S using that f by (auto simp: closed_under_def)
  show "settled files b e b' e'" if b: "b = Some k" "\<not> ule k (fstart f)" and st: "settled files (Some (fstart f)) e b' e'"
  proof -
    have "overlaps (Some (fstart f)) e g" if "overlaps b e g" for g
      using that b ule_total ule_trans unfolding overlaps_iff by blast
    moreover have "closed_under files (Some (fstart f)) e S" if "closed_under files b e S" for S
      using that S [OF that] overlaps_wider(1) [OF f(2)] ranges b(1) unfolding closed_under_def by blast
    ultimately show ?thesis using st by (simp add: settled_def)
  qed
  show "settled files b e b' e'" if e: "e = Some k" "\<not> ule (flimit f) k" and st: "settled files b (Some (flimit f)) b' e'"
  proof -
    have "overlaps b (Some (flimit f)) g" if "overlaps b e g" for g
      using that e ule_total ule_trans unfolding overlaps_iff by blast
    moreover have "closed_under files b (Some (flimit f)) S" if "closed_under files b e S" for S
      using that S [OF that] overlaps_wider(2) [OF f(2)] ranges e(1) unfolding closed_under_def by blast
    ultimately show ?thesis using st by (simp add: settled_def)
  qed
qed

text \<open>The restarting search returns, with the files of a range that no file it meets sticks out of.\<close>

lemma overlapping_level0:
  assumes "\<forall>g\<in>set files. ule (fstart g) (flimit g)" and "i \<le> length files"
    and "inputs = filter (overlaps b e) (take i files)" and "\<forall>f\<in>set inputs. inside b e f"
  shows "\<exists>b' e'. overlapping_loop ucmp 0 files i b e inputs = Some (filter (overlaps b' e') files) \<and> settled files b e b' e'"
  using assms(2-)
proof (induction "(outside files b e, length files - i)" arbitrary: i b e inputs rule: wf_induct_rule [OF wf_lex_prod [OF wf_less_than wf_less_than]])
  case 1
  note IH = 1(1)
  show ?case
  proof (cases "i = length files")
    case True
    have "settled files b e b e" using 1(3,4) True by (auto simp: settled_def)
    then show ?thesis using True 1(3) by auto
  next
    case False
    then have i: "i < length files" using 1(2) by simp
    let ?f = "files ! i"
    have f: "?f \<in> set files" using i by simp
    have tk: "take (Suc i) files = take i files @ [?f]" using i by (rule take_Suc_conv_app_nth)
    show ?thesis
    proof (cases "overlaps b e ?f")
      case no: False
      have "\<exists>b' e'. overlapping_loop ucmp 0 files (i + 1) b e inputs = Some (filter (overlaps b' e') files) \<and> settled files b e b' e'"
        by (rule IH) (use i 1(3,4) no tk in auto)
      then show ?thesis using no by (simp add: overlapping_step [OF i] Let_def)
    next
      case yes: True
      consider (low) k where "b = Some k" "\<not> ule k (fstart ?f)" | (high) k where "e = Some k" "\<not> ule (flimit ?f) k" "\<not> (\<exists>k. b = Some k \<and> \<not> ule k (fstart ?f))"
        | (fits) "inside b e ?f" by (auto simp: inside_def)
      then show ?thesis
      proof cases
        case low
        have "\<exists>b' e'. overlapping_loop ucmp 0 files 0 (Some (fstart ?f)) e [] = Some (filter (overlaps b' e') files) \<and> settled files (Some (fstart ?f)) e b' e'"
          by (rule IH) (use outside_less(1) [OF f low(2)] low(1) in auto)
        moreover have "overlapping_loop ucmp 0 files i b e inputs = overlapping_loop ucmp 0 files 0 (Some (fstart ?f)) e []"
          using yes low by (simp add: overlapping_step [OF i] Let_def)
        ultimately show ?thesis using settled_wider(1) [OF f yes assms(1) low] by metis
      next
        case high
        have "\<exists>b' e'. overlapping_loop ucmp 0 files 0 b (Some (flimit ?f)) [] = Some (filter (overlaps b' e') files) \<and> settled files b (Some (flimit ?f)) b' e'"
          by (rule IH) (use outside_less(2) [OF f high(2)] high(1) in auto)
        moreover have "overlapping_loop ucmp 0 files i b e inputs = overlapping_loop ucmp 0 files 0 b (Some (flimit ?f)) []"
          using yes high by (auto simp: overlapping_step [OF i] Let_def)
        ultimately show ?thesis using settled_wider(2) [OF f yes assms(1) high(1,2)] by metis
      next
        case fits
        have "\<exists>b' e'. overlapping_loop ucmp 0 files (i + 1) b e (inputs @ [?f]) = Some (filter (overlaps b' e') files) \<and> settled files b e b' e'"
          by (rule IH) (use i 1(3,4) yes tk fits in auto)
        moreover have "overlapping_loop ucmp 0 files i b e inputs = overlapping_loop ucmp 0 files (i + 1) b e (inputs @ [?f])"
          using yes fits by (auto simp: overlapping_step [OF i] Let_def inside_def)
        ultimately show ?thesis by metis
      qed
    qed
  qed
qed

lemma settled_closed:
  assumes "settled files b e b' e'"
  shows "closed_under files b e {f\<in>set files. overlaps b' e' f}"
proof -
  have "overlaps b' e' g" if "f \<in> set files" "overlaps b' e' f" "files_overlap f g" for f g
  proof -
    have "inside b' e' f" using assms that by (simp add: settled_def)
    then show ?thesis using that(3) ule_trans unfolding inside_def overlaps_iff files_overlap_def by blast
  qed
  then show ?thesis using assms unfolding settled_def closed_under_def by blast
qed

lemma settled_least:
  assumes "settled files b e b' e'" and "closed_under files b e S"
  shows "{f\<in>set files. overlaps b' e' f} \<subseteq> S"
  using assms unfolding settled_def closed_under_def by blast

end

text \<open>
  C23: In a level whose files are sorted and disjoint, the overlap test by binary search gives the answer
  of the linear scan that the same function makes of level 0: whether some file meets the range of user
  keys.
\<close>

theorem SomeFileOverlapsRange_search:
  assumes "level_sorted Bytewise_Compare files"
  shows "SomeFileOverlapsRange Bytewise_Compare True files b e = SomeFileOverlapsRange Bytewise_Compare False files b e"
  using ikey.SomeFileOverlapsRange_scan [of True files b e] ikey.SomeFileOverlapsRange_scan [of False files b e] assms by simp

definition demo_file :: "uint64 \<Rightarrow> bytes \<Rightarrow> bytes \<Rightarrow> FileMetaData" where
  "demo_file n a b = mk_FileMetaData n 100 (InternalKey a 5 kTypeValue) (InternalKey b 3 kTypeValue)"

theorem SomeFileOverlapsRange_search_witness:
  "level_sorted Bytewise_Compare [demo_file 1 [10] [20], demo_file 2 [30] [40]] \<and>
   SomeFileOverlapsRange Bytewise_Compare True [demo_file 1 [10] [20], demo_file 2 [30] [40]] (Some [35]) (Some [37]) =
   SomeFileOverlapsRange Bytewise_Compare False [demo_file 1 [10] [20], demo_file 2 [30] [40]] (Some [35]) (Some [37])"
proof -
  have "level_sorted Bytewise_Compare [demo_file 1 [10] [20], demo_file 2 [30] [40]]" by code_simp
  then show ?thesis using SomeFileOverlapsRange_search by blast
qed

text \<open>
  C22: Collecting the inputs of a compaction that overlap a range of keys ends, and what it returns for
  level 0 is the least set of files that holds every file meeting the range and, with a file, every file
  of the level that meets that file.
\<close>

theorem GetOverlappingInputs_level0:
  assumes "\<forall>f\<in>set (v_files v ! 0). Bytewise_Compare (ExtractUserKey (smallest f)) (ExtractUserKey (largest f)) \<le> 0"
  shows "\<exists>inputs. GetOverlappingInputs Bytewise_Compare v 0 b e = Some inputs \<and> set inputs \<subseteq> set (v_files v ! 0) \<and>
    ikey.closed_under (v_files v ! 0) (map_option ExtractUserKey b) (map_option ExtractUserKey e) (set inputs) \<and>
    (\<forall>S. ikey.closed_under (v_files v ! 0) (map_option ExtractUserKey b) (map_option ExtractUserKey e) S \<longrightarrow> set inputs \<subseteq> S)"
proof -
  let ?b = "map_option ExtractUserKey b" and ?e = "map_option ExtractUserKey e"
  obtain b' e' where "overlapping_loop Bytewise_Compare 0 (v_files v ! 0) 0 ?b ?e [] = Some (filter (ikey.overlaps b' e') (v_files v ! 0))"
    and "ikey.settled (v_files v ! 0) ?b ?e b' e'"
    using ikey.overlapping_level0 [of "v_files v ! 0" 0 "[]" ?b ?e] assms by (auto simp: ikey.ule_def)
  then show ?thesis using ikey.settled_closed ikey.settled_least by (fastforce simp: GetOverlappingInputs_def)
qed

definition demo_level0 :: Version where
  "demo_level0 = (mk_Version)\<lparr>v_files := (v_files mk_Version)[0 := [demo_file 1 [10] [20], demo_file 2 [15] [30], demo_file 3 [40] [50]]]\<rparr>"

theorem GetOverlappingInputs_level0_witness:
  "list_all (\<lambda>f. Bytewise_Compare (ExtractUserKey (smallest f)) (ExtractUserKey (largest f)) \<le> 0) (v_files demo_level0 ! 0) \<and>
   (\<exists>inputs. GetOverlappingInputs Bytewise_Compare demo_level0 0 (Some (InternalKey [25] 9 kTypeValue)) None = Some inputs \<and>
      set inputs \<subseteq> set (v_files demo_level0 ! 0))"
proof -
  have "list_all (\<lambda>f. Bytewise_Compare (ExtractUserKey (smallest f)) (ExtractUserKey (largest f)) \<le> 0) (v_files demo_level0 ! 0)"
    by code_simp
  then show ?thesis using GetOverlappingInputs_level0 [of demo_level0] unfolding list_all_iff by blast
qed

end
