(* ===== verification/Log.thy ===== *)
theory Log
  imports Env_File Crc32c Logging
begin

unbundle bit_operations_syntax

text \<open>
  The write-ahead log: \<^verbatim>\<open>App/integration/log_format.h\<close>, \<^verbatim>\<open>log_writer.cpp\<close> and \<^verbatim>\<open>log_reader.cpp\<close>.  The writer
  cuts records into fragments that do not cross the boundary of a 32 KiB block, with a checksum
  each; the reader puts them together again.  The writer is verified for every implementation of
  \<^verbatim>\<open>WritableFile\<close>.
\<close>

subsection \<open>Format\<close>

datatype RecordType = kZeroType | kFullType | kFirstType | kMiddleType | kLastType

primrec RecordType_code :: "RecordType \<Rightarrow> nat" where
  "RecordType_code kZeroType = 0"
| "RecordType_code kFullType = 1"
| "RecordType_code kFirstType = 2"
| "RecordType_code kMiddleType = 3"
| "RecordType_code kLastType = 4"

definition kMaxRecordType :: nat where
  "kMaxRecordType = RecordType_code kLastType"

definition kBlockSize :: nat where
  "kBlockSize = 32768"

definition kHeaderSize :: nat where
  "kHeaderSize = 4 + 2 + 1"

lemmas log_sizes = kBlockSize_def kHeaderSize_def

subsection \<open>Writer\<close>

record 'w Writer =
  log_dest :: 'w
  block_offset :: nat
  type_crc :: "uint32 list"

text \<open>The checksum does not depend on the address of the buffer, which is taken to be 0 here.\<close>

definition mk_Writer :: "'w \<Rightarrow> 'w Writer" where
  "mk_Writer dest =
     \<lparr>log_dest = dest, block_offset = 0,
      type_crc = map (\<lambda>i. Value 0 [of_nat i]) [0..<kMaxRecordType + 1]\<rparr>"

definition log_header :: "'w Writer \<Rightarrow> RecordType \<Rightarrow> bytes \<Rightarrow> bytes" where
  "log_header w t ptr =
     (let n = length ptr;
          crc = Extend 0 (type_crc w ! RecordType_code t) ptr;
          crc = Mask crc
      in EncodeFixed32 crc @ [of_nat (n mod 256), of_nat (n div 256), of_nat (RecordType_code t)])"

definition EmitPhysicalRecord ::
  "'w WritableFile \<Rightarrow> RecordType \<Rightarrow> bytes \<Rightarrow> 'w Writer \<Rightarrow> Status \<times> 'w Writer" where
  "EmitPhysicalRecord W t ptr w =
     (let n = length ptr;
          (s, d) = wf_Append W (log_header w t ptr) (log_dest w);
          (s, d) = (if Status_ok s
                    then (let (s, d) = wf_Append W ptr d
                          in if Status_ok s then wf_Flush W d else (s, d))
                    else (s, d))
      in (s, w\<lparr>log_dest := d, block_offset := block_offset w + kHeaderSize + n\<rparr>))"

text \<open>The switch to a new block at the top of the loop of \<^verbatim>\<open>AddRecord\<close>; the result of writing the trailer is ignored.\<close>

definition log_new_block :: "'w WritableFile \<Rightarrow> 'w Writer \<Rightarrow> 'w Writer" where
  "log_new_block W w =
     (let leftover = kBlockSize - block_offset w
      in if leftover < kHeaderSize
         then (let w = (if leftover > 0 then w\<lparr>log_dest := snd (wf_Append W (replicate leftover 0) (log_dest w))\<rparr> else w)
               in w\<lparr>block_offset := 0\<rparr>)
         else w)"

definition fragment_type :: "bool \<Rightarrow> bool \<Rightarrow> RecordType" where
  "fragment_type begin_rec end_rec =
     (if begin_rec \<and> end_rec then kFullType
      else if begin_rec then kFirstType
      else if end_rec then kLastType
      else kMiddleType)"

lemma fragment_type_nonzero [simp]: "fragment_type b e \<noteq> kZeroType"
  by (simp add: fragment_type_def)

lemma block_offset_Emit: "block_offset (snd (EmitPhysicalRecord W t p w)) = block_offset w + kHeaderSize + length p"
  by (auto simp: EmitPhysicalRecord_def Let_def split: prod.splits if_splits)

lemma block_offset_new_block:
  "block_offset (log_new_block W w) = (if kBlockSize - block_offset w < kHeaderSize then 0 else block_offset w)"
  by (simp add: log_new_block_def Let_def)

function AddRecord_loop :: "'w WritableFile \<Rightarrow> bool \<Rightarrow> bytes \<Rightarrow> 'w Writer \<Rightarrow> Status \<times> 'w Writer" where
  "AddRecord_loop W begin_rec ptr w =
     (let w = log_new_block W w;
          avail = kBlockSize - block_offset w - kHeaderSize;
          fragment_length = (if length ptr < avail then length ptr else avail);
          end_rec = (length ptr = fragment_length);
          (s, w) = EmitPhysicalRecord W (fragment_type begin_rec end_rec) (take fragment_length ptr) w
      in if Status_ok s \<and> length ptr - fragment_length > 0
         then AddRecord_loop W False (drop fragment_length ptr) w
         else (s, w))"
  by pat_completeness auto
termination
proof (relation "measure (\<lambda>(W, b, ptr, w). 2 * length ptr + (if block_offset w = kBlockSize - kHeaderSize then 1 else 0))",
    goal_cases)
  case (2 W b ptr w w1 avail frag e p s w2)
  have off: "block_offset w2 = block_offset w1 + kHeaderSize + length (take frag ptr)"
    using 2(5) 2(6) block_offset_Emit [of W "fragment_type b e" "take frag ptr" w1] by (metis snd_conv)
  have "block_offset w1 = (if kBlockSize - block_offset w < kHeaderSize then 0 else block_offset w)"
    unfolding 2(1) by (rule block_offset_new_block)
  then show ?case using off 2 by (auto simp: log_sizes split: if_splits)
qed simp

declare AddRecord_loop.simps [simp del]

definition AddRecord :: "'w WritableFile \<Rightarrow> bytes \<Rightarrow> 'w Writer \<Rightarrow> Status \<times> 'w Writer" where
  "AddRecord W data w = AddRecord_loop W True data w"

subsection \<open>Reader\<close>

text \<open>
  The reader with its file; the reporter is the list of the corruptions that were reported, or
  \<open>None\<close> when there is no reporter.
\<close>

record Reader =
  log_file :: PosixSequentialFile
  reporter :: "(nat \<times> Status) list option"
  checksum :: bool
  buffer :: bytes
  log_eof :: bool
  last_record_offset :: uint64
  end_of_buffer_offset :: uint64
  initial_offset :: uint64

definition mk_Reader :: "PosixSequentialFile \<Rightarrow> (nat \<times> Status) list option \<Rightarrow> bool \<Rightarrow> uint64 \<Rightarrow> Reader" where
  "mk_Reader file rep check start =
     \<lparr>log_file = file, reporter = rep, checksum = check, buffer = [], log_eof = False,
      last_record_offset = 0, end_of_buffer_offset = 0, initial_offset = start\<rparr>"

definition ReportDrop :: "uint64 \<Rightarrow> Status \<Rightarrow> Reader \<Rightarrow> Reader" where
  "ReportDrop n reason r =
     (case reporter r of
        None \<Rightarrow> r
      | Some log \<Rightarrow>
          if end_of_buffer_offset r - of_nat (length (buffer r)) - n \<ge> initial_offset r
          then r\<lparr>reporter := Some (log @ [(unat n, reason)])\<rparr> else r)"

definition ReportCorruption :: "uint64 \<Rightarrow> string \<Rightarrow> Reader \<Rightarrow> Reader" where
  "ReportCorruption n reason r = ReportDrop n (Corruption (str reason) []) r"

definition SkipToInitialBlock :: "Reader \<Rightarrow> bool \<times> Reader" where
  "SkipToInitialBlock r =
     (let offset_in_block = initial_offset r mod of_nat kBlockSize;
          block_start_location = initial_offset r - offset_in_block;
          block_start_location =
            (if offset_in_block > of_nat kBlockSize - 6 then block_start_location + of_nat kBlockSize
             else block_start_location);
          r = r\<lparr>end_of_buffer_offset := block_start_location\<rparr>
      in if block_start_location > 0
         then (let (skip_status, f) = SequentialFile_Skip (unat block_start_location) (log_file r);
                   r = r\<lparr>log_file := f\<rparr>
               in if \<not> Status_ok skip_status then (False, ReportDrop block_start_location skip_status r)
                  else (True, r))
         else (True, r))"

text \<open>
  \<^verbatim>\<open>ReadPhysicalRecord\<close> returns a record type as read from the file (the \<^verbatim>\<open>char\<close> is sign-extended) or
  one of two special values of the same type.
\<close>

definition kEof :: uint32 where
  "kEof = of_nat (kMaxRecordType + 1)"

definition kBadRecord :: uint32 where
  "kBadRecord = of_nat (kMaxRecordType + 2)"

text \<open>The body of the loop once the buffer holds a header.\<close>

definition ParsePhysical :: "Reader \<Rightarrow> (uint32 \<times> bytes) \<times> Reader" where
  "ParsePhysical r =
     (let header = buffer r;
          a = ucast (header ! 4) AND 0xff :: uint32;
          b = ucast (header ! 5) AND 0xff :: uint32;
          type = scast (header ! 6) :: uint32;
          len = a OR push_bit 8 b
      in if kHeaderSize + unat len > length (buffer r) then
           (let drop_size = length (buffer r); r = r\<lparr>buffer := []\<rparr>
            in if \<not> log_eof r then ((kBadRecord, []), ReportCorruption (of_nat drop_size) ''bad record length'' r)
               else ((kEof, []), r))
         else if type = of_nat (RecordType_code kZeroType) \<and> len = 0 then
           ((kBadRecord, []), r\<lparr>buffer := []\<rparr>)
         else if checksum r \<and>
             Value 0 (take (1 + unat len) (drop 6 header)) \<noteq> Unmask (the (DecodeFixed32 header)) then
           (let drop_size = length (buffer r); r = r\<lparr>buffer := []\<rparr>
            in ((kBadRecord, []), ReportCorruption (of_nat drop_size) ''checksum mismatch'' r))
         else
           (let r = r\<lparr>buffer := drop (kHeaderSize + unat len) (buffer r)\<rparr>
            in if end_of_buffer_offset r - of_nat (length (buffer r)) - of_nat kHeaderSize - ucast len
                    < initial_offset r
               then ((kBadRecord, []), r)
               else ((type, take (unat len) (drop kHeaderSize header)), r)))"

function ReadPhysicalRecord :: "Reader \<Rightarrow> (uint32 \<times> bytes) \<times> Reader" where
  "ReadPhysicalRecord r =
     (if length (buffer r) < kHeaderSize then
        (if \<not> log_eof r then
           (let (status, buf, f) = SequentialFile_Read kBlockSize (log_file r);
                r = r\<lparr>log_file := f, buffer := buf, end_of_buffer_offset := end_of_buffer_offset r + of_nat (length buf)\<rparr>
            in if \<not> Status_ok status
               then ((kEof, []), (ReportDrop (of_nat kBlockSize) status (r\<lparr>buffer := []\<rparr>))\<lparr>log_eof := True\<rparr>)
               else ReadPhysicalRecord (if length buf < kBlockSize then r\<lparr>log_eof := True\<rparr> else r))
         else ((kEof, []), r\<lparr>buffer := []\<rparr>))
      else ParsePhysical r)"
  by pat_completeness auto
termination
  by (relation "measure (\<lambda>r. length (f_rest (seq_file (log_file r))) + (if log_eof r then 0 else 1))")
    (auto dest!: SequentialFile_Read_length [OF sym] simp: kBlockSize_def)

declare ReadPhysicalRecord.simps [simp del]

text \<open>The bytes that are left to read.\<close>

definition reader_left :: "Reader \<Rightarrow> nat" where
  "reader_left r = length (buffer r) + length (f_rest (seq_file (log_file r)))"

lemma ReportDrop_fields [simp]:
  "buffer (ReportDrop n s r) = buffer r" "log_file (ReportDrop n s r) = log_file r"
  "log_eof (ReportDrop n s r) = log_eof r"
  by (simp_all add: ReportDrop_def split: option.split)

lemma ReportCorruption_fields [simp]:
  "buffer (ReportCorruption n s r) = buffer r" "log_file (ReportCorruption n s r) = log_file r"
  "log_eof (ReportCorruption n s r) = log_eof r"
  by (simp_all add: ReportCorruption_def)

lemma reader_left_Report [simp]: "reader_left (ReportCorruption n s r) = reader_left r"
  by (simp add: reader_left_def)

lemma ParsePhysical_left:
  assumes "kHeaderSize \<le> length (buffer r)" and "ParsePhysical r = (x, r')"
  shows "reader_left r' < reader_left r"
  using assms by (auto simp: ParsePhysical_def Let_def reader_left_def kHeaderSize_def split: if_splits)

lemma ReadPhysicalRecord_left:
  "ReadPhysicalRecord r = ((type, fragment), r') \<Longrightarrow> type \<noteq> kEof \<Longrightarrow> reader_left r' < reader_left r"
proof (induction r rule: ReadPhysicalRecord.induct)
  case (1 r)
  show ?case
  proof (cases "length (buffer r) < kHeaderSize")
    case True
    obtain status buf f where rd: "SequentialFile_Read kBlockSize (log_file r) = (status, buf, f)"
      by (cases "SequentialFile_Read kBlockSize (log_file r)") auto
    let ?r = "r\<lparr>log_file := f, buffer := buf, end_of_buffer_offset := end_of_buffer_offset r + of_nat (length buf)\<rparr>"
    let ?r' = "if length buf < kBlockSize then ?r\<lparr>log_eof := True\<rparr> else ?r"
    have "\<not> log_eof r" "Status_ok status" "ReadPhysicalRecord ?r' = ((type, fragment), r')"
      using "1.prems" True rd by (subst (asm) ReadPhysicalRecord.simps, simp add: Let_def split: if_splits)+
    moreover from this have "reader_left r' < reader_left ?r'"
      using "1.IH" [OF True _ rd [symmetric] refl refl] "1.prems"(2) by (simp add: Let_def)
    moreover have "reader_left ?r' \<le> reader_left r"
      using SequentialFile_Read_length [OF rd] by (simp add: reader_left_def)
    ultimately show ?thesis by simp
  next
    case False
    then have "ParsePhysical r = ((type, fragment), r')"
      using "1.prems"(1) by (subst (asm) ReadPhysicalRecord.simps) simp
    then show ?thesis using ParsePhysical_left False by simp
  qed
qed

function ReadRecord_loop :: "bool \<Rightarrow> bytes \<Rightarrow> uint64 \<Rightarrow> Reader \<Rightarrow> bytes option \<times> Reader" where
  "ReadRecord_loop in_fragmented_record scratch prospective_record_offset r =
     (let physical_record_offset = end_of_buffer_offset r - of_nat (length (buffer r));
          (res, r1) = ReadPhysicalRecord r;
          record_type = fst res; fragment = snd res
      in if record_type = of_nat (RecordType_code kFullType) then
           (let r1 = (if in_fragmented_record \<and> scratch \<noteq> []
                     then ReportCorruption (of_nat (length scratch)) ''partial record without end(1)'' r1 else r1)
            in (Some fragment, r1\<lparr>last_record_offset := physical_record_offset\<rparr>))
         else if record_type = of_nat (RecordType_code kFirstType) then
           ReadRecord_loop True fragment physical_record_offset
             (if in_fragmented_record \<and> scratch \<noteq> []
              then ReportCorruption (of_nat (length scratch)) ''partial record without end(2)'' r1 else r1)
         else if record_type = of_nat (RecordType_code kMiddleType) then
           (if \<not> in_fragmented_record
            then ReadRecord_loop in_fragmented_record scratch prospective_record_offset
              (ReportCorruption (of_nat (length fragment)) ''missing start of fragmented record(1)'' r1)
            else ReadRecord_loop in_fragmented_record (scratch @ fragment) prospective_record_offset r1)
         else if record_type = of_nat (RecordType_code kLastType) then
           (if \<not> in_fragmented_record
            then ReadRecord_loop in_fragmented_record scratch prospective_record_offset
              (ReportCorruption (of_nat (length fragment)) ''missing start of fragmented record(2)'' r1)
            else (Some (scratch @ fragment), r1\<lparr>last_record_offset := prospective_record_offset\<rparr>))
         else if record_type = kEof then (None, r1)
         else if record_type = kBadRecord then
           (if in_fragmented_record
            then ReadRecord_loop False [] prospective_record_offset
              (ReportCorruption (of_nat (length scratch)) ''error in middle of record'' r1)
            else ReadRecord_loop in_fragmented_record scratch prospective_record_offset r1)
         else ReadRecord_loop False [] prospective_record_offset
           (ReportCorruption (of_nat (length fragment + (if in_fragmented_record then length scratch else 0)))
             (''unknown record type '' @ decimal (unat record_type)) r1))"
  by pat_completeness auto
termination
  by (relation "measure (\<lambda>(i, s, p, r). reader_left r)")
    (simp, (force dest: ReadPhysicalRecord_left [OF sym] simp: kEof_def kMaxRecordType_def kBadRecord_def)+)

declare ReadRecord_loop.simps [simp del]

definition ReadRecord :: "Reader \<Rightarrow> bytes option \<times> Reader" where
  "ReadRecord r =
     (let (ok, r) = (if last_record_offset r < initial_offset r then SkipToInitialBlock r else (True, r))
      in if \<not> ok then (None, r) else ReadRecord_loop False [] 0 r)"

subsection \<open>Fragments on disk\<close>

definition phys_bytes :: "RecordType \<Rightarrow> bytes \<Rightarrow> bytes" where
  "phys_bytes t p = EncodeFixed32 (Mask (Value 0 (of_nat (RecordType_code t) # p))) @
     [of_nat (length p mod 256), of_nat (length p div 256), of_nat (RecordType_code t)] @ p"

text \<open>The padding at the end of a block and the offset of the next fragment.\<close>

definition log_pad :: "nat \<Rightarrow> bytes" where
  "log_pad off = (if kBlockSize - off < kHeaderSize then replicate (kBlockSize - off) 0 else [])"

definition log_off :: "nat \<Rightarrow> nat" where
  "log_off off = (if kBlockSize - off < kHeaderSize then 0 else off)"

text \<open>
  \<open>log_frags off b p bs off'\<close>: the bytes \<open>bs\<close> hold the payload \<open>p\<close> in fragments, from block offset \<open>off\<close> to
  \<open>off'\<close>; \<open>b\<close> says whether the first of them starts the record.
\<close>

inductive log_frags :: "nat \<Rightarrow> bool \<Rightarrow> bytes \<Rightarrow> bytes \<Rightarrow> nat \<Rightarrow> bool" where
  frag_last: "log_off off + kHeaderSize + length p \<le> kBlockSize \<Longrightarrow>
    log_frags off b p (log_pad off @ phys_bytes (fragment_type b True) p) (log_off off + kHeaderSize + length p)"
| frag_more: "log_off off + kHeaderSize + length p \<le> kBlockSize \<Longrightarrow>
    log_frags (log_off off + kHeaderSize + length p) False q bs off' \<Longrightarrow>
    log_frags off b (p @ q) (log_pad off @ phys_bytes (fragment_type b False) p @ bs) off'"

inductive log_records :: "nat \<Rightarrow> bytes list \<Rightarrow> bytes \<Rightarrow> nat \<Rightarrow> bool" where
  records_nil: "log_records off [] [] off"
| records_cons: "log_frags off True p bs off1 \<Longrightarrow> log_records off1 ps bs' off' \<Longrightarrow>
    log_records off (p # ps) (bs @ bs') off'"

inductive_cases log_records_nilE: "log_records off [] bs off'"

lemma log_off_bound: "log_off off \<le> kBlockSize - kHeaderSize"
  by (auto simp: log_off_def log_sizes)

lemma length_phys_bytes [simp]: "length (phys_bytes t p) = kHeaderSize + length p"
  by (simp add: phys_bytes_def kHeaderSize_def)

subsection \<open>The writer\<close>

definition writer_ok :: "'w Writer \<Rightarrow> bool" where
  "writer_ok w \<longleftrightarrow> block_offset w \<le> kBlockSize \<and> type_crc w = map (\<lambda>i. Value 0 [of_nat i]) [0..<kMaxRecordType + 1]"

lemma log_header_phys: "writer_ok w \<Longrightarrow> log_header w t p @ p = phys_bytes t p"
proof -
  assume "writer_ok w"
  moreover have "RecordType_code t < kMaxRecordType + 1" by (cases t) (simp_all add: kMaxRecordType_def)
  ultimately have "type_crc w ! RecordType_code t = Value 0 [of_nat (RecordType_code t)]"
    by (simp add: writer_ok_def del: upt_Suc)
  moreover have "Extend 0 (Value 0 [x]) p = Value 0 (x # p)" for x
    using Extend_append [of 0 0 0 "[x]" p 0] by (simp add: Value_def)
  ultimately show ?thesis by (simp add: log_header_def phys_bytes_def Let_def)
qed

context reliable_file
begin

lemma Emit_reliable:
  assumes "good (log_dest w)" and "writer_ok w" and "EmitPhysicalRecord W t p w = (s, w')"
    and "block_offset w + kHeaderSize + length p \<le> kBlockSize"
  shows "Status_ok s \<and> good (log_dest w') \<and> writer_ok w' \<and>
    contents (log_dest w') = contents (log_dest w) @ phys_bytes t p \<and>
    block_offset w' = block_offset w + kHeaderSize + length p"
proof -
  define d1 where "d1 = snd (wf_Append W (log_header w t p) (log_dest w))"
  define d2 where "d2 = snd (wf_Append W p d1)"
  define d3 where "d3 = snd (wf_Flush W d2)"
  have 1: "wf_Append W (log_header w t p) (log_dest w) = (fst (wf_Append W (log_header w t p) (log_dest w)), d1)"
    "Status_ok (fst (wf_Append W (log_header w t p) (log_dest w)))" "good d1"
    "contents d1 = contents (log_dest w) @ log_header w t p"
    using Append_good [OF assms(1)] Append_reliable [OF assms(1)] by (simp_all add: d1_def)
  have 2: "wf_Append W p d1 = (fst (wf_Append W p d1), d2)" "Status_ok (fst (wf_Append W p d1))" "good d2"
    "contents d2 = contents d1 @ p"
    using Append_good [OF 1(3)] Append_reliable [OF 1(3)] by (simp_all add: d2_def)
  have 3: "wf_Flush W d2 = (fst (wf_Flush W d2), d3)" "Status_ok (fst (wf_Flush W d2))" "good d3"
    "contents d3 = contents d2"
    using Flush_good [OF 2(3)] Flush_reliable [of d2] by (simp_all add: d3_def)
  have "s = fst (wf_Flush W d2) \<and> w' = w\<lparr>log_dest := d3, block_offset := block_offset w + kHeaderSize + length p\<rparr>"
    using assms(3) unfolding EmitPhysicalRecord_def Let_def
    by (subst (asm) 1(1), subst (asm) case_prod_conv, subst (asm) 2(1)) (use 1 2 3 in \<open>auto split: prod.splits\<close>)
  then show ?thesis
    using 1 2 3 assms(2,4) log_header_phys [OF assms(2), of t p] by (simp add: writer_ok_def)
qed

lemma new_block_reliable:
  assumes "good (log_dest w)" and "writer_ok w"
  shows "good (log_dest (log_new_block W w))" "writer_ok (log_new_block W w)"
    "contents (log_dest (log_new_block W w)) = contents (log_dest w) @ log_pad (block_offset w)"
    "block_offset (log_new_block W w) = log_off (block_offset w)"
  using Append_good [OF assms(1)] Append_reliable [OF assms(1)] assms
  by (auto simp: log_new_block_def log_pad_def log_off_def writer_ok_def Let_def)

lemma AddRecord_loop_reliable:
  assumes "good (log_dest w)" and "writer_ok w" and "AddRecord_loop W b p w = (s, w')"
  shows "Status_ok s \<and> good (log_dest w') \<and> writer_ok w' \<and>
    (\<exists>bs. contents (log_dest w') = contents (log_dest w) @ bs \<and>
       log_frags (block_offset w) b p bs (block_offset w'))"
  using assms
proof (induction W0\<equiv>W b p w rule: AddRecord_loop.induct)
  case (1 b p w)
  define w1 where "w1 = log_new_block W w"
  define n where "n = (if length p < kBlockSize - block_offset w1 - kHeaderSize then length p
    else kBlockSize - block_offset w1 - kHeaderSize)"
  note w1 = new_block_reliable [OF "1.prems"(1,2), folded w1_def]
  have n: "n \<le> length p" "block_offset w1 + kHeaderSize + n \<le> kBlockSize"
    using log_off_bound [of "block_offset w"] unfolding w1(4) n_def by (auto simp: log_sizes)
  obtain s2 w2 where emit: "EmitPhysicalRecord W (fragment_type b (length p = n)) (take n p) w1 = (s2, w2)"
    by (cases "EmitPhysicalRecord W (fragment_type b (length p = n)) (take n p) w1")
  note e = Emit_reliable [OF w1(1,2) emit]
  have lt: "length (take n p) = n" using n(1) by simp
  note e = e [unfolded lt, OF n(2)]
  have loop: "(if length p - n > 0 then AddRecord_loop W False (drop n p) w2 else (s2, w2)) = (s, w')"
    using "1.prems"(3) emit e by (subst (asm) AddRecord_loop.simps) (simp add: Let_def w1_def n_def split: if_splits)
  show ?case
  proof (cases "length p - n > 0")
    case False
    then have eq: "length p = n" "take n p = p" "s2 = s" "w2 = w'" using n(1) loop by auto
    have "log_frags (block_offset w) b p (log_pad (block_offset w) @ phys_bytes (fragment_type b True) p)
        (block_offset w')"
      using frag_last [of "block_offset w" p b] n(2) e by (simp add: w1(4) eq)
    then show ?thesis using e w1(3) by (auto simp: eq)
  next
    case True
    then have "AddRecord_loop W False (drop n p) w2 = (s, w')" using loop by simp
    from "1.hyps" [OF w1_def refl n_def refl refl emit [symmetric] _ _ _ this] e True obtain bs where
      bs: "Status_ok s" "good (log_dest w')" "writer_ok w'" "contents (log_dest w') = contents (log_dest w2) @ bs"
      "log_frags (block_offset w2) False (drop n p) bs (block_offset w')" by auto
    have "log_frags (block_offset w) b (take n p @ drop n p)
        (log_pad (block_offset w) @ phys_bytes (fragment_type b False) (take n p) @ bs) (block_offset w')"
      by (rule frag_more) (use n bs(5) e lt in \<open>simp_all add: w1(4)\<close>)
    then show ?thesis using bs(1-4) e w1(3) True by auto
  qed
qed

end

text \<open>Several records one after the other, as far as they succeed.\<close>

primrec AddRecords :: "'w WritableFile \<Rightarrow> bytes list \<Rightarrow> 'w Writer \<Rightarrow> Status \<times> 'w Writer" where
  "AddRecords W [] w = (Status_OK, w)"
| "AddRecords W (p # ps) w =
     (let (s, w) = AddRecord W p w in if Status_ok s then AddRecords W ps w else (s, w))"

context reliable_file
begin

lemma AddRecords_reliable:
  assumes "good (log_dest w)" and "writer_ok w"
  shows "\<exists>s w' bs. AddRecords W ps w = (s, w') \<and> Status_ok s \<and> good (log_dest w') \<and> writer_ok w' \<and>
    contents (log_dest w') = contents (log_dest w) @ bs \<and> log_records (block_offset w) ps bs (block_offset w')"
  using assms
proof (induction ps arbitrary: w)
  case Nil
  then show ?case by (auto intro: records_nil)
next
  case (Cons p ps)
  obtain s1 w1 where one: "AddRecord_loop W True p w = (s1, w1)" by (cases "AddRecord_loop W True p w")
  from AddRecord_loop_reliable [OF Cons.prems one] obtain bs where
    1: "Status_ok s1" "good (log_dest w1)" "writer_ok w1" "contents (log_dest w1) = contents (log_dest w) @ bs"
    "log_frags (block_offset w) True p bs (block_offset w1)" by blast
  from Cons.IH [OF 1(2,3)] obtain s w' bs' where
    2: "AddRecords W ps w1 = (s, w')" "Status_ok s" "good (log_dest w')" "writer_ok w'"
    "contents (log_dest w') = contents (log_dest w1) @ bs'" "log_records (block_offset w1) ps bs' (block_offset w')"
    by blast
  have "AddRecords W (p # ps) w = (s, w')" using one 1(1) 2(1) by (simp add: AddRecord_def)
  moreover have "log_records (block_offset w) (p # ps) (bs @ bs') (block_offset w')"
    using records_cons [OF 1(5) 2(6)] .
  ultimately show ?case using 1(4) 2 by auto
qed

end

subsection \<open>The reader\<close>

text \<open>
  \<open>reader_at r rem off\<close>: the reader has the bytes \<open>rem\<close> still to read, those of the current block in its
  buffer, and it stands at offset \<open>off\<close> of the block.
\<close>

definition reader_at :: "Reader \<Rightarrow> bytes \<Rightarrow> nat \<Rightarrow> bool" where
  "reader_at r rem off \<longleftrightarrow>
     off \<le> kBlockSize \<and> buffer r = take (kBlockSize - off) rem \<and>
     f_rest (seq_file (log_file r)) = drop (kBlockSize - off) rem \<and> f_bad (seq_file (log_file r)) = None \<and>
     initial_offset r = 0 \<and> (if log_eof r then length rem \<le> kBlockSize - off else kBlockSize - off \<le> length rem)"

lemma log_length_bytes:
  assumes "n < 65536"
  shows "unat ((ucast (of_nat (n mod 256) :: byte) AND 0xff :: uint32) OR
    push_bit 8 (ucast (of_nat (n div 256) :: byte) AND 0xff)) = n"
proof -
  have d: "n mod 256 = take_bit 8 n" "n div 256 = drop_bit 8 n" by (simp_all add: take_bit_eq_mod drop_bit_eq_div)
  have "(ucast (of_nat (n mod 256) :: byte) AND 0xff :: uint32) OR
    push_bit 8 (ucast (of_nat (n div 256) :: byte) AND 0xff) = of_nat (take_bit 16 n)"
    unfolding d and_255_eq
    by (rule bit_word_eqI) (auto simp: bit_simps)
  moreover have "take_bit 16 n = n" using assms by (simp add: take_bit_nat_eq_self)
  ultimately show ?thesis using assms by (simp add: unat_of_nat_small)
qed

lemma ParsePhysical_phys:
  assumes "buffer r = phys_bytes t p @ rest" and "length p < 65536" and "t \<noteq> kZeroType" and "initial_offset r = 0"
  shows "ParsePhysical r = ((of_nat (RecordType_code t), p), r\<lparr>buffer := rest\<rparr>)"
proof -
  let ?len = "(ucast (of_nat (length p mod 256) :: byte) AND 0xff :: uint32) OR
    push_bit 8 (ucast (of_nat (length p div 256) :: byte) AND 0xff)"
  note len = log_length_bytes [OF assms(2)]
  have nth: "(EncodeFixed32 c @ a # b # d # q) ! 4 = a" "(EncodeFixed32 c @ a # b # d # q) ! 5 = b"
    "(EncodeFixed32 c @ a # b # d # q) ! 6 = d" "drop 6 (EncodeFixed32 c @ a # b # d # q) = d # q" 
    for c a b d and q :: bytes
    by (simp_all add: EncodeFixed32_def)
  have type: "scast (of_nat (RecordType_code t) :: byte) = (of_nat (RecordType_code t) :: uint32)"
    by (cases t) simp_all
  have nz: "(of_nat (RecordType_code t) :: uint32) \<noteq> 0" using assms(3) by (cases t) simp_all
  have dr: "drop (3 + length p) (a # b # d # p @ rest) = rest" for a b d by (simp add: numeral_3_eq_3)
  have "buffer r = EncodeFixed32 (Mask (Value 0 (of_nat (RecordType_code t) # p))) @ of_nat (length p mod 256) #
      of_nat (length p div 256) # of_nat (RecordType_code t) # p @ rest"
    by (simp add: assms(1) phys_bytes_def)
  then show ?thesis
    using assms(3,4) len
    by (simp add: ParsePhysical_def Let_def nth type nz dr DecodeFixed32_Encode Unmask_Mask kHeaderSize_def)
qed

lemma ReadPhysical_here:
  assumes at: "reader_at r (phys_bytes t p @ rem) off" and fits: "off + kHeaderSize + length p \<le> kBlockSize"
    and t: "t \<noteq> kZeroType"
  shows "\<exists>r'. ReadPhysicalRecord r = ((of_nat (RecordType_code t), p), r') \<and>
    reader_at r' rem (off + kHeaderSize + length p) \<and> reporter r' = reporter r"
proof -
  let ?rest = "take (kBlockSize - (off + kHeaderSize + length p)) rem"
  have buf: "buffer r = phys_bytes t p @ ?rest"
    using at fits by (simp add: reader_at_def add.assoc)
  have "length p < 65536" using fits by (simp add: log_sizes)
  with buf t at have "ParsePhysical r = ((of_nat (RecordType_code t), p), r\<lparr>buffer := ?rest\<rparr>)"
    by (intro ParsePhysical_phys) (simp_all add: reader_at_def)
  moreover have "\<not> length (buffer r) < kHeaderSize" by (simp add: buf)
  ultimately have "ReadPhysicalRecord r = ((of_nat (RecordType_code t), p), r\<lparr>buffer := ?rest\<rparr>)"
    by (subst ReadPhysicalRecord.simps) simp
  moreover have "reader_at (r\<lparr>buffer := ?rest\<rparr>) rem (off + kHeaderSize + length p)"
    using at fits by (auto simp: reader_at_def add.assoc)
  ultimately show ?thesis by auto
qed

text \<open>With less than a header left in its buffer the reader reads the next block.\<close>

lemma ReadPhysical_refill:
  assumes at: "reader_at r rem off" and small: "kBlockSize - off < kHeaderSize" and noeof: "\<not> log_eof r"
  shows "\<exists>r'. ReadPhysicalRecord r = ReadPhysicalRecord r' \<and> reader_at r' (drop (kBlockSize - off) rem) 0 \<and>
    reporter r' = reporter r"
proof -
  let ?rem = "drop (kBlockSize - off) rem"
  have rd: "SequentialFile_Read kBlockSize (log_file r) = (Status_OK, take kBlockSize ?rem,
      (log_file r)\<lparr>seq_file := (seq_file (log_file r))\<lparr>f_rest := drop kBlockSize ?rem, f_bad := None\<rparr>\<rparr>)"
    using at SequentialFile_Read_good [of "log_file r" kBlockSize] by (simp only: reader_at_def)
  define r1 where "r1 = r\<lparr>log_file := (log_file r)\<lparr>seq_file := (seq_file (log_file r))\<lparr>f_rest := drop kBlockSize ?rem, f_bad := None\<rparr>\<rparr>,
    buffer := take kBlockSize ?rem,
    end_of_buffer_offset := end_of_buffer_offset r + of_nat (length (take kBlockSize ?rem))\<rparr>"
  let ?r2 = "if length (take kBlockSize ?rem) < kBlockSize then r1\<lparr>log_eof := True\<rparr> else r1"
  have "length (buffer r) < kHeaderSize" using at small by (simp add: reader_at_def)
  then have "ReadPhysicalRecord r = ReadPhysicalRecord ?r2"
    using noeof by (subst ReadPhysicalRecord.simps) (simp add: rd Let_def r1_def)
  moreover have "reader_at ?r2 ?rem 0"
    using at noeof by (auto simp: reader_at_def r1_def)
  moreover have "reporter ?r2 = reporter r" by (simp add: r1_def)
  ultimately show ?thesis by blast
qed

lemma ReadPhysical_at:
  assumes at: "reader_at r (log_pad off @ phys_bytes t p @ rem) off"
    and fits: "log_off off + kHeaderSize + length p \<le> kBlockSize" and t: "t \<noteq> kZeroType"
  shows "\<exists>r'. ReadPhysicalRecord r = ((of_nat (RecordType_code t), p), r') \<and>
    reader_at r' rem (log_off off + kHeaderSize + length p) \<and> reporter r' = reporter r"
proof (cases "kBlockSize - off < kHeaderSize")
  case True
  have "0 < kHeaderSize" by (simp add: kHeaderSize_def)
  then have "\<not> log_eof r" using at True by (auto simp: reader_at_def log_pad_def)
  with ReadPhysical_refill [OF at True] obtain r' where
    r': "ReadPhysicalRecord r = ReadPhysicalRecord r'" "reader_at r' (phys_bytes t p @ rem) 0" "reporter r' = reporter r"
    using True by (auto simp: log_pad_def)
  then show ?thesis using ReadPhysical_here [OF r'(2) _ t] fits True by (simp add: log_off_def)
next
  case False
  then show ?thesis using ReadPhysical_here [of r t p rem off] at fits t by (simp add: log_off_def log_pad_def)
qed

lemma ReadPhysical_end:
  assumes at: "reader_at r [] off"
  shows "\<exists>r'. ReadPhysicalRecord r = ((kEof, []), r') \<and> reporter r' = reporter r \<and> reader_at r' [] off"
proof -
  have eof: "\<exists>r'. ReadPhysicalRecord r = ((kEof, []), r') \<and> reporter r' = reporter r \<and> reader_at r' [] off"
    if "log_eof r" "reader_at r [] off" for r off
    using that by (subst ReadPhysicalRecord.simps) (auto simp: reader_at_def kHeaderSize_def)
  show ?thesis
  proof (cases "log_eof r")
    case False
    then have off: "off = kBlockSize" using at by (simp add: reader_at_def)
    obtain r' where r': "ReadPhysicalRecord r = ReadPhysicalRecord r'" "reader_at r' [] 0" "reporter r' = reporter r"
      using ReadPhysical_refill [OF at _ False] off by (auto simp: kHeaderSize_def)
    then have "log_eof r'" by (auto simp: reader_at_def kBlockSize_def split: if_splits)
    moreover have "reader_at r' [] kBlockSize" using r'(2) \<open>log_eof r'\<close> by (simp add: reader_at_def)
    ultimately show ?thesis using eof [of r' kBlockSize] r' off by simp
  qed (use eof at in blast)
qed

lemma ReadRecord_loop_frags:
  assumes "log_frags off b p bs off'" and "reader_at r (bs @ rem) off" and "b \<longrightarrow> acc = []"
  shows "\<exists>r'. ReadRecord_loop (\<not> b) acc pr r = (Some (acc @ p), r') \<and> reader_at r' rem off' \<and> reporter r' = reporter r"
  using assms
proof (induction arbitrary: r acc pr rule: log_frags.induct)
  case (frag_last off p b)
  have "reader_at r (log_pad off @ phys_bytes (fragment_type b True) p @ rem) off" using frag_last.prems by simp
  from ReadPhysical_at [OF this frag_last.hyps fragment_type_nonzero] obtain r1 where
    r1: "ReadPhysicalRecord r = ((of_nat (RecordType_code (fragment_type b True)), p), r1)"
    "reader_at r1 rem (log_off off + kHeaderSize + length p)" "reporter r1 = reporter r"
    by blast
  have upd: "reader_at (r1\<lparr>last_record_offset := x\<rparr>) rem (log_off off + kHeaderSize + length p)" for x
    using r1(2) by (simp add: reader_at_def)
  show ?case
    by (subst ReadRecord_loop.simps) (use r1 upd frag_last.prems in \<open>auto simp: fragment_type_def Let_def\<close>)
next
  case (frag_more off p q bs off' b)
  have "reader_at r (log_pad off @ phys_bytes (fragment_type b False) p @ bs @ rem) off"
    using frag_more.prems by simp
  from ReadPhysical_at [OF this frag_more.hyps(1) fragment_type_nonzero] obtain r1 where
    r1: "ReadPhysicalRecord r = ((of_nat (RecordType_code (fragment_type b False)), p), r1)"
    "reader_at r1 (bs @ rem) (log_off off + kHeaderSize + length p)" "reporter r1 = reporter r"
    by blast
  have "ReadRecord_loop (\<not> b) acc pr r =
      ReadRecord_loop True (acc @ p) (if b then end_of_buffer_offset r - of_nat (length (buffer r)) else pr) r1"
    by (subst ReadRecord_loop.simps) (use r1 frag_more.prems in \<open>auto simp: fragment_type_def Let_def\<close>)
  then show ?case using frag_more.IH [OF r1(2), of "acc @ p"] r1(3) by simp
qed

text \<open>Reading \<open>n\<close> times.\<close>

primrec ReadRecords :: "nat \<Rightarrow> Reader \<Rightarrow> bytes option list \<times> Reader" where
  "ReadRecords 0 r = ([], r)"
| "ReadRecords (Suc n) r =
     (let (x, r) = ReadRecord r; (xs, r) = ReadRecords n r in (x # xs, r))"

lemma ReadRecord_at: "reader_at r rem off \<Longrightarrow> ReadRecord r = ReadRecord_loop False [] 0 r"
  by (simp add: ReadRecord_def reader_at_def)

lemma ReadRecords_log:
  assumes "log_records off ps bs off'" and "reader_at r (bs @ rem) off"
  shows "\<exists>r'. reader_at r' rem off' \<and> reporter r' = reporter r \<and>
    (\<forall>n. ReadRecords (length ps + n) r = (map Some ps @ fst (ReadRecords n r'), snd (ReadRecords n r')))"
  using assms
proof (induction arbitrary: r rule: log_records.induct)
  case (records_nil off)
  then show ?case by (intro exI [of _ r]) simp
next
  case (records_cons off p bs off1 ps bs' off')
  from ReadRecord_loop_frags [OF records_cons.hyps(1), of r "bs' @ rem" "[]" 0] obtain r1 where
    r1: "ReadRecord r = (Some p, r1)" "reader_at r1 (bs' @ rem) off1" "reporter r1 = reporter r"
    using ReadRecord_at [OF records_cons.prems] records_cons.prems by auto
  from records_cons.IH [OF r1(2)] show ?case using r1 by (auto split: prod.splits)
qed

text \<open>Once the remaining bytes hold no complete fragment the reader stops without a report.\<close>

lemma ReadPhysical_torn_here:
  assumes at: "reader_at r (take k (phys_bytes t p)) off" and fits: "off + kHeaderSize + length p \<le> kBlockSize"
    and k: "k < kHeaderSize + length p"
  shows "\<exists>r'. ReadPhysicalRecord r = ((kEof, []), r') \<and> reporter r' = reporter r"
proof -
  have buf: "buffer r = take k (phys_bytes t p)" "log_eof r"
    using at fits k by (auto simp: reader_at_def split: if_splits)
  show ?thesis
  proof (cases "k < kHeaderSize")
    case True
    then show ?thesis using buf by (subst ReadPhysicalRecord.simps) auto
  next
    case False
    have "(EncodeFixed32 c @ a # b # q) ! 4 = a" "(EncodeFixed32 c @ a # b # q) ! 5 = b" for c a b and q :: bytes
      by (simp_all add: EncodeFixed32_def)
    then have nth: "buffer r ! 4 = of_nat (length p mod 256)" "buffer r ! 5 = of_nat (length p div 256)"
      using False by (simp_all add: buf(1) nth_take kHeaderSize_def del: take_append) (simp_all add: phys_bytes_def)
    have "length p < 65536" using fits by (simp add: log_sizes)
    note len = log_length_bytes [OF this]
    have "ParsePhysical r = ((kEof, []), r\<lparr>buffer := []\<rparr>)"
      unfolding ParsePhysical_def nth Let_def len using buf k by simp
    then show ?thesis using buf(1) False k by (subst ReadPhysicalRecord.simps) simp
  qed
qed

lemma ReadPhysical_torn:
  assumes at: "reader_at r (take k (log_pad off @ phys_bytes t p)) off"
    and fits: "log_off off + kHeaderSize + length p \<le> kBlockSize"
    and k: "k < length (log_pad off) + kHeaderSize + length p"
  shows "\<exists>r'. ReadPhysicalRecord r = ((kEof, []), r') \<and> reporter r' = reporter r"
proof (cases "kBlockSize - off < kHeaderSize")
  case False
  then show ?thesis using ReadPhysical_torn_here [of r k t p off] at fits k by (simp add: log_off_def log_pad_def)
next
  case True
  show ?thesis
  proof (cases "log_eof r")
    case eof: True
    have "length (buffer r) \<le> kBlockSize - off" using at by (simp add: reader_at_def del: take_append)
    then show ?thesis using eof True by (subst ReadPhysicalRecord.simps) simp
  next
    case False
    have "drop (kBlockSize - off) (take k (log_pad off @ phys_bytes t p)) = take (k - (kBlockSize - off)) (phys_bytes t p)"
      unfolding drop_take using True by (simp add: log_pad_def)
    then obtain r' where r': "ReadPhysicalRecord r = ReadPhysicalRecord r'"
      "reader_at r' (take (k - (kBlockSize - off)) (phys_bytes t p)) 0" "reporter r' = reporter r"
      using ReadPhysical_refill [OF at True False] by auto
    then show ?thesis
      using ReadPhysical_torn_here [OF r'(2)] fits k True by (simp add: log_off_def log_pad_def)
  qed
qed

lemma ReadRecord_loop_eof:
  "ReadPhysicalRecord r = ((kEof, []), r') \<Longrightarrow> ReadRecord_loop i acc pr r = (None, r')"
  by (subst ReadRecord_loop.simps) (simp add: kEof_def kMaxRecordType_def Let_def)

lemma ReadRecord_loop_torn:
  assumes "log_frags off b p bs off'" and "reader_at r (take k bs) off" and "k < length bs" and "b \<longrightarrow> acc = []"
  shows "\<exists>r'. ReadRecord_loop (\<not> b) acc pr r = (None, r') \<and> reporter r' = reporter r"
  using assms
proof (induction arbitrary: r acc pr k rule: log_frags.induct)
  case (frag_last off p b)
  then have "k < length (log_pad off) + kHeaderSize + length p" by simp
  from ReadPhysical_torn [OF frag_last.prems(1) frag_last.hyps this] show ?case using ReadRecord_loop_eof by blast
next
  case (frag_more off p q bs off' b)
  let ?n = "length (log_pad off) + kHeaderSize + length p"
  show ?case
  proof (cases "k < ?n")
    case True
    then have "take k (log_pad off @ phys_bytes (fragment_type b False) p @ bs) =
        take k (log_pad off @ phys_bytes (fragment_type b False) p)" by simp
    then show ?thesis
      using ReadPhysical_torn [OF _ frag_more.hyps(1) True] frag_more.prems(1) ReadRecord_loop_eof by metis
  next
    case False
    then have "reader_at r (log_pad off @ phys_bytes (fragment_type b False) p @ take (k - ?n) bs) off"
      using frag_more.prems(1) by (simp add: add.assoc)
    from ReadPhysical_at [OF this frag_more.hyps(1) fragment_type_nonzero] obtain r1 where
      r1: "ReadPhysicalRecord r = ((of_nat (RecordType_code (fragment_type b False)), p), r1)"
      "reader_at r1 (take (k - ?n) bs) (log_off off + kHeaderSize + length p)" "reporter r1 = reporter r"
      by blast
    have "ReadRecord_loop (\<not> b) acc pr r =
        ReadRecord_loop True (acc @ p) (if b then end_of_buffer_offset r - of_nat (length (buffer r)) else pr) r1"
      by (subst ReadRecord_loop.simps) (use r1 frag_more.prems in \<open>auto simp: fragment_type_def Let_def\<close>)
    moreover have "k - ?n < length bs" using frag_more.prems(2) False by simp
    ultimately show ?thesis using frag_more.IH [OF r1(2), of "acc @ p"] r1(3) by simp
  qed
qed

subsection \<open>Properties\<close>

lemma posix_AddRecords:
  "\<exists>s w bs. AddRecords posix_file ps (mk_Writer (new_file name)) = (s, w) \<and> Status_ok s \<and>
     wr_space (log_dest w) = None \<and> \<not> wr_failed (log_dest w) \<and> writer_ok w \<and>
     wr_data (log_dest w) = bs \<and> log_records 0 ps bs (block_offset w)"
  using posix_reliable.AddRecords_reliable [of "mk_Writer (new_file name)" ps]
  by (auto simp: mk_Writer_def new_file_def writer_ok_def)

lemma reader_at_start: "reader_at (mk_Reader (open_file name d) rep check 0) d kBlockSize"
  by (simp add: reader_at_def mk_Reader_def open_file_def)

lemma log_frags_start: "log_frags 0 b p bs off \<longleftrightarrow> log_frags kBlockSize b p bs off"
proof -
  have "log_off kBlockSize = log_off 0" "log_pad kBlockSize = log_pad 0"
    by (simp_all add: log_off_def log_pad_def log_sizes)
  then show ?thesis by (subst (1 2) log_frags.simps) simp
qed

lemma log_records_start: "log_records 0 ps bs off \<Longrightarrow> \<exists>off'. log_records kBlockSize ps bs off' \<and> (off' = off \<or> ps = [])"
  by (erule log_records.cases) (auto simp: log_frags_start intro: log_records.intros)

text \<open>
  C10: the log gives back what was put into it: on a file that does not run out of space every
  \<^verbatim>\<open>AddRecord\<close> succeeds, and reading the file returns the same records in the same order, then the end of
  the file, with no corruption reported; for records of any length, whether checksums are verified or not.
\<close>

theorem log_roundtrip:
  "\<exists>s w r. AddRecords posix_file ps (mk_Writer (new_file name)) = (s, w) \<and> Status_ok s \<and>
     ReadRecords (length ps + 1) (mk_Reader (open_file name (wr_data (log_dest w))) (Some []) check 0) =
       (map Some ps @ [None], r) \<and> reporter r = Some []"
proof -
  let ?r = "\<lambda>d. mk_Reader (open_file name d) (Some []) check 0"
  from posix_AddRecords [of ps name] obtain s w bs where
    w: "AddRecords posix_file ps (mk_Writer (new_file name)) = (s, w)" "Status_ok s"
    "wr_data (log_dest w) = bs" "log_records 0 ps bs (block_offset w)" by blast
  from log_records_start [OF w(4)] obtain off where off: "log_records kBlockSize ps bs off" by blast
  obtain r where r: "reader_at r [] off" "reporter r = Some []"
    "\<forall>n. ReadRecords (length ps + n) (?r bs) = (map Some ps @ fst (ReadRecords n r), snd (ReadRecords n r))"
    using ReadRecords_log [OF off, of "?r bs" "[]"] reader_at_start [of name bs] by (auto simp: mk_Reader_def)
  from ReadPhysical_end [OF r(1)] obtain r' where "ReadRecord r = (None, r')" "reporter r' = Some []"
    using ReadRecord_at [OF r(1)] ReadRecord_loop_eof r(2) by metis
  then show ?thesis using w r(3) [rule_format, of 1] by (intro exI [of _ s] exI [of _ w] exI [of _ r']) simp
qed

text \<open>
  C11: a crash while a record is being written loses only that record: when the file is cut anywhere
  inside its bytes, the reader returns all records before it and then the end of the file, and reports
  no corruption.
\<close>

theorem log_torn_tail:
  assumes "AddRecords posix_file ps (mk_Writer (new_file name)) = (s1, w1)"
    and "AddRecord posix_file p w1 = (s2, w2)"
    and "length (wr_data (log_dest w1)) \<le> k" and "k < length (wr_data (log_dest w2))"
  shows "\<exists>r. ReadRecords (length ps + 1)
      (mk_Reader (open_file name (take k (wr_data (log_dest w2)))) (Some []) check 0) =
        (map Some ps @ [None], r) \<and> reporter r = Some []"
proof -
  let ?r = "\<lambda>d. mk_Reader (open_file name d) (Some []) check 0"
  from posix_AddRecords [of ps name] assms(1) obtain bs where
    w1: "wr_space (log_dest w1) = None \<and> \<not> wr_failed (log_dest w1)" "writer_ok w1"
    "wr_data (log_dest w1) = bs" "log_records 0 ps bs (block_offset w1)" by auto
  from posix_reliable.AddRecord_loop_reliable [OF w1(1,2) assms(2) [unfolded AddRecord_def]] obtain bs' where
    bs': "wr_data (log_dest w2) = bs @ bs'" "log_frags (block_offset w1) True p bs' (block_offset w2)"
    using w1(3) by auto
  from log_records_start [OF w1(4)] obtain off where
    off: "log_records kBlockSize ps bs off" "off = block_offset w1 \<or> ps = []" by blast
  define j where "j = k - length bs"
  have j: "take k (wr_data (log_dest w2)) = bs @ take j bs'" "j < length bs'"
    using assms(3,4) by (simp_all add: bs'(1) w1(3) j_def)
  obtain r where r: "reader_at r (take j bs') off" "reporter r = Some []"
    "\<forall>n. ReadRecords (length ps + n) (?r (bs @ take j bs')) = (map Some ps @ fst (ReadRecords n r), snd (ReadRecords n r))"
    using ReadRecords_log [OF off(1), of "?r (bs @ take j bs')" "take j bs'"] reader_at_start
    by (auto simp: mk_Reader_def)
  have "log_frags off True p bs' (block_offset w2)"
    using off bs'(2) w1(4) log_frags_start by (auto elim!: log_records_nilE)
  from ReadRecord_loop_torn [OF this r(1) j(2), of "[]" 0] obtain r' where
    "ReadRecord r = (None, r')" "reporter r' = Some []" using ReadRecord_at [OF r(1)] r(2) by auto
  then show ?thesis unfolding j(1) using r(3) [rule_format, of 1] by (intro exI [of _ r']) simp
qed

lemma log_frags_length: "log_frags off b p bs off' \<Longrightarrow> kHeaderSize \<le> length bs"
  by (induction rule: log_frags.induct) simp_all

theorem log_torn_tail_witness:
  "\<exists>s w r. AddRecord posix_file [1] (mk_Writer (new_file [])) = (s, w) \<and> Status_ok s \<and>
     ReadRecords 1 (mk_Reader (open_file [] (take 3 (wr_data (log_dest w)))) (Some []) True 0) = ([None], r) \<and>
     reporter r = Some []"
proof -
  obtain s w where add: "AddRecord posix_file [1] (mk_Writer (new_file [])) = (s, w)"
    by (cases "AddRecord posix_file [1] (mk_Writer (new_file []))")
  obtain bs where f: "Status_ok s" "wr_data (log_dest w) = bs" "kHeaderSize \<le> length bs"
    using posix_reliable.AddRecord_loop_reliable [OF _ _ add [unfolded AddRecord_def]]
    by (auto simp: mk_Writer_def new_file_def writer_ok_def dest: log_frags_length)
  have "\<exists>r. ReadRecords (length ([] :: bytes list) + 1)
      (mk_Reader (open_file [] (take 3 (wr_data (log_dest w)))) (Some []) True 0) = (map Some [] @ [None], r) \<and>
      reporter r = Some []"
    by (rule log_torn_tail [of "[]" "[]" Status_OK "mk_Writer (new_file [])" "[1]" s w 3 True])
      (use add f in \<open>simp_all add: mk_Writer_def new_file_def kHeaderSize_def\<close>)
  then show ?thesis using add f(1) by auto
qed

text \<open>
  C12: with checksums on, a fragment whose checksum and length bytes are intact and whose type byte and payload
  were changed within at most four consecutive bytes is never returned: the reader classifies it as a bad
  record and drops the rest of the block.
\<close>

theorem log_burst_rejected:
  assumes "buffer r = take 6 (phys_bytes t p) @ (a @ v @ b) @ rest" and "of_nat (RecordType_code t) # p = a @ u @ b"
    and "length u = length v" and "length u \<le> 4" and "u \<noteq> v" and "length p < 65536" and "checksum r"
  shows "\<exists>r'. ReadPhysicalRecord r = ((kBadRecord, []), r') \<and> buffer r' = []"
proof -
  let ?crc = "Mask (Value 0 (of_nat (RecordType_code t) # p))"
  have buf: "buffer r = EncodeFixed32 ?crc @ of_nat (length p mod 256) # of_nat (length p div 256) # a @ v @ b @ rest"
    using assms(1) by (simp add: phys_bytes_def)
  have dl: "length (a @ v @ b) = 1 + length p" using assms(2,3) by (metis length_Cons length_append plus_1_eq_Suc)
  have nth: "(EncodeFixed32 c @ x # y # q) ! 4 = x" "(EncodeFixed32 c @ x # y # q) ! 5 = y"
    "drop 6 (EncodeFixed32 c @ x # y # q) = q" for c x y and q :: bytes
    by (simp_all add: EncodeFixed32_def)
  note len = log_length_bytes [OF assms(6)]
  have sum: "take (1 + length p) (a @ v @ b @ rest) = a @ v @ b" using dl by (metis append.assoc append_eq_conv_conj)
  have neq: "Value 0 (a @ v @ b) \<noteq> Unmask (the (DecodeFixed32 (buffer r)))"
    unfolding buf DecodeFixed32_Encode option.sel Unmask_Mask assms(2)
    using Value_burst [OF assms(3,4,5)] by metis
  have full: "length (buffer r) = kHeaderSize + length p + length rest" unfolding buf using dl by (simp add: kHeaderSize_def)
  then have "\<not> kHeaderSize + length p > length (buffer r)" by simp
  then have "\<exists>r'. ParsePhysical r = ((kBadRecord, []), r') \<and> buffer r' = []"
    unfolding ParsePhysical_def Let_def using assms(7) neq
    by (simp only: buf nth len sum) simp
  then show ?thesis using full by (subst ReadPhysicalRecord.simps) simp
qed

theorem log_burst_rejected_witness:
  "\<exists>r'. ReadPhysicalRecord ((mk_Reader (open_file [] []) None True 0)\<lparr>buffer := take 6 (phys_bytes kFullType [7]) @ [1, 8]\<rparr>) =
     ((kBadRecord, []), r') \<and> buffer r' = []"
  by (rule log_burst_rejected [of _ kFullType "[7]" "[1]" "[8]" "[]" "[]" "[7]"]) (simp_all add: mk_Reader_def)

end
