(* ===== verification/Filename.thy ===== *)
theory Filename
  imports Logging Status
begin

text \<open>
  File names (\<^verbatim>\<open>App/integration/filename.cpp\<close>) and the few file system operations behind the \<^verbatim>\<open>CURRENT\<close> file
  (\<^verbatim>\<open>env.cpp\<close>, \<^verbatim>\<open>env_posix.cpp\<close>).  Every name the library makes is recognised with its number and kind, and
  installing a manifest replaces \<^verbatim>\<open>CURRENT\<close> all at once or not at all, whatever system calls fail.
  The assertions \<^verbatim>\<open>number > 0\<close> of the functions that make names are preconditions, which the properties do not need.
\<close>

subsection \<open>Names\<close>

datatype FileType = kLogFile | kDBLockFile | kTableFile | kDescriptorFile | kCurrentFile | kTempFile | kInfoLogFile

text \<open>\<^verbatim>\<open>%06llu\<close>: at least six digits.\<close>

definition decimal6 :: "nat \<Rightarrow> string" where
  "decimal6 n = replicate (6 - length (decimal n)) CHR ''0'' @ decimal n"

definition MakeFileName :: "string \<Rightarrow> uint64 \<Rightarrow> string \<Rightarrow> string" where
  "MakeFileName name num suffix = name @ ''/'' @ decimal6 (unat num) @ ''.'' @ suffix"

definition LogFileName :: "string \<Rightarrow> uint64 \<Rightarrow> string" where
  "LogFileName name num = MakeFileName name num ''log''"

definition TableFileName :: "string \<Rightarrow> uint64 \<Rightarrow> string" where
  "TableFileName name num = MakeFileName name num ''ldb''"

definition SSTTableFileName :: "string \<Rightarrow> uint64 \<Rightarrow> string" where
  "SSTTableFileName name num = MakeFileName name num ''sst''"

definition DescriptorFileName :: "string \<Rightarrow> uint64 \<Rightarrow> string" where
  "DescriptorFileName dbname num = dbname @ ''/MANIFEST-'' @ decimal6 (unat num)"

definition CurrentFileName :: "string \<Rightarrow> string" where
  "CurrentFileName dbname = dbname @ ''/CURRENT''"

definition LockFileName :: "string \<Rightarrow> string" where
  "LockFileName dbname = dbname @ ''/LOCK''"

definition TempFileName :: "string \<Rightarrow> uint64 \<Rightarrow> string" where
  "TempFileName dbname num = MakeFileName dbname num ''dbtmp''"

definition InfoLogFileName :: "string \<Rightarrow> string" where
  "InfoLogFileName dbname = dbname @ ''/LOG''"

definition OldInfoLogFileName :: "string \<Rightarrow> string" where
  "OldInfoLogFileName dbname = dbname @ ''/LOG.old''"

definition ParseFileName :: "string \<Rightarrow> (uint64 \<times> FileType) option" where
  "ParseFileName fname =
     (if fname = ''CURRENT'' then Some (0, kCurrentFile)
      else if fname = ''LOCK'' then Some (0, kDBLockFile)
      else if fname = ''LOG'' \<or> fname = ''LOG.old'' then Some (0, kInfoLogFile)
      else if take 9 fname = ''MANIFEST-'' then
        (case ConsumeDecimalNumber (drop 9 fname) of
           None \<Rightarrow> None
         | Some (num, rest) \<Rightarrow> if rest \<noteq> [] then None else Some (num, kDescriptorFile))
      else
        (case ConsumeDecimalNumber fname of
           None \<Rightarrow> None
         | Some (num, suffix) \<Rightarrow>
             if suffix = ''.log'' then Some (num, kLogFile)
             else if suffix = ''.sst'' \<or> suffix = ''.ldb'' then Some (num, kTableFile)
             else if suffix = ''.dbtmp'' then Some (num, kTempFile)
             else None))"

subsection \<open>The file system\<close>

text \<open>
  The contents of the files, and for each system call to come whether it fails; a write that fails
  may have written some bytes before.
\<close>

record fs =
  fs_files :: "string \<rightharpoonup> bytes"
  fs_faults :: "nat option list"

definition fs_call :: "fs \<Rightarrow> nat option \<times> fs" where
  "fs_call s = (case fs_faults s of [] \<Rightarrow> (None, s) | x # xs \<Rightarrow> (x, s\<lparr>fs_faults := xs\<rparr>))"

definition errno_status :: "string \<Rightarrow> Status" where
  "errno_status fname = IOError (str fname) []"

definition NewWritableFile :: "string \<Rightarrow> fs \<Rightarrow> Status \<times> fs" where
  "NewWritableFile fname s =
     (let (x, s) = fs_call s
      in case x of None \<Rightarrow> (Status_OK, s\<lparr>fs_files := (fs_files s)(fname \<mapsto> [])\<rparr>)
         | Some _ \<Rightarrow> (errno_status fname, s))"

definition file_Append :: "string \<Rightarrow> bytes \<Rightarrow> fs \<Rightarrow> Status \<times> fs" where
  "file_Append fname data s =
     (let (x, s) = fs_call s;
          old = (case fs_files s fname of None \<Rightarrow> [] | Some d \<Rightarrow> d)
      in case x of None \<Rightarrow> (Status_OK, s\<lparr>fs_files := (fs_files s)(fname \<mapsto> old @ data)\<rparr>)
         | Some k \<Rightarrow> (errno_status fname, s\<lparr>fs_files := (fs_files s)(fname \<mapsto> old @ take k data)\<rparr>))"

text \<open>\<^verbatim>\<open>Sync\<close> and \<^verbatim>\<open>Close\<close> do not change the contents.\<close>

definition file_Sync :: "string \<Rightarrow> fs \<Rightarrow> Status \<times> fs" where
  "file_Sync fname s =
     (let (x, s) = fs_call s in (case x of None \<Rightarrow> Status_OK | Some _ \<Rightarrow> errno_status fname, s))"

definition file_Close :: "string \<Rightarrow> fs \<Rightarrow> Status \<times> fs" where
  "file_Close fname s =
     (let (x, s) = fs_call s in (case x of None \<Rightarrow> Status_OK | Some _ \<Rightarrow> errno_status fname, s))"

definition env_DeleteFile :: "string \<Rightarrow> fs \<Rightarrow> Status \<times> fs" where
  "env_DeleteFile fname s =
     (let (x, s) = fs_call s
      in if x \<noteq> None \<or> fs_files s fname = None then (errno_status fname, s)
         else (Status_OK, s\<lparr>fs_files := (fs_files s)(fname := None)\<rparr>))"

definition env_RenameFile :: "string \<Rightarrow> string \<Rightarrow> fs \<Rightarrow> Status \<times> fs" where
  "env_RenameFile src target s =
     (let (x, s) = fs_call s
      in case (x, fs_files s src) of
           (None, Some d) \<Rightarrow> (Status_OK, s\<lparr>fs_files := (fs_files s)(src := None, target \<mapsto> d)\<rparr>)
         | _ \<Rightarrow> (errno_status src, s))"

definition DoWriteStringToFile :: "bytes \<Rightarrow> string \<Rightarrow> bool \<Rightarrow> fs \<Rightarrow> Status \<times> fs" where
  "DoWriteStringToFile data fname should_sync s =
     (let (st, s) = NewWritableFile fname s
      in if \<not> Status_ok st then (st, s)
         else
           (let (st, s) = file_Append fname data s;
                (st, s) = (if Status_ok st \<and> should_sync then file_Sync fname s else (st, s));
                (st, s) = (if Status_ok st then file_Close fname s else (st, s))
            in if \<not> Status_ok st then (st, snd (env_DeleteFile fname s)) else (st, s)))"

definition WriteStringToFileSync :: "bytes \<Rightarrow> string \<Rightarrow> fs \<Rightarrow> Status \<times> fs" where
  "WriteStringToFileSync data fname s = DoWriteStringToFile data fname True s"

definition SetCurrentFile :: "string \<Rightarrow> uint64 \<Rightarrow> fs \<Rightarrow> Status \<times> fs" where
  "SetCurrentFile dbname descriptor_number s =
     (let manifest = DescriptorFileName dbname descriptor_number;
          contents = drop (length dbname + 1) manifest;
          tmp = TempFileName dbname descriptor_number;
          (st, s) = WriteStringToFileSync (str (contents @ [char_of (10 :: nat)])) tmp s;
          (st, s) = (if Status_ok st then env_RenameFile tmp (CurrentFileName dbname) s else (st, s))
      in if \<not> Status_ok st then (st, snd (env_DeleteFile tmp s)) else (st, s))"

subsection \<open>Lemmas\<close>

lemma Consume_decimal6:
  "rest = [] \<or> \<not> is_digit (hd rest) \<Longrightarrow> ConsumeDecimalNumber (decimal6 (unat num) @ rest) = Some (num, rest)"
  by (simp add: decimal6_def ConsumeDecimalNumber_decimal)

lemma decimal6_first: "\<exists>c cs. decimal6 n = c # cs \<and> is_digit c"
proof -
  have "\<forall>c\<in>set (decimal6 n). is_digit c" "decimal6 n \<noteq> []"
    using decimal_digits [of n] by (auto simp: decimal6_def is_digit_def)
  then show ?thesis by (cases "decimal6 n") auto
qed

lemma Parse_number_name:
  assumes "suffix = [] \<or> \<not> is_digit (hd suffix)"
  shows "ParseFileName (decimal6 (unat num) @ suffix) =
    (if suffix = ''.log'' then Some (num, kLogFile)
     else if suffix = ''.sst'' \<or> suffix = ''.ldb'' then Some (num, kTableFile)
     else if suffix = ''.dbtmp'' then Some (num, kTempFile) else None)"
proof -
  obtain c cs where c: "decimal6 (unat num) = c # cs" "is_digit c" using decimal6_first by blast
  then have "c \<noteq> CHR ''C'' \<and> c \<noteq> CHR ''L'' \<and> c \<noteq> CHR ''M''" by (auto simp: is_digit_def)
  moreover have "ConsumeDecimalNumber (c # cs @ suffix) = Some (num, suffix)"
    using Consume_decimal6 [OF assms, of num] c(1) by simp
  ultimately show ?thesis unfolding c(1) by (simp add: ParseFileName_def)
qed

lemma not_ok_errno [simp]: "\<not> Status_ok (errno_status f)"
  by (simp add: errno_status_def)

lemma fs_call_files: "fs_call s = (x, s') \<Longrightarrow> fs_files s' = fs_files s"
  by (auto simp: fs_call_def split: list.splits)

text \<open>What each operation does to the contents of the files.\<close>

lemma file_ops:
  "NewWritableFile f s = (st, s') \<Longrightarrow>
     (\<forall>g. g \<noteq> f \<longrightarrow> fs_files s' g = fs_files s g) \<and> (Status_ok st \<longrightarrow> fs_files s' f = Some [])"
  "file_Append f d s = (st, s') \<Longrightarrow> fs_files s f = Some old \<Longrightarrow>
     (\<forall>g. g \<noteq> f \<longrightarrow> fs_files s' g = fs_files s g) \<and> (Status_ok st \<longrightarrow> fs_files s' f = Some (old @ d))"
  "file_Sync f s = (st, s') \<Longrightarrow> fs_files s' = fs_files s"
  "file_Close f s = (st, s') \<Longrightarrow> fs_files s' = fs_files s"
  "g \<noteq> f \<Longrightarrow> fs_files (snd (env_DeleteFile f s)) g = fs_files s g"
  "env_RenameFile f t s = (st, s') \<Longrightarrow>
     (if Status_ok st then fs_files s' = (fs_files s)(f := None, t := fs_files s f) \<and> fs_files s f \<noteq> None
      else fs_files s' = fs_files s)"
  by (auto simp: NewWritableFile_def file_Append_def file_Sync_def file_Close_def env_DeleteFile_def
      env_RenameFile_def dest!: fs_call_files split: prod.splits option.splits if_splits)

lemma DoWriteStringToFile_files:
  assumes "DoWriteStringToFile d f sync s = (st, s')"
  shows "(\<forall>g. g \<noteq> f \<longrightarrow> fs_files s' g = fs_files s g) \<and> (Status_ok st \<longrightarrow> fs_files s' f = Some d)"
proof -
  obtain st1 s1 where 1: "NewWritableFile f s = (st1, s1)" by (cases "NewWritableFile f s")
  obtain st2 s2 where 2: "file_Append f d s1 = (st2, s2)" by (cases "file_Append f d s1")
  obtain st3 s3 where 3: "(if Status_ok st2 \<and> sync then file_Sync f s2 else (st2, s2)) = (st3, s3)" by force
  obtain st4 s4 where 4: "(if Status_ok st3 then file_Close f s3 else (st3, s3)) = (st4, s4)" by force
  note new = file_ops(1) [OF 1]
  show ?thesis
  proof (cases "Status_ok st1")
    case False
    then show ?thesis using assms 1 new by (simp add: DoWriteStringToFile_def)
  next
    case True
    have app: "(\<forall>g. g \<noteq> f \<longrightarrow> fs_files s2 g = fs_files s1 g) \<and> (Status_ok st2 \<longrightarrow> fs_files s2 f = Some d)"
      using file_ops(2) [OF 2, of "[]"] new True by simp
    have ok: "Status_ok st4 \<longrightarrow> Status_ok st2" using 3 4 by (auto split: if_splits)
    have "fs_files s4 = fs_files s2" using 3 4 file_ops(3,4) by (metis prod.inject)
    moreover have "(st, s') = (if \<not> Status_ok st4 then (st4, snd (env_DeleteFile f s4)) else (st4, s4))"
      using assms True by (simp add: DoWriteStringToFile_def 1 2 3 4 Let_def)
    ultimately show ?thesis using new app ok file_ops(5) [of _ f s4] by (auto split: if_splits)
  qed
qed

subsection \<open>Properties\<close>

text \<open>
  C29: every file name the library makes is parsed back: after the directory, the names of logs, tables
  (new and old style), manifests and temporary files give their number and kind, and the fixed names
  give their kind.
\<close>

theorem filename_roundtrip:
  "ParseFileName (drop (length db + 1) (LogFileName db num)) = Some (num, kLogFile) \<and>
   ParseFileName (drop (length db + 1) (TableFileName db num)) = Some (num, kTableFile) \<and>
   ParseFileName (drop (length db + 1) (SSTTableFileName db num)) = Some (num, kTableFile) \<and>
   ParseFileName (drop (length db + 1) (TempFileName db num)) = Some (num, kTempFile) \<and>
   ParseFileName (drop (length db + 1) (DescriptorFileName db num)) = Some (num, kDescriptorFile) \<and>
   ParseFileName (drop (length db + 1) (CurrentFileName db)) = Some (0, kCurrentFile) \<and>
   ParseFileName (drop (length db + 1) (LockFileName db)) = Some (0, kDBLockFile) \<and>
   ParseFileName (drop (length db + 1) (InfoLogFileName db)) = Some (0, kInfoLogFile) \<and>
   ParseFileName (drop (length db + 1) (OldInfoLogFileName db)) = Some (0, kInfoLogFile)"
proof -
  have "ParseFileName (''MANIFEST-'' @ decimal6 (unat num)) = Some (num, kDescriptorFile)"
    using Consume_decimal6 [of "[]" num] by (simp add: ParseFileName_def)
  moreover have "\<not> is_digit CHR ''.''" by (simp add: is_digit_def)
  ultimately show ?thesis
    by (simp add: LogFileName_def TableFileName_def SSTTableFileName_def TempFileName_def DescriptorFileName_def
        MakeFileName_def Parse_number_name CurrentFileName_def LockFileName_def InfoLogFileName_def
        OldInfoLogFileName_def)
      (simp add: ParseFileName_def)
qed

text \<open>
  C28: whatever system calls fail, \<^verbatim>\<open>SetCurrentFile\<close> leaves the file \<^verbatim>\<open>CURRENT\<close> either as it was or holding the
  name of the new manifest and a newline, and it holds the latter exactly when the call succeeds; no
  file other than \<^verbatim>\<open>CURRENT\<close> and the temporary file is touched.
\<close>

theorem SetCurrentFile_atomic:
  assumes "SetCurrentFile db n s = (st, s')"
  shows "fs_files s' (CurrentFileName db) =
      (if Status_ok st then Some (str (''MANIFEST-'' @ decimal6 (unat n) @ [char_of (10 :: nat)]))
       else fs_files s (CurrentFileName db)) \<and>
    (\<forall>f. f \<noteq> CurrentFileName db \<and> f \<noteq> TempFileName db n \<longrightarrow> fs_files s' f = fs_files s f)"
proof -
  have neq: "TempFileName db n \<noteq> CurrentFileName db"
    using decimal6_first [of "unat n"] by (auto simp: TempFileName_def CurrentFileName_def MakeFileName_def is_digit_def)
  let ?d = "str (''MANIFEST-'' @ decimal6 (unat n) @ [char_of (10 :: nat)])"
  obtain st1 s1 where 1: "DoWriteStringToFile ?d (TempFileName db n) True s = (st1, s1)"
    by (cases "DoWriteStringToFile ?d (TempFileName db n) True s")
  note w = DoWriteStringToFile_files [OF 1]
  obtain st2 s2 where 2: "(if Status_ok st1 then env_RenameFile (TempFileName db n) (CurrentFileName db) s1
    else (st1, s1)) = (st2, s2)" by force
  have res: "(st, s') = (if \<not> Status_ok st2 then (st2, snd (env_DeleteFile (TempFileName db n) s2)) else (st2, s2))"
    using assms 1 2 by (simp add: SetCurrentFile_def DescriptorFileName_def WriteStringToFileSync_def Let_def)
  note ren = file_ops(6) [of "TempFileName db n" "CurrentFileName db" s1 st2 s2]
  show ?thesis
  proof (cases "Status_ok st2")
    case True
    then have "Status_ok st1" using 2 by (auto split: if_splits)
    then have "fs_files s2 = (fs_files s1)(TempFileName db n := None, CurrentFileName db := Some ?d)"
      using ren 2 True w by simp
    then show ?thesis using res True w by simp
  next
    case False
    then have "fs_files s2 = fs_files s1" using ren 2 by (simp split: if_splits)
    then have "fs_files s' g = fs_files s g" if "g \<noteq> TempFileName db n" for g
      using res False w file_ops(5) [OF that, of s2] that by simp
    then show ?thesis using res False neq by auto
  qed
qed

theorem SetCurrentFile_atomic_witness:
  "let (st, s') = SetCurrentFile ''db'' 5 \<lparr>fs_files = Map.empty, fs_faults = []\<rparr>
   in Status_ok st \<and> fs_files s' ''db/CURRENT'' = Some (str (''MANIFEST-'' @ decimal6 5 @ [char_of (10 :: nat)]))"
proof -
  obtain st s' where e: "SetCurrentFile ''db'' 5 \<lparr>fs_files = Map.empty, fs_faults = []\<rparr> = (st, s')"
    by (cases "SetCurrentFile ''db'' 5 \<lparr>fs_files = Map.empty, fs_faults = []\<rparr>")
  then have "Status_ok st"
    by (auto simp: SetCurrentFile_def WriteStringToFileSync_def DoWriteStringToFile_def NewWritableFile_def
        file_Append_def file_Sync_def file_Close_def env_RenameFile_def fs_call_def Let_def)
  with SetCurrentFile_atomic [OF e] show ?thesis by (simp add: e CurrentFileName_def)
qed

end
