(* ===== verification/Merger.thy ===== *)
theory Merger
  imports Iterator
begin

text \<open>
  The merging iterator (\<^verbatim>\<open>App/integration/merger.cpp\<close>) over children that meet the contract of
  iterators: it meets the contract itself, for the sorted union of the children's entries, in both
  directions and whenever the direction changes.  \<^verbatim>\<open>IteratorWrapper\<close>, which only caches what the child
  returns, is the child here.
\<close>

datatype Direction = kForward | kReverse

record 's MergingIterator =
  mi_children :: "'s list"
  mi_current :: "nat option"
  mi_direction :: Direction

definition mk_MergingIterator :: "'s list \<Rightarrow> 's MergingIterator" where
  "mk_MergingIterator children = \<lparr>mi_children = children, mi_current = None, mi_direction = kForward\<rparr>"

text \<open>One round of the loops of \<^verbatim>\<open>FindSmallest\<close> and \<^verbatim>\<open>FindLargest\<close>; the flag says what a better key is.\<close>

definition find_step :: "'s Iterator \<Rightarrow> (bytes \<Rightarrow> bytes \<Rightarrow> bool) \<Rightarrow> 's list \<Rightarrow> nat \<Rightarrow> nat option \<Rightarrow> nat option" where
  "find_step I better cs i best =
     (if it_Valid I (cs ! i)
      then (case best of None \<Rightarrow> Some i
            | Some j \<Rightarrow> if better (it_key I (cs ! i)) (it_key I (cs ! j)) then Some i else best)
      else best)"

definition FindSmallest :: "'s Iterator \<Rightarrow> (bytes \<Rightarrow> bytes \<Rightarrow> int) \<Rightarrow> 's list \<Rightarrow> nat option" where
  "FindSmallest I cmp cs = fold (find_step I (\<lambda>a b. cmp a b < 0) cs) [0..<length cs] None"

definition FindLargest :: "'s Iterator \<Rightarrow> (bytes \<Rightarrow> bytes \<Rightarrow> int) \<Rightarrow> 's list \<Rightarrow> nat option" where
  "FindLargest I cmp cs = fold (find_step I (\<lambda>a b. cmp a b > 0) cs) (rev [0..<length cs]) None"

definition Merging_SeekToFirst :: "'s Iterator \<Rightarrow> (bytes \<Rightarrow> bytes \<Rightarrow> int) \<Rightarrow> 's MergingIterator \<Rightarrow> 's MergingIterator" where
  "Merging_SeekToFirst I cmp m =
     (let cs = map (it_SeekToFirst I) (mi_children m)
      in \<lparr>mi_children = cs, mi_current = FindSmallest I cmp cs, mi_direction = kForward\<rparr>)"

definition Merging_SeekToLast :: "'s Iterator \<Rightarrow> (bytes \<Rightarrow> bytes \<Rightarrow> int) \<Rightarrow> 's MergingIterator \<Rightarrow> 's MergingIterator" where
  "Merging_SeekToLast I cmp m =
     (let cs = map (it_SeekToLast I) (mi_children m)
      in \<lparr>mi_children = cs, mi_current = FindLargest I cmp cs, mi_direction = kReverse\<rparr>)"

definition Merging_Seek ::
  "'s Iterator \<Rightarrow> (bytes \<Rightarrow> bytes \<Rightarrow> int) \<Rightarrow> bytes \<Rightarrow> 's MergingIterator \<Rightarrow> 's MergingIterator" where
  "Merging_Seek I cmp target m =
     (let cs = map (it_Seek I target) (mi_children m)
      in \<lparr>mi_children = cs, mi_current = FindSmallest I cmp cs, mi_direction = kForward\<rparr>)"

definition Merging_key :: "'s Iterator \<Rightarrow> 's MergingIterator \<Rightarrow> bytes" where
  "Merging_key I m = (case mi_current m of None \<Rightarrow> [] | Some c \<Rightarrow> it_key I (mi_children m ! c))"

definition Merging_value :: "'s Iterator \<Rightarrow> 's MergingIterator \<Rightarrow> bytes" where
  "Merging_value I m = (case mi_current m of None \<Rightarrow> [] | Some c \<Rightarrow> it_value I (mi_children m ! c))"

definition Merging_Valid :: "'s MergingIterator \<Rightarrow> bool" where
  "Merging_Valid m \<longleftrightarrow> mi_current m \<noteq> None"

primrec Merging_status_loop :: "'s Iterator \<Rightarrow> 's list \<Rightarrow> Status \<Rightarrow> Status" where
  "Merging_status_loop I [] status = status"
| "Merging_status_loop I (c # cs) status =
     (let status = it_status I c in if \<not> Status_ok status then status else Merging_status_loop I cs status)"

definition Merging_status :: "'s Iterator \<Rightarrow> 's MergingIterator \<Rightarrow> Status" where
  "Merging_status I m = Merging_status_loop I (mi_children m) Status_OK"

text \<open>The children other than the current one are moved after, or before, the current key.\<close>

definition child_after :: "'s Iterator \<Rightarrow> (bytes \<Rightarrow> bytes \<Rightarrow> int) \<Rightarrow> bytes \<Rightarrow> 's \<Rightarrow> 's" where
  "child_after I cmp key child =
     (let child = it_Seek I key child
      in if it_Valid I child \<and> cmp key (it_key I child) = 0 then it_Next I child else child)"

definition child_before :: "'s Iterator \<Rightarrow> bytes \<Rightarrow> 's \<Rightarrow> 's" where
  "child_before I key child =
     (let child = it_Seek I key child
      in if it_Valid I child then it_Prev I child else it_SeekToLast I child)"

definition other_children :: "nat \<Rightarrow> ('s \<Rightarrow> 's) \<Rightarrow> 's list \<Rightarrow> 's list" where
  "other_children c f cs = map (\<lambda>i. if i = c then cs ! i else f (cs ! i)) [0..<length cs]"

definition Merging_Next :: "'s Iterator \<Rightarrow> (bytes \<Rightarrow> bytes \<Rightarrow> int) \<Rightarrow> 's MergingIterator \<Rightarrow> 's MergingIterator" where
  "Merging_Next I cmp m =
     (case mi_current m of
        None \<Rightarrow> m
      | Some c \<Rightarrow>
          (let cs = (if mi_direction m \<noteq> kForward
                     then other_children c (child_after I cmp (Merging_key I m)) (mi_children m)
                     else mi_children m);
               cs = cs[c := it_Next I (cs ! c)]
           in \<lparr>mi_children = cs, mi_current = FindSmallest I cmp cs, mi_direction = kForward\<rparr>))"

definition Merging_Prev :: "'s Iterator \<Rightarrow> (bytes \<Rightarrow> bytes \<Rightarrow> int) \<Rightarrow> 's MergingIterator \<Rightarrow> 's MergingIterator" where
  "Merging_Prev I cmp m =
     (case mi_current m of
        None \<Rightarrow> m
      | Some c \<Rightarrow>
          (let cs = (if mi_direction m \<noteq> kReverse
                     then other_children c (child_before I (Merging_key I m)) (mi_children m)
                     else mi_children m);
               cs = cs[c := it_Prev I (cs ! c)]
           in \<lparr>mi_children = cs, mi_current = FindLargest I cmp cs, mi_direction = kReverse\<rparr>))"

definition merging_iter :: "'s Iterator \<Rightarrow> (bytes \<Rightarrow> bytes \<Rightarrow> int) \<Rightarrow> 's MergingIterator Iterator" where
  "merging_iter I cmp =
     \<lparr>it_Valid = Merging_Valid, it_SeekToFirst = Merging_SeekToFirst I cmp, it_SeekToLast = Merging_SeekToLast I cmp,
      it_Seek = Merging_Seek I cmp, it_Next = Merging_Next I cmp, it_Prev = Merging_Prev I cmp,
      it_key = Merging_key I, it_value = Merging_value I, it_status = Merging_status I\<rparr>"

text \<open>\<^verbatim>\<open>NewMergingIterator\<close> only merges two children or more; the result is one of three kinds of iterator.\<close>

datatype 's NewMerging = MergeNone Status | MergeOne 's | MergeMany "'s MergingIterator"

definition NewMergingIterator :: "'s list \<Rightarrow> 's NewMerging" where
  "NewMergingIterator list =
     (if length list = 0 then MergeNone NewEmptyIterator
      else if length list = 1 then MergeOne (list ! 0)
      else MergeMany (mk_MergingIterator list))"

definition via_merging :: "(Status \<Rightarrow> 'r) \<Rightarrow> ('s \<Rightarrow> 'r) \<Rightarrow> ('s MergingIterator \<Rightarrow> 'r) \<Rightarrow> 's NewMerging \<Rightarrow> 'r" where
  "via_merging f g h it = (case it of MergeNone s \<Rightarrow> f s | MergeOne s \<Rightarrow> g s | MergeMany m \<Rightarrow> h m)"

definition map_merging ::
  "(Status \<Rightarrow> Status) \<Rightarrow> ('s \<Rightarrow> 's) \<Rightarrow> ('s MergingIterator \<Rightarrow> 's MergingIterator) \<Rightarrow> 's NewMerging \<Rightarrow> 's NewMerging" where
  "map_merging f g h = via_merging (MergeNone \<circ> f) (MergeOne \<circ> g) (MergeMany \<circ> h)"

definition new_merging_iter :: "'s Iterator \<Rightarrow> (bytes \<Rightarrow> bytes \<Rightarrow> int) \<Rightarrow> 's NewMerging Iterator" where
  "new_merging_iter I cmp = (let E = EmptyIterator; M = merging_iter I cmp in
     \<lparr>it_Valid = via_merging (it_Valid E) (it_Valid I) (it_Valid M),
      it_SeekToFirst = map_merging (it_SeekToFirst E) (it_SeekToFirst I) (it_SeekToFirst M),
      it_SeekToLast = map_merging (it_SeekToLast E) (it_SeekToLast I) (it_SeekToLast M),
      it_Seek = (\<lambda>t. map_merging (it_Seek E t) (it_Seek I t) (it_Seek M t)),
      it_Next = map_merging (it_Next E) (it_Next I) (it_Next M),
      it_Prev = map_merging (it_Prev E) (it_Prev I) (it_Prev M),
      it_key = via_merging (it_key E) (it_key I) (it_key M),
      it_value = via_merging (it_value E) (it_value I) (it_value M),
      it_status = via_merging (it_status E) (it_status I) (it_status M)\<rparr>)"

subsection \<open>Smallest and largest child\<close>

lemma find_fold:
  assumes tr: "\<And>i j k. i \<in> set is \<Longrightarrow> j \<in> set is \<Longrightarrow> k \<in> set is \<Longrightarrow> it_Valid I (cs ! i) \<Longrightarrow> it_Valid I (cs ! j) \<Longrightarrow> it_Valid I (cs ! k) \<Longrightarrow>
      \<not> better (it_key I (cs ! i)) (it_key I (cs ! j)) \<Longrightarrow> better (it_key I (cs ! k)) (it_key I (cs ! j)) \<Longrightarrow>
      \<not> better (it_key I (cs ! i)) (it_key I (cs ! k))"
    and irr: "\<And>i. i \<in> set is \<Longrightarrow> it_Valid I (cs ! i) \<Longrightarrow> \<not> better (it_key I (cs ! i)) (it_key I (cs ! i))"
  shows "case fold (find_step I better cs) is None of
      None \<Rightarrow> \<forall>i\<in>set is. \<not> it_Valid I (cs ! i)
    | Some c \<Rightarrow> c \<in> set is \<and> it_Valid I (cs ! c) \<and>
        (\<forall>i\<in>set is. it_Valid I (cs ! i) \<longrightarrow> \<not> better (it_key I (cs ! i)) (it_key I (cs ! c)))"
  using assms
proof (induction "is" rule: rev_induct)
  case (snoc i "is")
  have IH: "case fold (find_step I better cs) is None of
      None \<Rightarrow> \<forall>i\<in>set is. \<not> it_Valid I (cs ! i)
    | Some c \<Rightarrow> c \<in> set is \<and> it_Valid I (cs ! c) \<and>
        (\<forall>i\<in>set is. it_Valid I (cs ! i) \<longrightarrow> \<not> better (it_key I (cs ! i)) (it_key I (cs ! c)))"
    using snoc.prems by (intro snoc.IH) auto
  have step: "fold (find_step I better cs) (is @ [i]) None = find_step I better cs i (fold (find_step I better cs) is None)"
    by simp
  show ?case
  proof (cases "fold (find_step I better cs) is None")
    case None
    then show ?thesis using IH snoc.prems(2) [of i] unfolding step None by (auto simp: find_step_def)
  next
    case (Some c)
    note c = IH [unfolded Some option.case]
    show ?thesis
    proof (cases "it_Valid I (cs ! i) \<and> better (it_key I (cs ! i)) (it_key I (cs ! c))")
      case True
      then have "fold (find_step I better cs) (is @ [i]) None = Some i" unfolding step Some by (simp add: find_step_def)
      moreover have "\<not> better (it_key I (cs ! j)) (it_key I (cs ! i))" if "j \<in> set is" "it_Valid I (cs ! j)" for j
        using snoc.prems(1) [of j c i] c True that by auto
      ultimately show ?thesis using True snoc.prems(2) [of i] by (simp add: ball_Un del: fold_append)
    next
      case False
      then have "fold (find_step I better cs) (is @ [i]) None = Some c" unfolding step Some by (auto simp: find_step_def)
      then show ?thesis using c False by (simp add: ball_Un del: fold_append)
    qed
  qed
qed simp

subsection \<open>The merging iterator meets the contract\<close>

context kv_iterator
begin

text \<open>\<open>es\<close> is the sorted union of the lists \<open>ess\<close>, which have no entry in common.\<close>

definition merge_of :: "entry list list \<Rightarrow> entry list \<Rightarrow> bool" where
  "merge_of ess es \<longleftrightarrow> sorted_entries es \<and> set es = (\<Union>l\<in>set ess. set l) \<and> (\<forall>k<length ess. sorted_entries (ess ! k)) \<and>
     (\<forall>k<length ess. \<forall>l<length ess. k \<noteq> l \<longrightarrow> set (ess ! k) \<inter> set (ess ! l) = {})"

definition children_at :: "'s list \<Rightarrow> entry list list \<Rightarrow> (nat \<Rightarrow> nat) \<Rightarrow> bool" where
  "children_at cs ess p \<longleftrightarrow> length cs = length ess \<and> (\<forall>k<length ess. at (cs ! k) (ess ! k) (p k))"

text \<open>
  Going forward, the children other than the current one stand at their first entry after the current
  key, in reverse at their last entry before it.
\<close>

definition other_pos :: "Direction \<Rightarrow> entry list \<Rightarrow> bytes \<Rightarrow> nat" where
  "other_pos d l key = (case d of kForward \<Rightarrow> seek_pos Compare l key | kReverse \<Rightarrow> before (seek_pos Compare l key) l)"

definition merging_at :: "'s MergingIterator \<Rightarrow> entry list \<Rightarrow> nat \<Rightarrow> bool" where
  "merging_at m es i \<longleftrightarrow> i \<le> length es \<and> (\<exists>ess p. merge_of ess es \<and> children_at (mi_children m) ess p \<and>
     (if i < length es
      then \<exists>c<length ess. mi_current m = Some c \<and> p c < length (ess ! c) \<and> ess ! c ! p c = es ! i \<and>
        (\<forall>k<length ess. k \<noteq> c \<longrightarrow> p k = other_pos (mi_direction m) (ess ! k) (fst (es ! i)))
      else mi_current m = None))"

definition down_closed :: "(entry \<Rightarrow> bool) \<Rightarrow> entry list \<Rightarrow> bool" where
  "down_closed P es \<longleftrightarrow> (\<forall>a\<in>set es. \<forall>b\<in>set es. P b \<longrightarrow> eless a b \<longrightarrow> P a)"

lemma merge_ofD:
  assumes "merge_of ess es"
  shows "sorted_entries es" and "k < length ess \<Longrightarrow> sorted_entries (ess ! k)"
    and "k < length ess \<Longrightarrow> e \<in> set (ess ! k) \<Longrightarrow> e \<in> set es"
    and "e \<in> set es \<Longrightarrow> \<exists>k<length ess. e \<in> set (ess ! k)"
    and "k < length ess \<Longrightarrow> l < length ess \<Longrightarrow> k \<noteq> l \<Longrightarrow> e \<in> set (ess ! k) \<Longrightarrow> e \<notin> set (ess ! l)"
proof -
  show "sorted_entries es" "k < length ess \<Longrightarrow> sorted_entries (ess ! k)" using assms by (simp_all add: merge_of_def)
  have u: "set es = (\<Union>l\<in>set ess. set l)" using assms by (simp add: merge_of_def)
  show "e \<in> set es" if "k < length ess" "e \<in> set (ess ! k)" using u that nth_mem by blast
  show "\<exists>k<length ess. e \<in> set (ess ! k)" if "e \<in> set es" using u that by (metis UN_E in_set_conv_nth)
  show "e \<notin> set (ess ! l)" if "k < length ess" "l < length ess" "k \<noteq> l" "e \<in> set (ess ! k)"
    using assms that unfolding merge_of_def by blast
qed

text \<open>A child that is valid and the entry it stands at.\<close>

lemma child_at:
  assumes "children_at cs ess p" and "k < length ess"
  shows "it_Valid I (cs ! k) \<longleftrightarrow> p k < length (ess ! k)"
    and "p k < length (ess ! k) \<Longrightarrow> it_key I (cs ! k) = fst (ess ! k ! p k)"
    and "p k < length (ess ! k) \<Longrightarrow> it_value I (cs ! k) = snd (ess ! k ! p k)"
  using assms Valid_at key_at value_at unfolding children_at_def by blast+

lemma child_entry_in: "merge_of ess es \<Longrightarrow> k < length ess \<Longrightarrow> p k < length (ess ! k) \<Longrightarrow> ess ! k ! p k \<in> set es"
  using merge_ofD(3) [of ess es k] by auto

lemma FindSmallest_spec:
  assumes mo: "merge_of ess es" and ca: "children_at cs ess p"
  shows "case FindSmallest I Compare cs of
      None \<Rightarrow> \<forall>k<length ess. \<not> p k < length (ess ! k)
    | Some c \<Rightarrow> c < length ess \<and> p c < length (ess ! c) \<and>
        (\<forall>k<length ess. p k < length (ess ! k) \<longrightarrow> \<not> eless (ess ! k ! p k) (ess ! c ! p c))"
proof -
  have n: "length cs = length ess" using ca by (simp add: children_at_def)
  note in_es = sorted_in [OF merge_ofD(1) [OF mo] child_entry_in [OF mo] child_entry_in [OF mo]]
  have "case fold (find_step I (\<lambda>a b. Compare a b < 0) cs) [0..<length cs] None of
      None \<Rightarrow> \<forall>i\<in>set [0..<length cs]. \<not> it_Valid I (cs ! i)
    | Some c \<Rightarrow> c \<in> set [0..<length cs] \<and> it_Valid I (cs ! c) \<and>
        (\<forall>i\<in>set [0..<length cs]. it_Valid I (cs ! i) \<longrightarrow> \<not> Compare (it_key I (cs ! i)) (it_key I (cs ! c)) < 0)"
  proof (rule find_fold)
    fix i j k assume ijk: "i \<in> set [0..<length cs]" "j \<in> set [0..<length cs]" "k \<in> set [0..<length cs]"
      "it_Valid I (cs ! i)" "it_Valid I (cs ! j)" "it_Valid I (cs ! k)"
      "\<not> Compare (it_key I (cs ! i)) (it_key I (cs ! j)) < 0" "Compare (it_key I (cs ! k)) (it_key I (cs ! j)) < 0"
    then have o: "ok (it_key I (cs ! i))" "ok (it_key I (cs ! j))" "ok (it_key I (cs ! k))"
      using child_at [OF ca] in_es(4) n by auto
    show "\<not> Compare (it_key I (cs ! i)) (it_key I (cs ! k)) < 0"
      using Compare_trans [OF o(1,3,2)] ijk(7,8) by blast
  next
    fix i assume "i \<in> set [0..<length cs]" "it_Valid I (cs ! i)"
    then have "ok (it_key I (cs ! i))" using child_at [OF ca] in_es(4) n by auto
    then show "\<not> Compare (it_key I (cs ! i)) (it_key I (cs ! i)) < 0" by (rule Compare_irrefl)
  qed
  then show ?thesis
    using child_at [OF ca] n by (auto simp: FindSmallest_def split: option.splits)
qed

lemma FindLargest_spec:
  assumes mo: "merge_of ess es" and ca: "children_at cs ess p"
  shows "case FindLargest I Compare cs of
      None \<Rightarrow> \<forall>k<length ess. \<not> p k < length (ess ! k)
    | Some c \<Rightarrow> c < length ess \<and> p c < length (ess ! c) \<and>
        (\<forall>k<length ess. p k < length (ess ! k) \<longrightarrow> \<not> eless (ess ! c ! p c) (ess ! k ! p k))"
proof -
  have n: "length cs = length ess" using ca by (simp add: children_at_def)
  note in_es = sorted_in [OF merge_ofD(1) [OF mo] child_entry_in [OF mo] child_entry_in [OF mo]]
  have o: "ok (it_key I (cs ! i))" if "i < length cs" "it_Valid I (cs ! i)" for i
    using child_at [OF ca] in_es(4) n that by auto
  have "case fold (find_step I (\<lambda>a b. Compare a b > 0) cs) (rev [0..<length cs]) None of
      None \<Rightarrow> \<forall>i\<in>set (rev [0..<length cs]). \<not> it_Valid I (cs ! i)
    | Some c \<Rightarrow> c \<in> set (rev [0..<length cs]) \<and> it_Valid I (cs ! c) \<and>
        (\<forall>i\<in>set (rev [0..<length cs]). it_Valid I (cs ! i) \<longrightarrow> \<not> Compare (it_key I (cs ! i)) (it_key I (cs ! c)) > 0)"
  proof (rule find_fold)
    fix i j k assume ijk: "i \<in> set (rev [0..<length cs])" "j \<in> set (rev [0..<length cs])" "k \<in> set (rev [0..<length cs])"
      "it_Valid I (cs ! i)" "it_Valid I (cs ! j)" "it_Valid I (cs ! k)"
      "\<not> Compare (it_key I (cs ! i)) (it_key I (cs ! j)) > 0" "Compare (it_key I (cs ! k)) (it_key I (cs ! j)) > 0"
    then have o: "ok (it_key I (cs ! i))" "ok (it_key I (cs ! j))" "ok (it_key I (cs ! k))" using o by auto
    then show "\<not> Compare (it_key I (cs ! i)) (it_key I (cs ! k)) > 0"
      using Compare_trans [OF o(2,3,1)] ijk(7,8) Compare_flip by blast
  next
    fix i assume "i \<in> set (rev [0..<length cs])" "it_Valid I (cs ! i)"
    then show "\<not> Compare (it_key I (cs ! i)) (it_key I (cs ! i)) > 0"
      using o Compare_irrefl Compare_flip by (metis atLeastLessThan_iff set_rev set_upt)
  qed
  moreover have "Compare (it_key I (cs ! i)) (it_key I (cs ! c)) > 0 \<longleftrightarrow> Compare (it_key I (cs ! c)) (it_key I (cs ! i)) < 0"
    if "i < length cs" "c < length cs" "it_Valid I (cs ! i)" "it_Valid I (cs ! c)" for i c
    using Compare_flip o that by blast
  ultimately show ?thesis
    using child_at [OF ca] n by (auto simp: FindLargest_def split: option.splits)
qed

lemma tw_iff:
  assumes "sorted_entries es" and "down_closed P es" and "j < length es"
  shows "P (es ! j) \<longleftrightarrow> j < tw P es"
  using tw_before [of j P es] tw_after [of es P j] assms unfolding down_closed_def by (meson not_less)

lemma down_closed_child: "merge_of ess es \<Longrightarrow> down_closed P es \<Longrightarrow> k < length ess \<Longrightarrow> down_closed P (ess ! k)"
  using merge_ofD(3) unfolding down_closed_def by blast

lemma merged_forward:
  assumes mo: "merge_of ess es" and dc: "down_closed P es" and ca: "children_at cs ess (\<lambda>k. tw P (ess ! k))"
  shows "merging_at \<lparr>mi_children = cs, mi_current = FindSmallest I Compare cs, mi_direction = kForward\<rparr> es (tw P es)"
proof -
  note srt = merge_ofD(1) [OF mo]
  note tw_es = tw_iff [OF srt dc]
  note tw_k = tw_iff [OF merge_ofD(2) [OF mo] down_closed_child [OF mo dc]]
  have first: "tw P (ess ! k) < length (ess ! k) \<and> \<not> eless e (ess ! k ! tw P (ess ! k))"
    if k: "k < length ess" "e \<in> set (ess ! k)" "\<not> P e" for k e
  proof -
    obtain j where j: "j < length (ess ! k)" "e = ess ! k ! j" using k(2) by (auto simp: in_set_conv_nth)
    then have "tw P (ess ! k) \<le> j" using tw_k [OF k(1) k(1) j(1)] k(3) by simp
    then show ?thesis using sorted_nth_less_iff [OF merge_ofD(2) [OF mo k(1)] j(1)] j by auto
  qed
  note spec = FindSmallest_spec [OF mo ca]
  show ?thesis
  proof (cases "FindSmallest I Compare cs")
    case None
    have "\<not> tw P es < length es"
    proof
      assume i: "tw P es < length es"
      then obtain k where "k < length ess" "es ! tw P es \<in> set (ess ! k)" using merge_ofD(4) [OF mo nth_mem] by blast
      then show False using first [of k "es ! tw P es"] tw_at [OF i] spec None by simp
    qed
    then have "tw P es = length es" using tw_le [of P es] by simp
    then show ?thesis using None mo ca by (auto simp: merging_at_def)
  next
    case (Some c)
    let ?e = "ess ! c ! tw P (ess ! c)"
    have c: "c < length ess" "tw P (ess ! c) < length (ess ! c)"
      "\<forall>k<length ess. tw P (ess ! k) < length (ess ! k) \<longrightarrow> \<not> eless (ess ! k ! tw P (ess ! k)) ?e"
      using spec Some by simp_all
    obtain j where j: "j < length es" "?e = es ! j"
      using child_entry_in [OF mo c(1), of "\<lambda>k. tw P (ess ! k)"] c(2) by (auto simp: in_set_conv_nth)
    have "\<not> P ?e" using tw_at [OF c(2)] .
    then have ij: "tw P es \<le> j" using tw_es [OF j(1)] j(2) by simp
    then have i: "tw P es < length es" using j(1) by simp
    obtain k where k: "k < length ess" "es ! tw P es \<in> set (ess ! k)" using merge_ofD(4) [OF mo nth_mem [OF i]] by blast
    let ?k = "ess ! k ! tw P (ess ! k)"
    have fk: "tw P (ess ! k) < length (ess ! k)" "\<not> eless (es ! tw P es) ?k" using first [OF k tw_at [OF i]] by simp_all
    have "\<not> tw P es < j"
    proof
      assume "tw P es < j"
      then have "eless (es ! tw P es) ?e" using sorted_entriesD(1) [OF srt _ j(1)] j(2) by simp
      moreover have "ok (fst ?k)" "ok (fst ?e)" "ok (fst (es ! tw P es))"
        using sorted_entriesD(2) [OF srt] sorted_entriesD(2) [OF merge_ofD(2) [OF mo k(1)] fk(1)] i j by auto
      ultimately have "eless ?k ?e" using not_less_trans [of "fst ?k" "fst (es ! tw P es)" "fst ?e"] fk(2) by blast
      then show False using c(3) k(1) fk(1) by blast
    qed
    then have e: "?e = es ! tw P es" using ij j(2) by simp
    have "tw P (ess ! l) = seek_pos Compare (ess ! l) (fst (es ! tw P es))" if l: "l < length ess" for l
      unfolding seek_pos_tw
    proof (rule tw_cong)
      fix a assume "a \<in> set (ess ! l)"
      then obtain m where "m < length es" "a = es ! m" using merge_ofD(3) [OF mo l] by (metis in_set_conv_nth)
      then show "P a \<longleftrightarrow> eless a (es ! tw P es)" using tw_es sorted_nth_less_iff [OF srt _ i] by simp
    qed
    then show ?thesis
      using Some i c e mo ca unfolding merging_at_def other_pos_def
      by (auto intro!: exI [of _ ess] exI [of _ "\<lambda>k. tw P (ess ! k)"])
  qed
qed

lemma merged_backward:
  assumes mo: "merge_of ess es" and dc: "down_closed P es" and ca: "children_at cs ess (\<lambda>k. before (tw P (ess ! k)) (ess ! k))"
  shows "merging_at \<lparr>mi_children = cs, mi_current = FindLargest I Compare cs, mi_direction = kReverse\<rparr> es (before (tw P es) es)"
proof -
  note srt = merge_ofD(1) [OF mo]
  note tw_es = tw_iff [OF srt dc]
  note tw_k = tw_iff [OF merge_ofD(2) [OF mo] down_closed_child [OF mo dc]]
  let ?p = "\<lambda>k. before (tw P (ess ! k)) (ess ! k)"
  have valid: "?p k < length (ess ! k) \<longleftrightarrow> 0 < tw P (ess ! k)" for k
    using tw_le [of P "ess ! k"] by (auto simp: before_def)
  have final: "0 < tw P (ess ! k) \<and> \<not> eless (ess ! k ! ?p k) e"
    if k: "k < length ess" "e \<in> set (ess ! k)" "P e" for k e
  proof -
    obtain j where j: "j < length (ess ! k)" "e = ess ! k ! j" using k(2) by (auto simp: in_set_conv_nth)
    then have "j < tw P (ess ! k)" using tw_k [OF k(1) k(1) j(1)] k(3) by simp
    then show ?thesis
      using sorted_nth_less_iff [OF merge_ofD(2) [OF mo k(1)] _ j(1), of "?p k"] j valid [of k] by (auto simp: before_def)
  qed
  note spec = FindLargest_spec [OF mo ca]
  show ?thesis
  proof (cases "FindLargest I Compare cs")
    case None
    have "tw P es = 0"
    proof (rule ccontr)
      assume "tw P es \<noteq> 0"
      then have z: "0 < length es" "P (es ! 0)" using tw_before [of 0 P es] tw_le [of P es] by auto
      then obtain k where "k < length ess" "es ! 0 \<in> set (ess ! k)" using merge_ofD(4) [OF mo nth_mem] by blast
      then show False using final [of k "es ! 0"] z spec None valid [of k] by simp
    qed
    then show ?thesis using None mo ca by (auto simp: merging_at_def before_def)
  next
    case (Some c)
    let ?e = "ess ! c ! ?p c"
    have c: "c < length ess" "?p c < length (ess ! c)"
      "\<forall>k<length ess. ?p k < length (ess ! k) \<longrightarrow> \<not> eless ?e (ess ! k ! ?p k)"
      using spec Some by simp_all
    obtain j where j: "j < length es" "?e = es ! j"
      using child_entry_in [OF mo c(1), of ?p] c(2) by (auto simp: in_set_conv_nth)
    have "P ?e" using tw_before [of "?p c" P "ess ! c"] valid [of c] c(2) by (simp add: before_def)
    then have ji: "j < tw P es" using tw_es [OF j(1)] j(2) by simp
    define i where "i = tw P es - 1"
    have i: "i < length es" "P (es ! i)" "tw P es = Suc i"
      using ji tw_le [of P es] tw_before [of i P es] by (auto simp: i_def)
    obtain k where k: "k < length ess" "es ! i \<in> set (ess ! k)" using merge_ofD(4) [OF mo nth_mem [OF i(1)]] by blast
    let ?k = "ess ! k ! ?p k"
    have fk: "?p k < length (ess ! k)" "\<not> eless ?k (es ! i)" using final [OF k i(2)] valid [of k] by simp_all
    have "\<not> j < i"
    proof
      assume "j < i"
      then have "eless ?e (es ! i)" using sorted_entriesD(1) [OF srt _ i(1)] j(2) by simp
      moreover have o: "ok (fst ?k)" "ok (fst ?e)" "ok (fst (es ! i))"
        using sorted_entriesD(2) [OF srt] sorted_entriesD(2) [OF merge_ofD(2) [OF mo k(1)] fk(1)] i j by auto
      ultimately have "eless ?e ?k"
        using fk(2) c(3) k(1) fk(1) not_less_trans [of "fst ?k" "fst ?e" "fst (es ! i)"] by blast
      then show False using c(3) k(1) fk(1) by blast
    qed
    then have e: "?e = es ! i" using ji j(2) i(3) by (metis less_Suc_eq)
    have "seek_pos Compare (ess ! l) (fst (es ! i)) = tw P (ess ! l)" if l: "l < length ess" "l \<noteq> c" for l
      unfolding seek_pos_tw
    proof (rule tw_cong)
      fix a assume a: "a \<in> set (ess ! l)"
      then obtain m where m: "m < length es" "a = es ! m" using merge_ofD(3) [OF mo l(1)] by (metis in_set_conv_nth)
      have "a \<noteq> es ! i" using merge_ofD(5) [OF mo l(1) c(1) l(2) a] e c(2) by (metis nth_mem)
      then have "m \<noteq> i" using m by blast
      then show "eless a (es ! i) \<longleftrightarrow> P a" using tw_es [OF m(1)] sorted_nth_less_iff [OF srt m(1) i(1)] m(2) i(3) by auto
    qed
    then show ?thesis
      using Some i c e mo ca unfolding merging_at_def other_pos_def
      by (auto simp: before_def [of _ es] intro!: exI [of _ ess] exI [of _ ?p])
  qed
qed

lemma children_map:
  "children_at cs ess p \<Longrightarrow> (\<And>k. k < length ess \<Longrightarrow> at (f (cs ! k)) (ess ! k) (q k)) \<Longrightarrow> children_at (map f cs) ess q"
  by (simp add: children_at_def)

lemma children_others:
  assumes "children_at cs ess p" and "c < length ess" and "at (f (cs ! c)) (ess ! c) (q c)"
    and "\<And>k. k < length ess \<Longrightarrow> k \<noteq> c \<Longrightarrow> at (g (cs ! k)) (ess ! k) (q k)"
  shows "children_at ((other_children c g cs)[c := f (other_children c g cs ! c)]) ess q"
  using assms by (auto simp: children_at_def other_children_def nth_list_update)

lemma children_update:
  assumes "children_at cs ess p" and "c < length ess" and "at (f (cs ! c)) (ess ! c) (q c)"
    and "\<And>k. k < length ess \<Longrightarrow> k \<noteq> c \<Longrightarrow> q k = p k"
  shows "children_at (cs[c := f (cs ! c)]) ess q"
  using assms by (auto simp: children_at_def nth_list_update)

text \<open>What is known when the iterator is valid.\<close>

lemma merging_atE:
  assumes "merging_at m es i" and "i < length es"
  obtains ess p c where "merge_of ess es" "children_at (mi_children m) ess p" "c < length ess" "mi_current m = Some c"
    "p c < length (ess ! c)" "ess ! c ! p c = es ! i" "Merging_key I m = fst (es ! i)" "ok (fst (es ! i))"
    "\<And>k. k < length ess \<Longrightarrow> k \<noteq> c \<Longrightarrow> p k = other_pos (mi_direction m) (ess ! k) (fst (es ! i))"
    "\<And>k e. k < length ess \<Longrightarrow> k \<noteq> c \<Longrightarrow> e \<in> set (ess ! k) \<Longrightarrow> eless e (es ! i) \<or> eless (es ! i) e"
proof -
  from assms obtain ess p c where m: "merge_of ess es" "children_at (mi_children m) ess p" "c < length ess" "mi_current m = Some c"
    "p c < length (ess ! c)" "ess ! c ! p c = es ! i"
    "\<And>k. k < length ess \<Longrightarrow> k \<noteq> c \<Longrightarrow> p k = other_pos (mi_direction m) (ess ! k) (fst (es ! i))"
    by (auto simp: merging_at_def)
  have "Merging_key I m = fst (es ! i)" using child_at(2) [OF m(2,3,5)] m(4,6) by (simp add: Merging_key_def)
  moreover have "ok (fst (es ! i))" using sorted_entriesD(2) [OF merge_ofD(1) [OF m(1)] assms(2)] .
  moreover have "eless e (es ! i) \<or> eless (es ! i) e" if "k < length ess" "k \<noteq> c" "e \<in> set (ess ! k)" for k e
  proof -
    have "e \<noteq> es ! i" using merge_ofD(5) [OF m(1) that(1) m(3) that(2,3)] m(5,6) by (metis nth_mem)
    then show ?thesis
      using sorted_in(1) [OF merge_ofD(1) [OF m(1)] merge_ofD(3) [OF m(1) that(1,3)] nth_mem [OF assms(2)]] by blast
  qed
  ultimately show thesis using that m by blast
qed

text \<open>The predicate that cuts the lists at the current entry, with or without it.\<close>

lemma tw_upto:
  assumes "sorted_entries es" and "j < length es" and "es ! j = x"
  shows "tw (\<lambda>e. \<not> eless x e) es = Suc j" "tw (\<lambda>e. eless e x) es = j"
proof -
  have less: "eless x (es ! m) \<longleftrightarrow> j < m" "eless (es ! m) x \<longleftrightarrow> m < j" if "m < length es" for m
    using sorted_nth_less_iff [OF assms(1)] assms(2,3) that by metis+
  show "tw (\<lambda>e. \<not> eless x e) es = Suc j" "tw (\<lambda>e. eless e x) es = j"
    by (rule twI; use less assms(2) in simp)+
qed

lemma down_closed_upto:
  assumes "sorted_entries es" and "x \<in> set es"
  shows "down_closed (\<lambda>e. \<not> eless x e) es" "down_closed (\<lambda>e. eless e x) es"
  unfolding down_closed_def using Compare_trans sorted_in(4) [OF assms(1)] assms(2) by blast+

lemma Merging_Next_at:
  assumes at: "merging_at m es i" and i: "i < length es"
  shows "merging_at (Merging_Next I Compare m) es (Suc i)"
proof -
  from merging_atE [OF at i] obtain ess p c where m: "merge_of ess es" "children_at (mi_children m) ess p"
    "c < length ess" "mi_current m = Some c" "p c < length (ess ! c)" "ess ! c ! p c = es ! i"
    "Merging_key I m = fst (es ! i)" "ok (fst (es ! i))"
    "\<And>k. k < length ess \<Longrightarrow> k \<noteq> c \<Longrightarrow> p k = other_pos (mi_direction m) (ess ! k) (fst (es ! i))"
    "\<And>k e. k < length ess \<Longrightarrow> k \<noteq> c \<Longrightarrow> e \<in> set (ess ! k) \<Longrightarrow> eless e (es ! i) \<or> eless (es ! i) e" by blast
  note srt = merge_ofD(1) [OF m(1)]
  let ?P = "\<lambda>e. \<not> eless (es ! i) e" and ?cs = "mi_children m"
  have tw_i: "tw ?P es = Suc i" using tw_upto(1) [OF srt i refl] .
  have cat: "at (it_Next I (?cs ! c)) (ess ! c) (tw ?P (ess ! c))"
    unfolding tw_upto(1) [OF merge_ofD(2) [OF m(1,3)] m(5,6)]
    using Next_at m(2,3,5) by (simp add: children_at_def)
  have others: "tw ?P (ess ! k) = seek_pos Compare (ess ! k) (fst (es ! i))" if "k < length ess" "k \<noteq> c" for k
    unfolding seek_pos_tw
    by (rule tw_cong) (use m(10) [OF that] sorted_in(2) [OF srt nth_mem [OF i]] merge_ofD(3) [OF m(1) that(1)] in blast)
  show ?thesis
  proof (cases "mi_direction m")
    case kForward
    have "children_at (?cs[c := it_Next I (?cs ! c)]) ess (\<lambda>k. tw ?P (ess ! k))"
      by (rule children_update [where f = "it_Next I" and q = "\<lambda>k. tw ?P (ess ! k)", OF m(2,3) cat])
        (use m(9) others kForward in \<open>simp add: other_pos_def\<close>)
    from merged_forward [OF m(1) down_closed_upto(1) [OF srt nth_mem [OF i]] this] show ?thesis
      using kForward m(4) by (simp add: Merging_Next_def tw_i Let_def)
  next
    case kReverse
    have "at (child_after I Compare (fst (es ! i)) (?cs ! k)) (ess ! k) (tw ?P (ess ! k))" if k: "k < length ess" "k \<noteq> c" for k
    proof -
      let ?s = "it_Seek I (fst (es ! i)) (?cs ! k)" and ?j = "seek_pos Compare (ess ! k) (fst (es ! i))"
      have at': "at ?s (ess ! k) ?j" using Seek_at m(2,8) k(1) by (auto simp: children_at_def)
      have "Compare (fst (es ! i)) (it_key I ?s) \<noteq> 0" if "it_Valid I ?s"
      proof -
        have j: "?j < length (ess ! k)" using Valid_at [OF at'] that by simp
        have "ok (fst (ess ! k ! ?j))" using sorted_entriesD(2) [OF merge_ofD(2) [OF m(1) k(1)] j] .
        then show ?thesis using m(10) [OF k nth_mem [OF j]] key_at [OF at' j] Compare_flip m(8) by fastforce
      qed
      then have "child_after I Compare (fst (es ! i)) (?cs ! k) = ?s" by (auto simp: child_after_def Let_def)
      then show ?thesis using at' others [OF k] by simp
    qed
    then have "children_at ((other_children c (child_after I Compare (fst (es ! i))) ?cs)
        [c := it_Next I (other_children c (child_after I Compare (fst (es ! i))) ?cs ! c)]) ess (\<lambda>k. tw ?P (ess ! k))"
      using children_others [where f = "it_Next I" and q = "\<lambda>k. tw ?P (ess ! k)", OF m(2,3) cat] by blast
    from merged_forward [OF m(1) down_closed_upto(1) [OF srt nth_mem [OF i]] this] show ?thesis
      using kReverse m(4,7) by (simp add: Merging_Next_def tw_i Let_def)
  qed
qed

lemma Merging_Prev_at:
  assumes at: "merging_at m es i" and i: "i < length es"
  shows "merging_at (Merging_Prev I Compare m) es (before i es)"
proof -
  from merging_atE [OF at i] obtain ess p c where m: "merge_of ess es" "children_at (mi_children m) ess p"
    "c < length ess" "mi_current m = Some c" "p c < length (ess ! c)" "ess ! c ! p c = es ! i"
    "Merging_key I m = fst (es ! i)" "ok (fst (es ! i))"
    "\<And>k. k < length ess \<Longrightarrow> k \<noteq> c \<Longrightarrow> p k = other_pos (mi_direction m) (ess ! k) (fst (es ! i))"
    "\<And>k e. k < length ess \<Longrightarrow> k \<noteq> c \<Longrightarrow> e \<in> set (ess ! k) \<Longrightarrow> eless e (es ! i) \<or> eless (es ! i) e" by blast
  note srt = merge_ofD(1) [OF m(1)]
  let ?P = "\<lambda>e. eless e (es ! i)" and ?cs = "mi_children m"
  let ?q = "\<lambda>k. before (tw ?P (ess ! k)) (ess ! k)"
  have tw_i: "tw ?P es = i" using tw_upto(2) [OF srt i refl] .
  have "at (?cs ! c) (ess ! c) (p c)" using m(2,3) by (simp add: children_at_def)
  then have cat: "at (it_Prev I (?cs ! c)) (ess ! c) (?q c)"
    unfolding tw_upto(2) [OF merge_ofD(2) [OF m(1,3)] m(5,6)] before_def using Prev_at m(5) by blast
  show ?thesis
  proof (cases "mi_direction m")
    case kReverse
    have "children_at (?cs[c := it_Prev I (?cs ! c)]) ess ?q"
      by (rule children_update [where f = "it_Prev I" and q = ?q, OF m(2,3) cat])
        (use m(9) kReverse in \<open>simp add: other_pos_def seek_pos_tw\<close>)
    from merged_backward [OF m(1) down_closed_upto(2) [OF srt nth_mem [OF i]] this] show ?thesis
      using kReverse m(4) by (simp add: Merging_Prev_def tw_i Let_def)
  next
    case kForward
    have "at (child_before I (fst (es ! i)) (?cs ! k)) (ess ! k) (?q k)" if k: "k < length ess" "k \<noteq> c" for k
    proof -
      let ?s = "it_Seek I (fst (es ! i)) (?cs ! k)" and ?j = "tw ?P (ess ! k)"
      have at': "at ?s (ess ! k) ?j" unfolding seek_pos_tw [symmetric] using Seek_at m(2,8) k(1) by (auto simp: children_at_def)
      show ?thesis
      proof (cases "it_Valid I ?s")
        case True
        then show ?thesis
          using Prev_at [OF at'] Valid_at [OF at'] by (simp add: child_before_def Let_def before_def)
      next
        case False
        then have "?j = length (ess ! k)" using Valid_at [OF at'] at_le [OF at'] by simp
        then show ?thesis
          using False SeekToLast_at [OF at'] by (auto simp: child_before_def Let_def before_def)
      qed
    qed
    then have "children_at ((other_children c (child_before I (fst (es ! i))) ?cs)
        [c := it_Prev I (other_children c (child_before I (fst (es ! i))) ?cs ! c)]) ess ?q"
      using children_others [where f = "it_Prev I" and q = ?q, OF m(2,3) cat] by blast
    from merged_backward [OF m(1) down_closed_upto(2) [OF srt nth_mem [OF i]] this] show ?thesis
      using kForward m(4,7) by (simp add: Merging_Prev_def tw_i Let_def)
  qed
qed

text \<open>The three seeks: no entry lies before the first one, all lie before the end, those with a smaller key before the target.\<close>

lemma merging_children:
  assumes "merging_at m es i"
  obtains ess p where "merge_of ess es" "children_at (mi_children m) ess p"
  using assms by (auto simp: merging_at_def)

lemma Merging_SeekToFirst_at:
  assumes "merging_at m es i"
  shows "merging_at (Merging_SeekToFirst I Compare m) es 0"
proof -
  from merging_children [OF assms] obtain ess p where m: "merge_of ess es" "children_at (mi_children m) ess p" .
  have z: "tw (\<lambda>e. False) l = 0" for l by (cases l) (simp_all add: tw_def)
  have "children_at (map (it_SeekToFirst I) (mi_children m)) ess (\<lambda>k. tw (\<lambda>e. False) (ess ! k))"
    using m(2) SeekToFirst_at by (intro children_map [OF m(2)]) (auto simp: children_at_def z)
  from merged_forward [OF m(1) _ this] show ?thesis
    by (simp add: down_closed_def z Merging_SeekToFirst_def Let_def)
qed

lemma Merging_SeekToLast_at:
  assumes "merging_at m es i"
  shows "merging_at (Merging_SeekToLast I Compare m) es (length es - 1)"
proof -
  from merging_children [OF assms] obtain ess p where m: "merge_of ess es" "children_at (mi_children m) ess p" .
  have z: "before (tw (\<lambda>e. True) l) l = length l - 1" for l
    using twI [of "length l" l "\<lambda>e. True"] by (auto simp: before_def)
  have "children_at (map (it_SeekToLast I) (mi_children m)) ess (\<lambda>k. before (tw (\<lambda>e. True) (ess ! k)) (ess ! k))"
    using m(2) SeekToLast_at by (intro children_map [OF m(2)]) (auto simp: children_at_def z)
  from merged_backward [OF m(1) _ this] show ?thesis
    by (simp add: down_closed_def z Merging_SeekToLast_def Let_def)
qed

lemma Merging_Seek_at:
  assumes "merging_at m es i" and ok: "ok target"
  shows "merging_at (Merging_Seek I Compare target m) es (seek_pos Compare es target)"
proof -
  from merging_children [OF assms(1)] obtain ess p where m: "merge_of ess es" "children_at (mi_children m) ess p" .
  let ?P = "\<lambda>e. Compare (fst e) target < 0"
  have "children_at (map (it_Seek I target) (mi_children m)) ess (\<lambda>k. tw ?P (ess ! k))"
    using m(2) Seek_at ok by (intro children_map [OF m(2)]) (auto simp: children_at_def seek_pos_tw)
  moreover have "down_closed ?P es"
    unfolding down_closed_def using Compare_trans ok sorted_in(4) [OF merge_ofD(1) [OF m(1)]] by blast
  ultimately show ?thesis
    using merged_forward [OF m(1)] by (simp add: seek_pos_tw Merging_Seek_def Let_def)
qed

lemma Merging_status_ok: "(\<And>c. c \<in> set cs \<Longrightarrow> Status_ok (it_status I c)) \<Longrightarrow> Status_ok s \<Longrightarrow> Status_ok (Merging_status_loop I cs s)"
  by (induction cs arbitrary: s) (auto simp: Let_def)

lemma Merging_entry_at:
  assumes "merging_at m es i" and "i < length es"
  shows "Merging_key I m = fst (es ! i)" "Merging_value I m = snd (es ! i)"
proof -
  from assms obtain ess p c where c: "children_at (mi_children m) ess p" "c < length ess"
    "mi_current m = Some c" "p c < length (ess ! c)" "ess ! c ! p c = es ! i" by (auto simp: merging_at_def)
  then show "Merging_key I m = fst (es ! i)" "Merging_value I m = snd (es ! i)"
    using child_at(2,3) [OF c(1,2,4)] by (simp_all add: Merging_key_def Merging_value_def)
qed

text \<open>A new merging iterator over its children is past the end until it is positioned.\<close>

lemma mk_MergingIterator_at:
  "merge_of ess es \<Longrightarrow> children_at cs ess p \<Longrightarrow> merging_at (mk_MergingIterator cs) es (length es)"
  by (auto simp: merging_at_def mk_MergingIterator_def)

theorem merging_contract: "kv_iterator ok Compare (merging_iter I Compare) merging_at"
proof unfold_locales
  fix m es i assume at: "merging_at m es i"
  from merging_children [OF at] obtain ess p where m: "merge_of ess es" "children_at (mi_children m) ess p" .
  show "i \<le> length es" using at by (simp add: merging_at_def)
  show "sorted_entries es" using merge_ofD(1) [OF m(1)] .
  show "it_Valid (merging_iter I Compare) m \<longleftrightarrow> i < length es"
    using at by (auto simp: merging_at_def merging_iter_def Merging_Valid_def split: if_splits)
  show "Status_ok (it_status (merging_iter I Compare) m)"
  proof -
    have "Status_ok (it_status I c)" if "c \<in> set (mi_children m)" for c
      using m(2) status_at that unfolding children_at_def in_set_conv_nth by metis
    then have "Status_ok (Merging_status_loop I (mi_children m) Status_OK)"
      by (rule Merging_status_ok) (simp_all add: Status_ok_def Status_OK_def)
    then show ?thesis by (simp add: merging_iter_def Merging_status_def)
  qed
  show "merging_at (it_SeekToFirst (merging_iter I Compare) m) es 0"
    using Merging_SeekToFirst_at [OF at] by (simp add: merging_iter_def)
  show "merging_at (it_SeekToLast (merging_iter I Compare) m) es (length es - 1)"
    using Merging_SeekToLast_at [OF at] by (simp add: merging_iter_def)
  show "merging_at (it_Seek (merging_iter I Compare) target m) es (seek_pos Compare es target)" if "ok target" for target
    using Merging_Seek_at [OF at that] by (simp add: merging_iter_def)
  assume i: "i < length es"
  show "it_key (merging_iter I Compare) m = fst (es ! i)" "it_value (merging_iter I Compare) m = snd (es ! i)"
    using Merging_entry_at [OF at i] by (simp_all add: merging_iter_def)
  show "merging_at (it_Next (merging_iter I Compare) m) es (Suc i)"
    using Merging_Next_at [OF at i] by (simp add: merging_iter_def)
  show "merging_at (it_Prev (merging_iter I Compare) m) es (if i = 0 then length es else i - 1)"
    using Merging_Prev_at [OF at i] by (simp add: merging_iter_def before_def)
qed

definition new_merging_at :: "'s NewMerging \<Rightarrow> entry list \<Rightarrow> nat \<Rightarrow> bool" where
  "new_merging_at it es i = via_merging (\<lambda>s. es = [] \<and> i = 0 \<and> Status_ok s) (\<lambda>s. at s es i) (\<lambda>m. merging_at m es i) it"

theorem new_merging_contract: "kv_iterator ok Compare (new_merging_iter I Compare) new_merging_at"
proof -
  note laws = kv_iterator.at_le kv_iterator.at_sorted kv_iterator.Valid_at kv_iterator.key_at kv_iterator.value_at
    kv_iterator.status_at kv_iterator.SeekToFirst_at kv_iterator.SeekToLast_at kv_iterator.Seek_at kv_iterator.Next_at kv_iterator.Prev_at
  note E = laws [OF empty_iter.kv_iterator_axioms] and C = laws [OF kv_iterator_axioms] and M = laws [OF merging_contract]
  show ?thesis
  proof unfold_locales
    fix it es i assume at: "new_merging_at it es i"
    note op = new_merging_iter_def new_merging_at_def via_merging_def map_merging_def Let_def
    show "i \<le> length es"
      using at E(1) C(1) M(1) unfolding op by (cases it; auto)
    show "sorted_entries es"
      using at E(2) C(2) M(2) unfolding op by (cases it; auto)
    show "it_Valid (new_merging_iter I Compare) it \<longleftrightarrow> i < length es"
      using at E(3) C(3) M(3) unfolding op by (cases it; auto)
    show "i < length es \<Longrightarrow> it_key (new_merging_iter I Compare) it = fst (es ! i)"
      using at E(4) C(4) M(4) unfolding op by (cases it; auto)
    show "i < length es \<Longrightarrow> it_value (new_merging_iter I Compare) it = snd (es ! i)"
      using at E(5) C(5) M(5) unfolding op by (cases it; auto)
    show "Status_ok (it_status (new_merging_iter I Compare) it)"
      using at E(6) C(6) M(6) unfolding op by (cases it; auto)
    show "new_merging_at (it_SeekToFirst (new_merging_iter I Compare) it) es 0"
      using at E(7) C(7) M(7) unfolding op by (cases it; auto)
    show "new_merging_at (it_SeekToLast (new_merging_iter I Compare) it) es (length es - 1)"
      using at E(8) C(8) M(8) unfolding op by (cases it; auto)
    show "ok target \<Longrightarrow> new_merging_at (it_Seek (new_merging_iter I Compare) target it) es (seek_pos Compare es target)" for target
      using at E(9) C(9) M(9) unfolding op by (cases it; auto)
    show "i < length es \<Longrightarrow> new_merging_at (it_Next (new_merging_iter I Compare) it) es (Suc i)"
      using at E(10) C(10) M(10) unfolding op by (cases it; auto)
    show "i < length es \<Longrightarrow> new_merging_at (it_Prev (new_merging_iter I Compare) it) es (if i = 0 then length es else i - 1)"
      using at E(11) C(11) M(11) unfolding op by (cases it; auto)
  qed
qed

lemma NewMergingIterator_at:
  assumes "merge_of ess es" and "children_at cs ess p"
  shows "\<exists>i. new_merging_at (NewMergingIterator cs) es i"
proof -
  have n: "length cs = length ess" using assms(2) by (simp add: children_at_def)
  consider "ess = []" | l where "ess = [l]" | "2 \<le> length ess"
    by (cases ess; cases "tl ess") auto
  then show ?thesis
  proof cases
    case 1
    then have "es = []" using assms(1) by (simp add: merge_of_def)
    then show ?thesis using 1 n by (simp add: new_merging_at_def NewMergingIterator_def via_merging_def NewEmptyIterator_def Status_ok_def Status_OK_def)
  next
    case 2
    have "es = l" using assms(1) 2 sorted_entries_unique by (simp add: merge_of_def)
    then show ?thesis using 2 n assms(2) by (auto simp: new_merging_at_def NewMergingIterator_def via_merging_def children_at_def)
  next
    case 3
    then show ?thesis using n mk_MergingIterator_at [OF assms] by (auto simp: new_merging_at_def NewMergingIterator_def via_merging_def)
  qed
qed

end

end
