(* ===== verification/Table_Correct.thy ===== *)
theory Table_Correct
  imports Table Bloom Merger
begin

text \<open>
  A table that the builder wrote is read back: opening the file succeeds, the iterator meets the
  contract of iterators for the entries that were added, and a point lookup finds the first entry at or
  after the key whenever that entry is for the same user key.
\<close>

lemma unat_split:
  assumes "l + k < 2 ^ 32"
  shows "unat (of_nat (l + k) :: uint64) = l + k" "unat (of_nat (l + k) - of_nat k :: uint64) = l" "unat (of_nat k :: uint64) = k"
proof -
  have "of_nat (l + k) - of_nat k = (of_nat l :: uint64)" by simp
  then show "unat (of_nat (l + k) :: uint64) = l + k" "unat (of_nat (l + k) - of_nat k :: uint64) = l" "unat (of_nat k :: uint64) = k"
    using assms by (simp_all only: unat_of_nat_small) (simp_all add: unat_of_nat_small del: of_nat_add)
qed

lemma hd_in_take_1: "xs \<noteq> [] \<Longrightarrow> hd xs \<in> set (take 1 xs)"
  by (cases xs) auto

text \<open>Whether the filter block gives an answer does not depend on the key, and the answer only on what the policy says of it.\<close>

lemma FilterBlock_total:
  "FilterBlock_KeyMayMatch match r off k = Some a \<Longrightarrow> \<exists>b. FilterBlock_KeyMayMatch match r off k' = Some b"
  by (auto simp: FilterBlock_KeyMayMatch_def Let_def split: if_splits option.splits)

lemma FilterBlock_cong:
  "(\<And>g. match k g = match k' g) \<Longrightarrow> FilterBlock_KeyMayMatch match r off k = FilterBlock_KeyMayMatch match r off k'"
  by (auto simp: FilterBlock_KeyMayMatch_def Let_def split: option.splits)

locale table_reader = table_comparator ok c + random_file Read contents good
  for ok :: "bytes \<Rightarrow> bool" and c :: Comparator and Read :: "'f \<Rightarrow> uint64 \<Rightarrow> uint64 \<Rightarrow> raf_result"
    and contents :: "'f \<Rightarrow> bytes" and good :: "'f \<Rightarrow> bool" +
  fixes Opt :: Options and same :: "bytes \<Rightarrow> bytes \<Rightarrow> bool"
  assumes Opt_comparator: "opt_comparator Opt = c" and Opt_restart: "1 \<le> opt_block_restart_interval Opt"
    and Opt_filter: "opt_filter_policy Opt = Some p \<Longrightarrow> filter_policy (fp_CreateFilter p) (fp_KeyMayMatch p)"
    and filter_same: "opt_filter_policy Opt = Some p \<Longrightarrow> same k k' \<Longrightarrow> fp_KeyMayMatch p k g = fp_KeyMayMatch p k' g"
    and separator_split: "ok start \<Longrightarrow> ok limit \<Longrightarrow> ok k \<Longrightarrow> cmp_Compare c start limit < 0 \<Longrightarrow> cmp_Compare c start k < 0 \<Longrightarrow>
      cmp_Compare c k (cmp_FindShortestSeparator c start limit) \<le> 0 \<Longrightarrow> \<not> same k limit"
begin

abbreviation n :: nat where "n \<equiv> opt_block_restart_interval Opt"

abbreviation po :: "FilterPolicy option" where "po \<equiv> opt_filter_policy Opt"

definition table_ok :: "'f \<Rightarrow> entry list list \<Rightarrow> bytes list \<Rightarrow> bool" where
  "table_ok f bs seps \<longleftrightarrow> good f \<and> contents f = table_file po n bs seps \<and> length (contents f) < 2 ^ 32 \<and>
     sorted_entries (concat bs) \<and> [] \<notin> set bs \<and> length bs = length seps \<and> sep_ok bs [] seps"

definition opened :: "'f \<Rightarrow> Table \<Rightarrow> entry list list \<Rightarrow> bytes list \<Rightarrow> bool" where
  "opened f t bs seps \<longleftrightarrow> table_ok f bs seps \<and> t_options t = Opt \<and> t_file t = Read f \<and>
     t_index_block t = mk_Block (index_data n bs seps) \<and>
     t_filter t = map_option (\<lambda>p. mk_FilterBlockReader (filter_data p n bs)) po \<and>
     t_metaindex_handle t = handle_at (pre_meta po n bs) (meta_data po n bs)"

subsection \<open>The blocks of the file\<close>

lemma ReadBlock_at:
  assumes "table_ok f bs seps" and "table_file po n bs seps = a @ frame d @ b"
  shows "\<exists>x. ReadBlock (Read f) verify (handle_at a d) = Some (Inr \<lparr>bc_data = d, bc_cachable = x, bc_heap_allocated = x\<rparr>)"
proof -
  have c: "good f" "contents f = a @ (d @ block_trailer d kNoCompression) @ b" "length (contents f) < 2 ^ 32"
    using assms by (auto simp: table_ok_def frame_def)
  then have "length a < 2 ^ 32" "length d < 2 ^ 32" by auto
  then have "unat (bh_offset (handle_at a d)) = length a" "unat (bh_size (handle_at a d)) = length d"
    by (simp_all add: handle_at_def unat_of_nat_small)
  then show ?thesis using ReadBlock_good [OF c(1,2)] c(3) by simp
qed

lemma base_split: "j < length bs \<Longrightarrow> base n bs = base n (take j bs) @ frame (build_block n (bs ! j)) @ base n (drop (Suc j) bs)"
  using arg_cong [OF id_take_nth_drop [of j bs], of "base n"] by (simp add: base_def)

lemma block_handle_at: "block_handle n bs j = handle_at (base n (take j bs)) (build_block n (bs ! j))"
  by (simp add: block_handle_def handle_at_def)

lemma ReadBlock_data:
  assumes "table_ok f bs seps" and "j < length bs"
  shows "\<exists>x. ReadBlock (Read f) verify (block_handle n bs j) =
    Some (Inr \<lparr>bc_data = build_block n (bs ! j), bc_cachable = x, bc_heap_allocated = x\<rparr>)"
  unfolding block_handle_at
  by (rule ReadBlock_at [OF assms(1)], unfold table_file_def pre_index_def pre_meta_def base_split [OF assms(2)] append_assoc) (rule refl)

lemma small_blocks:
  assumes "table_ok f bs seps"
  shows "length (index_data n bs seps) < 2 ^ 32" "length (meta_data po n bs) < 2 ^ 32"
    "po = Some p \<Longrightarrow> length (filter_data p n bs) < 2 ^ 32" "length (base n bs) < 2 ^ 32"
    "j < length bs \<Longrightarrow> length (build_block n (bs ! j)) < 2 ^ 32"
proof -
  have "length (table_file po n bs seps) < 2 ^ 32" using assms by (auto simp: table_ok_def)
  then show "length (index_data n bs seps) < 2 ^ 32" "length (meta_data po n bs) < 2 ^ 32"
    "po = Some p \<Longrightarrow> length (filter_data p n bs) < 2 ^ 32" and b: "length (base n bs) < 2 ^ 32"
    by (simp_all add: table_file_def pre_index_def pre_meta_def frame_def)
  show "length (build_block n (bs ! j)) < 2 ^ 32" if "j < length bs"
    using b base_split [OF that] by (simp add: frame_def)
qed

subsection \<open>Opening\<close>

lemma ReadFilter_ok:
  assumes "table_ok f bs seps" and "t_file t = Read f" and "po = Some p"
  shows "Table_ReadFilter (BlockHandle_EncodeTo (handle_at (base n bs) (filter_data p n bs)) []) t =
    Some (t\<lparr>t_filter := Some (mk_FilterBlockReader (filter_data p n bs))\<rparr>)"
proof -
  have "table_file po n bs seps = base n bs @ frame (filter_data p n bs) @ frame (meta_data po n bs) @
      frame (index_data n bs seps) @ Footer_EncodeTo (table_footer po n bs seps) []"
    using assms(3) by (simp add: table_file_def pre_index_def pre_meta_def)
  from ReadBlock_at [OF assms(1) this, of "opt_paranoid_checks (t_options t)"] show ?thesis
    using BlockHandle_roundtrip [of "handle_at (base n bs) (filter_data p n bs)" "[]"] assms(2)
    by (auto simp: Table_ReadFilter_def)
qed

lemma ReadMeta_ok:
  assumes tab: "table_ok f bs seps" and t: "t_file t = Read f" "t_options t = Opt" "t_filter t = None"
  shows "Table_ReadMeta (table_footer po n bs seps) t =
    Some (t\<lparr>t_filter := map_option (\<lambda>p. mk_FilterBlockReader (filter_data p n bs)) po\<rparr>)"
proof (cases po)
  case None
  then show ?thesis using t by (simp add: Table_ReadMeta_def)
next
  case (Some p)
  let ?e = "(filter_meta_key p, BlockHandle_EncodeTo (handle_at (base n bs) (filter_data p n bs)) [])"
  let ?I = "block_iterator Bytewise_Compare"
  have m: "meta_data po n bs = build_block n [?e]" by (simp add: meta_data_def Some)
  have srt: "bytewise.sorted_entries [?e]" by (simp add: bytewise.sorted_entries_def)
  from bytewise.build_block_iter [OF Opt_restart srt] small_blocks(2) [OF tab] m obtain it where
    it: "Block_NewIterator (mk_Block (meta_data po n bs)) = Inr it" "bytewise.blk_iter_at it [?e] 1" by auto
  then have "bytewise.block_iterator_at (Inr it) [?e] 1" by (simp add: bytewise.block_iterator_at_def)
  from kv_iterator.Seek_at [OF bytewise.block_iterator_contract this, of "filter_meta_key p"]
  have at: "bytewise.block_iterator_at (it_Seek ?I (filter_meta_key p) (Inr it)) [?e] 0"
    by (simp add: seek_pos_def bytewise.Compare_irrefl)
  have seek: "it_Valid ?I (it_Seek ?I (filter_meta_key p) (Inr it))" "it_key ?I (it_Seek ?I (filter_meta_key p) (Inr it)) = filter_meta_key p"
    "it_value ?I (it_Seek ?I (filter_meta_key p) (Inr it)) = snd ?e"
    using kv_iterator.Valid_at [OF bytewise.block_iterator_contract at] kv_iterator.key_at [OF bytewise.block_iterator_contract at]
      kv_iterator.value_at [OF bytewise.block_iterator_contract at] by simp_all
  have "table_file po n bs seps = pre_meta po n bs @ frame (meta_data po n bs) @
      frame (index_data n bs seps) @ Footer_EncodeTo (table_footer po n bs seps) []"
    by (simp add: table_file_def pre_index_def)
  from ReadBlock_at [OF tab this, of "opt_paranoid_checks Opt"] obtain x where
    r: "ReadBlock (Read f) (opt_paranoid_checks Opt) (metaindex_handle (table_footer po n bs seps)) =
      Some (Inr \<lparr>bc_data = meta_data po n bs, bc_cachable = x, bc_heap_allocated = x\<rparr>)" by (auto simp: table_footer_def)
  show ?thesis
    using seek ReadFilter_ok [OF tab t(1) Some] unfolding Table_ReadMeta_def t Some option.case r [unfolded Some]
    by (simp add: Let_def it(1) [unfolded Some])
qed

lemma Open_ok:
  assumes tab: "table_ok f bs seps"
  shows "\<exists>t. Table_Open Opt (Read f) (of_nat (length (contents f))) cid = Some (Inr t) \<and> opened f t bs seps \<and> t_cache_id t = cid"
proof -
  let ?a = "pre_index po n bs @ frame (index_data n bs seps)" and ?F = "Footer_EncodeTo (table_footer po n bs seps) []"
  have c: "good f" "contents f = ?a @ ?F @ []" "length (contents f) < 2 ^ 32"
    using tab by (auto simp: table_ok_def table_file_def)
  then have len: "length (contents f) = length ?a + kEncodedLength" by simp
  have sz: "unat (of_nat (length (contents f)) :: uint64) = length ?a + kEncodedLength"
    "unat (of_nat (length (contents f)) - of_nat kEncodedLength :: uint64) = length ?a"
    "unat (of_nat kEncodedLength :: uint64) = kEncodedLength"
    using unat_split [of "length ?a" kEncodedLength] c(3) unfolding len by blast+
  obtain x where foot: "Read f (of_nat (length (contents f)) - of_nat kEncodedLength) (of_nat kEncodedLength) = Some (Status_OK, ?F, x)"
    using Read_range [OF c(1,2), of "of_nat (length (contents f)) - of_nat kEncodedLength" "of_nat kEncodedLength"] sz by auto
  have "table_file po n bs seps = pre_index po n bs @ frame (index_data n bs seps) @ ?F" by (simp add: table_file_def)
  from ReadBlock_at [OF tab this, of "opt_paranoid_checks Opt"] obtain y where
    idx: "ReadBlock (Read f) (opt_paranoid_checks Opt) (index_handle (table_footer po n bs seps)) =
      Some (Inr \<lparr>bc_data = index_data n bs seps, bc_cachable = y, bc_heap_allocated = y\<rparr>)" by (auto simp: table_footer_def)
  have F: "Footer_DecodeFrom ?F = Some (Inr (table_footer po n bs seps, []))"
    using Footer_roundtrip [of "table_footer po n bs seps" "[]"] by simp
  let ?t = "\<lparr>t_options = Opt, t_file = Read f, t_cache_id = cid, t_filter = None,
    t_metaindex_handle = metaindex_handle (table_footer po n bs seps), t_index_block = mk_Block (index_data n bs seps)\<rparr>"
  have "Table_Open Opt (Read f) (of_nat (length (contents f))) cid = map_option Inr (Table_ReadMeta (table_footer po n bs seps) ?t)"
    unfolding Table_Open_def sz(1) foot option.case prod.case F sum.case idx by (simp add: Status_ok_iff)
  then show ?thesis
    using ReadMeta_ok [OF tab, of ?t] tab by (simp add: opened_def table_footer_def)
qed

subsection \<open>The index\<close>

lemma block_nonempty: "table_ok f bs seps \<Longrightarrow> j < length bs \<Longrightarrow> bs ! j \<noteq> []"
  unfolding table_ok_def by (metis nth_mem)

lemma block_sorted:
  assumes "table_ok f bs seps" and "j < length bs"
  shows "sorted_entries (bs ! j)"
proof -
  have "concat bs = concat (take j bs) @ bs ! j @ concat (drop (Suc j) bs)"
    using arg_cong [OF id_take_nth_drop [OF assms(2)], of concat] by simp
  then show ?thesis using assms(1) by (auto simp: table_ok_def sorted_entries_def sorted_wrt_append)
qed

lemma later_block:
  assumes "i < j" "j < length bs" "e \<in> set (bs ! j)"
  shows "e \<in> set (concat (drop (Suc i) bs))"
proof -
  have "drop (Suc i) bs ! (j - Suc i) = bs ! j" "j - Suc i < length (drop (Suc i) bs)" using assms by auto
  then have "bs ! j \<in> set (drop (Suc i) bs)" by (metis nth_mem)
  then show ?thesis using assms(3) by auto
qed

lemma entry_ok: "table_ok f bs seps \<Longrightarrow> j < length bs \<Longrightarrow> e \<in> set (bs ! j) \<Longrightarrow> ok (fst e)"
  using block_sorted sorted_entries_def by blast

lemma sepD:
  assumes "table_ok f bs seps" and "j < length bs"
  shows "ok (seps ! j)" "e \<in> set (bs ! j) \<Longrightarrow> \<not> cmp_Compare c (seps ! j) (fst e) < 0"
    "j < k \<Longrightarrow> k < length bs \<Longrightarrow> e \<in> set (bs ! k) \<Longrightarrow> cmp_Compare c (seps ! j) (fst e) < 0"
  using assms later_block [of j k bs e] by (auto simp: table_ok_def sep_ok_def)

lemma sep_less:
  assumes "table_ok f bs seps" "i < j" "j < length bs"
  shows "cmp_Compare c (seps ! i) (seps ! j) < 0"
proof -
  obtain e where e: "e \<in> set (bs ! j)" using block_nonempty [OF assms(1,3)] by (meson list.set_sel(1))
  then have "cmp_Compare c (seps ! i) (fst e) < 0" "\<not> cmp_Compare c (seps ! j) (fst e) < 0" "ok (fst e)" "ok (seps ! i)" "ok (seps ! j)"
    using sepD [OF assms(1), of i] sepD [OF assms(1), of j] entry_ok [OF assms(1)] assms(2,3) by auto
  then show ?thesis using Compare_less_le_trans [of "seps ! i" "fst e" "seps ! j"] Compare_not_less by blast
qed

lemma index_sorted: "table_ok f bs seps \<Longrightarrow> sorted_entries (index_entries n bs seps)"
  using sep_less sepD(1)
  by (auto simp: sorted_entries_def index_entries_def sorted_wrt_iff_nth_less table_ok_def)

lemma index_iter:
  assumes "table_ok f bs seps"
  shows "\<exists>it. Block_NewIterator (mk_Block (index_data n bs seps)) = Inr it \<and>
    block_iterator_at (Inr it) (index_entries n bs seps) (length (index_entries n bs seps))"
  using build_block_iter [of 1 "index_entries n bs seps"] index_sorted [OF assms] small_blocks(1) [OF assms]
  by (auto simp: index_data_def block_iterator_at_def)

lemma data_iter:
  assumes "table_ok f bs seps" and "j < length bs"
  shows "\<exists>it. Block_NewIterator (mk_Block (build_block n (bs ! j))) = Inr it \<and> block_iterator_at (Inr it) (bs ! j) (length (bs ! j))"
  using build_block_iter [OF Opt_restart block_sorted [OF assms] small_blocks(5) [OF assms]] by (auto simp: block_iterator_at_def)

text \<open>The handles of the blocks differ, already in their offsets.\<close>

lemma base_length: "i < j \<Longrightarrow> j \<le> length bs \<Longrightarrow> length (base n (take i bs)) < length (base n (take j bs))"
proof -
  assume "i < j" "j \<le> length bs"
  then have "base n (take j bs) = base n (take i bs) @ frame (build_block n (bs ! i)) @ base n (drop (Suc i) (take j bs))"
    using base_split [of i "take j bs"] by (simp add: min_def)
  then show ?thesis by (simp add: frame_def)
qed

lemma offset_unat: "table_ok f bs seps \<Longrightarrow> j \<le> length bs \<Longrightarrow> unat (of_nat (length (base n (take j bs))) :: uint64) = length (base n (take j bs))"
  using small_blocks(4) base_length [of j "length bs" bs] by (cases "j = length bs") (force simp: unat_of_nat_small)+

lemma offset_inj:
  assumes "table_ok f bs seps" "i < length bs" "j < length bs" "bh_offset (block_handle n bs i) = bh_offset (block_handle n bs j)"
  shows "i = j"
proof -
  have "unat (bh_offset (block_handle n bs k)) = length (base n (take k bs))" if "k < length bs" for k
    using offset_unat [OF assms(1), of k] that by (simp add: block_handle_def)
  then have "length (base n (take i bs)) = length (base n (take j bs))" using assms(2-4) by metis
  then show ?thesis using base_length [of i j bs] base_length [of j i bs] assms(2,3) by (cases i j rule: linorder_cases) auto
qed

subsection \<open>Blocks and the cache\<close>

text \<open>A cache is coherent if what it holds for a block of this table is that block.\<close>

definition cache_ok :: "Table \<Rightarrow> entry list list \<Rightarrow> block_cache \<Rightarrow> bool" where
  "cache_ok t bs cache \<longleftrightarrow> (\<forall>m. cache = Some m \<longrightarrow> (\<forall>j<length bs. \<forall>b. m (cache_key t (block_handle n bs j)) = Some b \<longrightarrow>
     b = mk_Block (build_block n (bs ! j))))"

lemma cache_key_inj: "cache_key t h = cache_key t h' \<Longrightarrow> bh_offset h = bh_offset h'"
  using DecodeFixed64_Encode [of "bh_offset h" "[]"] DecodeFixed64_Encode [of "bh_offset h'" "[]"] by (simp add: cache_key_def)

lemma BlockReader_ok:
  assumes op: "opened f t bs seps" and j: "j < length bs" and cache: "cache_ok t bs cache"
  shows "\<exists>cache'. Table_BlockReader t ro cache (BlockHandle_EncodeTo (block_handle n bs j) []) =
      (Some (Block_NewIterator (mk_Block (build_block n (bs ! j)))), cache') \<and> cache_ok t bs cache'"
proof -
  have tab: "table_ok f bs seps" and f: "t_file t = Read f" using op by (simp_all add: opened_def)
  obtain x where x: "ReadBlock (Read f) (ro_verify_checksums ro) (block_handle n bs j) =
      Some (Inr \<lparr>bc_data = build_block n (bs ! j), bc_cachable = x, bc_heap_allocated = x\<rparr>)"
    using ReadBlock_data [OF tab j] by blast
  have h: "BlockHandle_DecodeFrom (BlockHandle_EncodeTo (block_handle n bs j) []) = Inr (block_handle n bs j, [])"
    using BlockHandle_roundtrip [of "block_handle n bs j" "[]"] by simp
  show ?thesis
  proof (cases "Option.bind cache (\<lambda>m. m (cache_key t (block_handle n bs j)))")
    case None
    have "i = j" if "i < length bs" "cache_key t (block_handle n bs i) = cache_key t (block_handle n bs j)" for i
      using offset_inj [OF tab that(1) j] cache_key_inj [OF that(2)] .
    then have same: "mk_Block (build_block n (bs ! j)) = mk_Block (build_block n (bs ! i))"
      if "i < length bs" "cache_key t (block_handle n bs i) = cache_key t (block_handle n bs j)" for i using that by blast
    then have "cache_ok t bs (map_option (\<lambda>m. m(cache_key t (block_handle n bs j) \<mapsto> mk_Block (build_block n (bs ! j)))) cache)"
      using cache unfolding cache_ok_def by (auto split: if_splits)
    then show ?thesis using None cache x f by (simp add: Table_BlockReader_def h Let_def)
  next
    case (Some b)
    then have "b = mk_Block (build_block n (bs ! j))" using cache j by (auto simp: cache_ok_def bind_eq_Some_conv)
    then show ?thesis using Some cache by (simp add: Table_BlockReader_def h)
  qed
qed

subsection \<open>The iterator over a table\<close>

text \<open>The entries of the block of a handle.\<close>

definition block_of :: "entry list list \<Rightarrow> bytes \<Rightarrow> entry list" where
  "block_of bs h = the (map_of (map (\<lambda>j. (BlockHandle_EncodeTo (block_handle n bs j) [], bs ! j)) [0..<length bs]) h)"

lemma block_of_handle:
  assumes "table_ok f bs seps" and "j < length bs"
  shows "block_of bs (BlockHandle_EncodeTo (block_handle n bs j) []) = bs ! j"
proof -
  have "inj_on (\<lambda>j. BlockHandle_EncodeTo (block_handle n bs j) []) {0..<length bs}"
    using offset_inj [OF assms(1)] BlockHandle_inj by (intro inj_onI) (metis atLeastLessThan_iff)
  then have "distinct (map fst (map (\<lambda>j. (BlockHandle_EncodeTo (block_handle n bs j) [], bs ! j)) [0..<length bs]))"
    by (simp add: comp_def distinct_map)
  moreover have "(BlockHandle_EncodeTo (block_handle n bs j) [], bs ! j) \<in>
      set (map (\<lambda>j. (BlockHandle_EncodeTo (block_handle n bs j) [], bs ! j)) [0..<length bs])" using assms(2) by auto
  ultimately have "map_of (map (\<lambda>j. (BlockHandle_EncodeTo (block_handle n bs j) [], bs ! j)) [0..<length bs])
      (BlockHandle_EncodeTo (block_handle n bs j) []) = Some (bs ! j)" by (rule map_of_is_SomeI)
  then show ?thesis by (simp add: block_of_def)
qed

end

sublocale table_reader \<subseteq> tab: two_level ok "cmp_Compare c" "block_iterator (cmp_Compare c)" block_iterator_at
  "opt_iter (block_iterator (cmp_Compare c))" "case_option (\<lambda>es i. False) block_iterator_at" bf for bf
  by (intro two_level.intro block_iterator_contract opt_contract)

context table_reader
begin

lemma length_index: "table_ok f bs seps \<Longrightarrow> length (index_entries n bs seps) = length bs"
  by (simp add: index_entries_def table_ok_def)

lemma index_nth: "table_ok f bs seps \<Longrightarrow> j < length bs \<Longrightarrow>
    index_entries n bs seps ! j = (seps ! j, BlockHandle_EncodeTo (block_handle n bs j) [])"
  by (simp add: index_entries_def table_ok_def)

lemma index_contents:
  fixes ro
  assumes "opened f t bs seps" and "cache_ok t bs cache"
  defines "bf \<equiv> \<lambda>h. fst (Table_BlockReader t ro cache h)"
  shows "tab.index_ok bf (block_of bs) (index_entries n bs seps)" "tab.flat (block_of bs) (index_entries n bs seps) = concat bs"
proof -
  have tab: "table_ok f bs seps" using assms(1) by (simp add: opened_def)
  note len = length_index [OF tab] and nth = index_nth [OF tab] and blk = block_of_handle [OF tab]
  have "\<exists>q. case_option (\<lambda>es i. False) block_iterator_at (bf (BlockHandle_EncodeTo (block_handle n bs j) [])) (bs ! j) q"
    if "j < length bs" for j
    using BlockReader_ok [OF assms(1) that assms(2), of ro] data_iter [OF tab that] by (auto simp: bf_def)
  then show "tab.index_ok bf (block_of bs) (index_entries n bs seps)"
    unfolding tab.index_ok_def using sepD [OF tab]
    by (auto simp: all_set_conv_all_nth sorted_wrt_iff_nth_less len nth blk)
  have "map (\<lambda>x. block_of bs (snd x)) (index_entries n bs seps) = bs"
    by (rule nth_equalityI) (simp_all add: len nth blk)
  then show "tab.flat (block_of bs) (index_entries n bs seps) = concat bs" by (simp add: tab.flat_def)
qed

lemma NewIterator_at:
  assumes "opened f t bs seps" and "cache_ok t bs cache"
  shows "tab.two_level_at (\<lambda>h. fst (Table_BlockReader t ro cache h)) (Some (Table_NewIterator t)) (concat bs) (length (concat bs))"
proof -
  have tab: "table_ok f bs seps" using assms(1) by (simp add: opened_def)
  obtain it where it: "Block_NewIterator (mk_Block (index_data n bs seps)) = Inr it"
    "block_iterator_at (Inr it) (index_entries n bs seps) (length (index_entries n bs seps))" using index_iter [OF tab] by blast
  note idx = index_contents(1) [OF assms, of ro] index_contents(2) [OF assms]
  have "sorted_entries (concat bs)" using tab by (simp add: table_ok_def)
  then show ?thesis
    using tab.NewTwoLevelIterator_at [OF it(2) idx(1)] assms(1) it(1) unfolding idx(2)
    by (simp add: Table_NewIterator_def opened_def)
qed

lemma table_contract:
  "opened f t bs seps \<Longrightarrow> kv_iterator ok (cmp_Compare c) (table_iter t ro cache) (tab.two_level_at (\<lambda>h. fst (Table_BlockReader t ro cache h)))"
  using tab.two_level_contract by (simp add: table_iter_def opened_def Opt_comparator Let_def)

subsection \<open>Point lookups\<close>

text \<open>The first entry at or after a key.\<close>

definition first_from :: "bytes \<Rightarrow> entry list \<Rightarrow> entry option" where
  "first_from k es = find (\<lambda>e. \<not> cmp_Compare c (fst e) k < 0) es"

lemma first_from_seek: "first_from k es = (if seek_pos (cmp_Compare c) es k < length es then Some (es ! seek_pos (cmp_Compare c) es k) else None)"
  unfolding first_from_def seek_pos_def by (induction es) auto

lemma first_from_append: "first_from k (xs @ ys) = (case first_from k xs of Some e \<Rightarrow> Some e | None \<Rightarrow> first_from k ys)"
  unfolding first_from_def by (induction xs) auto

lemma first_from_None: "first_from k es = None \<longleftrightarrow> (\<forall>e\<in>set es. cmp_Compare c (fst e) k < 0)"
  by (auto simp: first_from_def find_None_iff)

lemma first_from_hd: "es \<noteq> [] \<Longrightarrow> \<not> cmp_Compare c (fst (hd es)) k < 0 \<Longrightarrow> first_from k es = Some (hd es)"
  by (cases es) (auto simp: first_from_def)

lemma seek_block:
  fixes k
  assumes tab: "table_ok f bs seps" and k: "ok k"
  defines "p \<equiv> seek_pos (cmp_Compare c) (index_entries n bs seps) k"
  shows "p \<le> length bs" and "j < p \<Longrightarrow> e \<in> set (bs ! j) \<Longrightarrow> cmp_Compare c (fst e) k < 0"
    and "p < length bs \<Longrightarrow> \<not> cmp_Compare c (seps ! p) k < 0"
proof -
  note len = length_index [OF tab] and nth = index_nth [OF tab]
  show le: "p \<le> length bs" using tw_le [of _ "index_entries n bs seps"] by (simp add: p_def seek_pos_tw len)
  show "\<not> cmp_Compare c (seps ! p) k < 0" if "p < length bs"
    using tw_at [of "\<lambda>e. cmp_Compare c (fst e) k < 0" "index_entries n bs seps"] that by (simp add: p_def seek_pos_tw len nth)
  show "cmp_Compare c (fst e) k < 0" if j: "j < p" and e: "e \<in> set (bs ! j)"
  proof -
    have jl: "j < length bs" using j le by simp
    have "cmp_Compare c (seps ! j) k < 0"
      using tw_before [of j "\<lambda>e. cmp_Compare c (fst e) k < 0" "index_entries n bs seps"] j nth [OF jl] by (simp add: p_def seek_pos_tw)
    moreover have "cmp_Compare c (fst e) (seps ! j) \<le> 0"
      using sepD(1,2) [OF tab jl] e Compare_not_less entry_ok [OF tab jl e] by blast
    ultimately show ?thesis using Compare_le_less_trans entry_ok [OF tab jl e] sepD(1) [OF tab jl] k by blast
  qed
qed

text \<open>
  The first entry of the table from the key on is in the block that the index gives, or it is the first
  entry of the next block and belongs to another user key.
\<close>

lemma first_from_block:
  fixes k
  assumes tab: "table_ok f bs seps" and k: "ok k"
  defines "p \<equiv> seek_pos (cmp_Compare c) (index_entries n bs seps) k"
  shows "p = length bs \<Longrightarrow> first_from k (concat bs) = None"
    and "p < length bs \<Longrightarrow> first_from k (bs ! p) = Some e \<Longrightarrow> first_from k (concat bs) = Some e"
    and "p < length bs \<Longrightarrow> first_from k (bs ! p) = None \<Longrightarrow> first_from k (concat bs) = Some e \<Longrightarrow> \<not> same k (fst e)"
proof -
  note sb = seek_block [OF tab k, folded p_def]
  have before: "first_from k (concat (take p bs)) = None"
    unfolding first_from_None
  proof
    fix e assume "e \<in> set (concat (take p bs))"
    then obtain j where "j < p" "e \<in> set (bs ! j)" using sb(1) by (auto simp: in_set_conv_nth [of _ "take p bs"])
    then show "cmp_Compare c (fst e) k < 0" by (rule sb(2))
  qed
  have spl: "concat bs = concat (take p bs) @ bs ! p @ concat (drop (Suc p) bs)" if "p < length bs"
    using arg_cong [OF id_take_nth_drop [OF that], of concat] by simp
  show "first_from k (concat bs) = None" if "p = length bs" using before that by simp
  show "first_from k (concat bs) = Some e" if "p < length bs" "first_from k (bs ! p) = Some e"
    using before that by (simp add: spl first_from_append)
  show "\<not> same k (fst e)" if p: "p < length bs" "first_from k (bs ! p) = None" "first_from k (concat bs) = Some e"
  proof -
    let ?later = "concat (drop (Suc p) bs)"
    have F: "first_from k ?later = Some e" using before p by (simp add: spl first_from_append)
    then have ne: "?later \<noteq> []" unfolding first_from_def by (metis find.simps(1) option.distinct(1))
    have "sep_ok bs [] seps" "p < length seps" using tab p(1) by (simp_all add: table_ok_def)
    then have sep: "\<forall>e\<in>set ?later. cmp_Compare c (seps ! p) (fst e) < 0"
      "seps ! p = cmp_FindShortestSeparator c (fst (last (bs ! p))) (fst (hd ?later))"
      unfolding sep_ok_def append_Nil2 using hd_in_take_1 [OF ne] by blast+
    have lok: "\<And>x. x \<in> set (concat bs) \<Longrightarrow> ok (fst x)" and srt: "sorted_entries (concat bs)"
      using tab unfolding table_ok_def sorted_entries_def by blast+
    have h: "hd ?later \<in> set ?later" using ne by (rule list.set_sel(1))
    then have hok: "ok (fst (hd ?later))" using lok [of "hd ?later"] spl [OF p(1)] by (metis UnCI set_append)
    have kle: "cmp_Compare c k (seps ! p) \<le> 0" using sb(3) [OF p(1)] sepD(1) [OF tab p(1)] k Compare_not_less by blast
    then have "cmp_Compare c k (fst (hd ?later)) < 0" using sep(1) h hok k sepD(1) [OF tab p(1)] Compare_le_less_trans by blast
    then have "\<not> cmp_Compare c (fst (hd ?later)) k < 0" using Compare_flip [OF hok k] by linarith
    then have e: "e = hd ?later" using first_from_hd [OF ne] F by simp
    have l: "last (bs ! p) \<in> set (bs ! p)" using block_nonempty [OF tab p(1)] by simp
    then have "cmp_Compare c (fst (last (bs ! p))) k < 0" using p(2) by (simp add: first_from_None)
    moreover have "cmp_Compare c (fst (last (bs ! p))) (fst (hd ?later)) < 0"
      using srt l h unfolding spl [OF p(1)] sorted_entries_def sorted_wrt_append set_append by blast
    ultimately show ?thesis
      using separator_split [of "fst (last (bs ! p))" "fst (hd ?later)" k] kle sep(2) e hok k entry_ok [OF tab p(1) l] by simp
  qed
qed

text \<open>The filter never rejects a key of the same user key as an entry of the block.\<close>

lemma filter_calls_sorted:
  assumes "table_ok f bs seps"
  shows "sorted (map fst (filter_calls n bs []))"
proof -
  have m: "map fst (filter_calls n bs []) = map (\<lambda>j. of_nat (length (base n (take j bs)))) [0..<Suc (length bs)]"
    by (simp add: filter_calls_def block_handle_def comp_def)
  have "length (base n (take i bs)) \<le> length (base n (take j bs))" if "i \<le> j" "j \<le> length bs" for i j
    using base_length [of i j bs] that by (cases "i = j") auto
  then show ?thesis
    unfolding m sorted_iff_nth_mono using offset_unat [OF assms] by (simp add: word_le_nat_alt del: upt_Suc)
qed

lemma filter_ok:
  assumes tab: "table_ok f bs seps" and p: "po = Some p" and j: "j < length bs"
  defines "may \<equiv> FilterBlock_KeyMayMatch (fp_KeyMayMatch p) (mk_FilterBlockReader (filter_data p n bs)) (bh_offset (block_handle n bs j))"
  shows "\<exists>b. may k = Some b" "e \<in> set (bs ! j) \<Longrightarrow> same k (fst e) \<Longrightarrow> may k = Some True"
proof -
  have mem: "(bh_offset (block_handle n bs j), map fst (bs ! j)) \<in> set (filter_calls n bs [])"
    using j by (auto simp: filter_calls_def)
  have all: "may (fst e) = Some True" if "e \<in> set (bs ! j)" for e
    using filter_policy.filter_block_no_false_negative [OF Opt_filter [OF p] filter_calls_sorted [OF tab] _ mem, of "fst e"]
      small_blocks(3) [OF tab p] that by (simp add: may_def filter_data_def)
  obtain x where "x \<in> set (bs ! j)" using block_nonempty [OF tab j] by (meson list.set_sel(1))
  from FilterBlock_total [OF all [OF this, unfolded may_def]] show "\<exists>b. may k = Some b" by (simp add: may_def)
  show "may k = Some True" if "e \<in> set (bs ! j)" "same k (fst e)"
    using all [OF that(1)] FilterBlock_cong [where match = "fp_KeyMayMatch p", OF filter_same [OF p that(2)]] by (simp add: may_def)
qed

lemma InternalGet_ok:
  assumes op: "opened f t bs seps" and cache: "cache_ok t bs cache" and k: "ok k"
  shows "\<exists>called cache'. Table_InternalGet t ro k saver arg cache =
      Some (Status_OK, case first_from k (concat bs) of Some e \<Rightarrow> if called then saver (fst e) (snd e) arg else arg | None \<Rightarrow> arg, cache') \<and>
    cache_ok t bs cache' \<and> (\<forall>e. first_from k (concat bs) = Some e \<and> same k (fst e) \<longrightarrow> called)"
proof -
  have tab: "table_ok f bs seps" and t: "t_options t = Opt" "t_index_block t = mk_Block (index_data n bs seps)"
    "t_filter t = map_option (\<lambda>p. mk_FilterBlockReader (filter_data p n bs)) po" using op by (simp_all add: opened_def)
  let ?I = "block_iterator (cmp_Compare c)" and ?idx = "index_entries n bs seps"
  define p where "p = seek_pos (cmp_Compare c) ?idx k"
  note fb = first_from_block [OF tab k, folded p_def]
  obtain it where it: "Block_NewIterator (mk_Block (index_data n bs seps)) = Inr it" "block_iterator_at (Inr it) ?idx (length ?idx)"
    using index_iter [OF tab] by blast
  define iiter where "iiter = it_Seek ?I k (Inr it)"
  have at: "block_iterator_at iiter ?idx p"
    using kv_iterator.Seek_at [OF block_iterator_contract it(2) k] by (simp add: p_def iiter_def)
  have st: "it_status ?I iiter = Status_OK" using kv_iterator.status_at [OF block_iterator_contract at] by (simp add: Status_ok_iff)
  have va: "it_Valid ?I iiter \<longleftrightarrow> p < length bs" using kv_iterator.Valid_at [OF block_iterator_contract at] length_index [OF tab] by simp
  show ?thesis
  proof (cases "p < length bs")
    case False
    then have "p = length bs" using seek_block(1) [OF tab k] by (simp add: p_def)
    then show ?thesis
      using fb(1) va st cache by (auto simp: Table_InternalGet_def t it(1) Opt_comparator iiter_def [symmetric] Let_def Status_ok_iff)
  next
    case True
    let ?h = "BlockHandle_EncodeTo (block_handle n bs p) []"
    have val: "it_value ?I iiter = ?h"
      using kv_iterator.value_at [OF block_iterator_contract at] True length_index [OF tab] index_nth [OF tab True] by simp
    define may where "may = (case (t_filter t, po, BlockHandle_DecodeFrom ?h) of
        (Some g, Some policy, Inr (handle, _)) \<Rightarrow> FilterBlock_KeyMayMatch (fp_KeyMayMatch policy) g (bh_offset handle) k | _ \<Rightarrow> Some True)"
    have "BlockHandle_DecodeFrom ?h = Inr (block_handle n bs p, [])" using BlockHandle_roundtrip [of "block_handle n bs p" "[]"] by simp
    then have m: "may = (case po of None \<Rightarrow> Some True | Some q \<Rightarrow> FilterBlock_KeyMayMatch (fp_KeyMayMatch q)
        (mk_FilterBlockReader (filter_data q n bs)) (bh_offset (block_handle n bs p)) k)"
      unfolding may_def t(3) by (cases po) simp_all
    have may: "\<exists>b. may = Some b" "e \<in> set (bs ! p) \<Longrightarrow> same k (fst e) \<Longrightarrow> may = Some True" for e
      using filter_ok(1) [OF tab _ True, of _ k] filter_ok(2) [OF tab _ True, of _ e k] unfolding m by (cases po; auto)+
    obtain b where b: "may = Some b" using may(1) by blast
    obtain cache' where br: "Table_BlockReader t ro cache ?h = (Some (Block_NewIterator (mk_Block (build_block n (bs ! p)))), cache')"
      "cache_ok t bs cache'" using BlockReader_ok [OF op True cache] by blast
    obtain it2 where it2: "Block_NewIterator (mk_Block (build_block n (bs ! p))) = Inr it2" "block_iterator_at (Inr it2) (bs ! p) (length (bs ! p))"
      using data_iter [OF tab True] by blast
    define biter where "biter = it_Seek ?I k (Inr it2)"
    have at2: "block_iterator_at biter (bs ! p) (seek_pos (cmp_Compare c) (bs ! p) k)"
      using kv_iterator.Seek_at [OF block_iterator_contract it2(2) k] by (simp add: biter_def)
    note C = block_iterator_contract
    have arg: "(if it_Valid ?I biter then saver (it_key ?I biter) (it_value ?I biter) arg else arg) =
        (case first_from k (bs ! p) of None \<Rightarrow> arg | Some e \<Rightarrow> saver (fst e) (snd e) arg)" "it_status ?I biter = Status_OK"
      using kv_iterator.Valid_at [OF C at2] kv_iterator.key_at [OF C at2] kv_iterator.value_at [OF C at2] kv_iterator.status_at [OF C at2]
      by (simp_all add: first_from_seek Status_ok_iff)
    have get: "Table_InternalGet t ro k saver arg cache =
        (if b then Some (Status_OK, case first_from k (bs ! p) of None \<Rightarrow> arg | Some e \<Rightarrow> saver (fst e) (snd e) arg, cache')
         else Some (Status_OK, arg, cache))"
      using True st va b arg unfolding Table_InternalGet_def t(1,2) Opt_comparator it(1) iiter_def [symmetric] Let_def val may_def [symmetric] br(1)
      by (cases b) (auto simp: it2(1) biter_def [symmetric] Status_ok_iff split: if_splits)
    show ?thesis
    proof (cases "first_from k (bs ! p)")
      case None
      then show ?thesis using get fb(3) [OF True None] cache br(2) by (intro exI [of _ False] exI [of _ "if b then cache' else cache"]) (auto split: option.splits)
    next
      case (Some e)
      then have "e \<in> set (bs ! p)" by (auto simp: first_from_def find_Some_iff)
      then show ?thesis using get fb(2) [OF True Some] Some may(2) b cache br(2)
        by (intro exI [of _ b] exI [of _ "if b then cache' else cache"]) auto
    qed
  qed
qed

end

subsection \<open>The comparators and filter policies of the program\<close>

definition BytewiseComparator :: Comparator where
  "BytewiseComparator =
     \<lparr>cmp_addr = 1, cmp_Name = str ''leveldb.BytewiseComparator'', cmp_Compare = Bytewise_Compare,
      cmp_FindShortestSeparator = Bytewise_FindShortestSeparator, cmp_FindShortSuccessor = Bytewise_FindShortSuccessor\<rparr>"

definition InternalKeyComparator :: "Comparator \<Rightarrow> Comparator" where
  "InternalKeyComparator user =
     \<lparr>cmp_addr = cmp_addr user + 1, cmp_Name = str ''leveldb.InternalKeyComparator'', cmp_Compare = InternalKey_Compare (cmp_Compare user),
      cmp_FindShortestSeparator = InternalKey_FindShortestSeparator (cmp_Compare user) (cmp_FindShortestSeparator user),
      cmp_FindShortSuccessor = InternalKey_FindShortSuccessor (cmp_Compare user) (cmp_FindShortSuccessor user)\<rparr>"

definition NewBloomFilterPolicy :: "nat \<Rightarrow> FilterPolicy" where
  "NewBloomFilterPolicy bpk =
     \<lparr>fp_Name = str ''leveldb.BuiltinBloomFilter2'', fp_CreateFilter = Bloom_CreateFilter (mk_BloomFilterPolicy bpk),
      fp_KeyMayMatch = Bloom_KeyMayMatch\<rparr>"

definition InternalFilterPolicy :: "FilterPolicy \<Rightarrow> FilterPolicy" where
  "InternalFilterPolicy user =
     \<lparr>fp_Name = fp_Name user, fp_CreateFilter = InternalFilterPolicy_CreateFilter (fp_CreateFilter user),
      fp_KeyMayMatch = InternalFilterPolicy_KeyMayMatch (fp_KeyMayMatch user)\<rparr>"

definition mk_Options :: Options where
  "mk_Options =
     \<lparr>opt_comparator = BytewiseComparator, opt_paranoid_checks = False, opt_block_size = 4096, opt_block_restart_interval = 16,
      opt_compression = kSnappyCompression, opt_filter_policy = None, opt_create_if_missing = False, opt_error_if_exists = False,
      opt_write_buffer_size = 4 * 2 ^ 20, opt_max_open_files = 1000\<rparr>"

definition mk_ReadOptions :: ReadOptions where
  "mk_ReadOptions = \<lparr>ro_verify_checksums = False, ro_fill_cache = True\<rparr>"

text \<open>The options the database gives to its tables (\<^verbatim>\<open>SanitizeOptions\<close>).\<close>

definition db_table_options :: "Options \<Rightarrow> Options" where
  "db_table_options src =
     src\<lparr>opt_comparator := InternalKeyComparator (opt_comparator src), opt_filter_policy := map_option InternalFilterPolicy (opt_filter_policy src)\<rparr>"

text \<open>A sequence of lookups, each returning the entry it was given, if any; the block cache is kept from one to the next.\<close>

fun table_lookups :: "Table \<Rightarrow> ReadOptions \<Rightarrow> bytes list \<Rightarrow> block_cache \<Rightarrow> entry option list option" where
  "table_lookups t ro [] cache = Some []"
| "table_lookups t ro (k # ks) cache =
     (case Table_InternalGet t ro k (\<lambda>k v _. Some (k, v)) None cache of
        Some (s, r, cache) \<Rightarrow> if Status_ok s then map_option ((#) r) (table_lookups t ro ks cache) else None
      | None \<Rightarrow> None)"

context table_reader
begin

lemma lookups_ok:
  assumes op: "opened f t bs seps" and "cache_ok t bs cache" and "\<forall>k\<in>set ks. ok k"
  shows "\<exists>rs. table_lookups t ro ks cache = Some rs \<and> list_all2 (\<lambda>k r. (r = None \<or> r = first_from k (concat bs)) \<and>
    (\<forall>e. first_from k (concat bs) = Some e \<and> same k (fst e) \<longrightarrow> r = Some e)) ks rs"
  using assms(2,3)
proof (induction ks arbitrary: cache)
  case (Cons k ks)
  have k: "ok k" using Cons.prems(2) by simp
  from InternalGet_ok [OF op Cons.prems(1) k, of ro "\<lambda>k v _. Some (k, v)" None] obtain called cache' where
    g: "Table_InternalGet t ro k (\<lambda>k v _. Some (k, v)) None cache =
      Some (Status_OK, case first_from k (concat bs) of Some e \<Rightarrow> if called then Some (fst e, snd e) else None | None \<Rightarrow> None, cache')"
    "cache_ok t bs cache'" "\<forall>e. first_from k (concat bs) = Some e \<and> same k (fst e) \<longrightarrow> called" by blast
  have ks: "\<forall>k\<in>set ks. ok k" using Cons.prems(2) by simp
  from Cons.IH [OF g(2) ks] show ?case using g(1,3) by (cases "first_from k (concat bs)") (auto simp: Status_ok_iff)
qed simp

end

context internal_key_order
begin

lemma separator_other_key:
  assumes "InternalKey_Compare ucmp start limit < 0" and "InternalKey_Compare ucmp start k < 0"
    and "InternalKey_Compare ucmp k (InternalKey_FindShortestSeparator ucmp usep start limit) \<le> 0"
  shows "ExtractUserKey k \<noteq> ExtractUserKey limit"
proof (cases "length (usep (ExtractUserKey start) (ExtractUserKey limit)) < length (ExtractUserKey start) \<and>
    ucmp (ExtractUserKey start) (usep (ExtractUserKey start) (ExtractUserKey limit)) < 0")
  case True
  let ?u = "usep (ExtractUserKey start) (ExtractUserKey limit)"
  have "ExtractUserKey start \<noteq> ExtractUserKey limit" using True separator_same by auto
  then have "ucmp (ExtractUserKey start) (ExtractUserKey limit) < 0" using assms(1) by (simp add: InternalKey_Compare_less)
  then have less: "ucmp ?u (ExtractUserKey limit) < 0" using user.separator_between by blast
  have "ucmp (ExtractUserKey k) ?u \<le> 0"
    using assms(3) True
    by (auto simp: InternalKey_FindShortestSeparator_def Let_def PutFixed64_def InternalKey_Compare_less InternalKey_Compare_0
        order_le_less user.Compare_refl)
  then show ?thesis using less user.Compare_not_less [of ?u "ExtractUserKey limit"] by auto
next
  case False
  then have "InternalKey_FindShortestSeparator ucmp usep start limit = start"
    by (auto simp: InternalKey_FindShortestSeparator_def Let_def)
  then have "\<not> InternalKey_Compare ucmp start k < 0" using assms(3) InternalKey_Compare_gt [of k start] by simp
  then show ?thesis using assms(2) by simp
qed

end

lemma ikey_comparator_simps [simp]:
  "cmp_Compare (InternalKeyComparator BytewiseComparator) = InternalKey_Compare Bytewise_Compare"
  "cmp_FindShortestSeparator (InternalKeyComparator BytewiseComparator) =
     InternalKey_FindShortestSeparator Bytewise_Compare Bytewise_FindShortestSeparator"
  "cmp_FindShortSuccessor (InternalKeyComparator BytewiseComparator) =
     InternalKey_FindShortSuccessor Bytewise_Compare Bytewise_FindShortSuccessor"
  by (simp_all add: InternalKeyComparator_def BytewiseComparator_def)

interpretation bytewise_table: table_comparator "\<lambda>_. True" BytewiseComparator
  unfolding table_comparator_def BytewiseComparator_def by (simp add: bytewise.shortening_comparator_axioms)

interpretation ikey_table: table_comparator ikey_ok "InternalKeyComparator BytewiseComparator"
  unfolding table_comparator_def by (simp add: ikey.internal.shortening_comparator_axioms)

interpretation ibloom: filter_policy "InternalFilterPolicy_CreateFilter (Bloom_CreateFilter (mk_BloomFilterPolicy bpk))"
  "InternalFilterPolicy_KeyMayMatch Bloom_KeyMayMatch" for bpk
  by unfold_locales
    (simp_all only: InternalFilterPolicy_CreateFilter_def InternalFilterPolicy_KeyMayMatch_def,
     rule bloom.CreateFilter_appends, rule bloom.no_false_negative, simp)

text \<open>Options for tables with internal keys, with or without a Bloom filter.\<close>

definition ikey_options :: "Options \<Rightarrow> nat option \<Rightarrow> bool" where
  "ikey_options Opt bits \<longleftrightarrow> opt_comparator Opt = InternalKeyComparator BytewiseComparator \<and> 1 \<le> opt_block_restart_interval Opt \<and>
     opt_filter_policy Opt = map_option (\<lambda>b. InternalFilterPolicy (NewBloomFilterPolicy b)) bits"

lemma ikey_writer:
  "ikey_options Opt bits \<Longrightarrow>
     table_writer ikey_ok (InternalKeyComparator BytewiseComparator) posix_file wr_data (\<lambda>w. wr_space w = None \<and> \<not> wr_failed w) Opt"
  unfolding table_writer_def table_writer_axioms_def
  by (simp add: ikey_table.table_comparator_axioms posix_reliable.reliable_file_axioms ikey_options_def)

lemma ikey_reader:
  assumes "ikey_options Opt bits" and "random_file Read contents good"
  shows "table_reader ikey_ok (InternalKeyComparator BytewiseComparator) Read contents good Opt (\<lambda>a b. ExtractUserKey a = ExtractUserKey b)"
proof -
  have "InternalKey_Compare Bytewise_Compare start limit < 0 \<Longrightarrow> InternalKey_Compare Bytewise_Compare start k < 0 \<Longrightarrow>
      InternalKey_Compare Bytewise_Compare k (InternalKey_FindShortestSeparator Bytewise_Compare Bytewise_FindShortestSeparator start limit) \<le> 0 \<Longrightarrow>
      ExtractUserKey k \<noteq> ExtractUserKey limit" for start limit k by (rule ikey.separator_other_key)
  then show ?thesis
    unfolding table_reader_def table_reader_axioms_def using assms ibloom.filter_policy_axioms
    by (auto simp: ikey_table.table_comparator_axioms ikey_options_def InternalFilterPolicy_def NewBloomFilterPolicy_def
        InternalFilterPolicy_KeyMayMatch_def)
qed

lemma db_options_ikey: "ikey_options (db_table_options (mk_Options\<lparr>opt_filter_policy := map_option NewBloomFilterPolicy bits\<rparr>)) bits"
  by (cases bits) (simp_all add: ikey_options_def db_table_options_def mk_Options_def)

interpretation db_writer: table_writer ikey_ok "InternalKeyComparator BytewiseComparator" posix_file wr_data
  "\<lambda>w. wr_space w = None \<and> \<not> wr_failed w" "db_table_options (mk_Options\<lparr>opt_filter_policy := map_option NewBloomFilterPolicy bits\<rparr>)" for bits
  by (rule ikey_writer [OF db_options_ikey])

interpretation db_reader: table_reader ikey_ok "InternalKeyComparator BytewiseComparator" PosixRandomAccess_Read pra_data
  "\<lambda>f. \<not> pra_bad f \<and> length (pra_data f) < 2 ^ 63" "db_table_options (mk_Options\<lparr>opt_filter_policy := map_option NewBloomFilterPolicy bits\<rparr>)"
  "\<lambda>a b. ExtractUserKey a = ExtractUserKey b" for bits
  by (rule ikey_reader [OF db_options_ikey pread.random_file_axioms])

lemma ikey_built:
  assumes opt: "ikey_options Opt bits" and built: "build_table posix_file Opt es (new_file []) = (s, r)"
    and es: "sorted_wrt (\<lambda>a b. InternalKey_Compare Bytewise_Compare (fst a) (fst b) < 0) es" "\<forall>e\<in>set es. ikey_ok (fst e)"
  shows "s = Status_OK" and "\<exists>bs seps. concat bs = es \<and> [] \<notin> set bs \<and> length bs = length seps \<and> ikey_table.sep_ok bs [] seps \<and>
    (bs \<noteq> [] \<longrightarrow> last seps = cmp_FindShortSuccessor (InternalKeyComparator BytewiseComparator) (fst (last (last bs)))) \<and>
    wr_data (tb_file r) = table_file (opt_filter_policy Opt) (opt_block_restart_interval Opt) bs seps \<and>
    TableBuilder_FileSize r = of_nat (length (wr_data (tb_file r)))"
proof -
  have srt: "ikey_table.sorted_entries es" unfolding ikey_table.sorted_entries_def using es by simp
  have new: "wr_space (new_file []) = None \<and> \<not> wr_failed (new_file [])" "wr_data (new_file []) = []" by (simp_all add: new_file_def)
  from table_writer.build_table_layout [OF ikey_writer [OF opt] new srt] obtain bs seps r' where
    b: "build_table posix_file Opt es (new_file []) = (Status_OK, r')" "concat bs = es" "[] \<notin> set bs" "length bs = length seps"
    "ikey_table.sep_ok bs [] seps"
    "bs \<noteq> [] \<longrightarrow> last seps = cmp_FindShortSuccessor (InternalKeyComparator BytewiseComparator) (fst (last (last bs)))"
    "wr_data (tb_file r') = table_file (opt_filter_policy Opt) (opt_block_restart_interval Opt) bs seps"
    "TableBuilder_FileSize r' = of_nat (length (wr_data (tb_file r')))" by blast
  have r: "s = Status_OK" "r' = r" using b(1) built by simp_all
  show "s = Status_OK" by (rule r(1))
  show "\<exists>bs seps. concat bs = es \<and> [] \<notin> set bs \<and> length bs = length seps \<and> ikey_table.sep_ok bs [] seps \<and>
    (bs \<noteq> [] \<longrightarrow> last seps = cmp_FindShortSuccessor (InternalKeyComparator BytewiseComparator) (fst (last (last bs)))) \<and>
    wr_data (tb_file r) = table_file (opt_filter_policy Opt) (opt_block_restart_interval Opt) bs seps \<and>
    TableBuilder_FileSize r = of_nat (length (wr_data (tb_file r)))"
    using b(2-) unfolding r(2) by blast
qed

text \<open>A table built from sorted internal keys is read back from any file that holds its bytes.\<close>

lemma ikey_table_read:
  assumes opt: "ikey_options Opt bits" and raf: "random_file Read contents good" "good f" "contents f = wr_data (tb_file r)"
    and es: "sorted_wrt (\<lambda>a b. InternalKey_Compare Bytewise_Compare (fst a) (fst b) < 0) es" "\<forall>e\<in>set es. ikey_ok (fst e)"
    and built: "build_table posix_file Opt es (new_file []) = (s, r)" and small: "length (wr_data (tb_file r)) < 2 ^ 32"
  shows "s = Status_OK"
    and "\<exists>t. Table_Open Opt (Read f) (TableBuilder_FileSize r) cid = Some (Inr t) \<and>
      (\<forall>ro. \<exists>at. kv_iterator ikey_ok (InternalKey_Compare Bytewise_Compare) (table_iter t ro None) at \<and> at (Some (Table_NewIterator t)) es (length es)) \<and>
      (\<forall>ro ks use_cache. (\<forall>k\<in>set ks. ikey_ok k) \<longrightarrow> (\<exists>rs. table_lookups t ro ks (if use_cache then Some Map.empty else None) = Some rs \<and>
        list_all2 (\<lambda>k r. let fe = find (\<lambda>e. \<not> InternalKey_Compare Bytewise_Compare (fst e) k < 0) es in (r = None \<or> r = fe) \<and>
          (\<forall>e. fe = Some e \<and> ExtractUserKey k = ExtractUserKey (fst e) \<longrightarrow> r = Some e)) ks rs))"
proof -
  note R = ikey_reader [OF opt raf(1)]
  have srt: "ikey_table.sorted_entries es" unfolding ikey_table.sorted_entries_def using es by simp
  from ikey_built(2) [OF opt built es] obtain bs seps where
    b: "concat bs = es" "[] \<notin> set bs" "length bs = length seps" "ikey_table.sep_ok bs [] seps"
    "wr_data (tb_file r) = table_file (opt_filter_policy Opt) (opt_block_restart_interval Opt) bs seps"
    "TableBuilder_FileSize r = of_nat (length (wr_data (tb_file r)))" by blast
  then have "table_reader.table_ok ikey_ok (InternalKeyComparator BytewiseComparator) contents good Opt f bs seps"
    using raf small srt by (simp add: table_reader.table_ok_def [OF R])
  from table_reader.Open_ok [OF R this, of cid] obtain t where
    t: "Table_Open Opt (Read f) (TableBuilder_FileSize r) cid = Some (Inr t)"
    "table_reader.opened ikey_ok (InternalKeyComparator BytewiseComparator) Read contents good Opt f t bs seps"
    using raf(3) b(6) by auto
  have cache: "table_reader.cache_ok Opt t bs (if use_cache then Some Map.empty else None)" for use_cache
    by (simp add: table_reader.cache_ok_def [OF R])
  show "s = Status_OK" by (rule ikey_built(1) [OF opt built es])
  show "\<exists>t. Table_Open Opt (Read f) (TableBuilder_FileSize r) cid = Some (Inr t) \<and>
      (\<forall>ro. \<exists>at. kv_iterator ikey_ok (InternalKey_Compare Bytewise_Compare) (table_iter t ro None) at \<and> at (Some (Table_NewIterator t)) es (length es)) \<and>
      (\<forall>ro ks use_cache. (\<forall>k\<in>set ks. ikey_ok k) \<longrightarrow> (\<exists>rs. table_lookups t ro ks (if use_cache then Some Map.empty else None) = Some rs \<and>
        list_all2 (\<lambda>k r. let fe = find (\<lambda>e. \<not> InternalKey_Compare Bytewise_Compare (fst e) k < 0) es in (r = None \<or> r = fe) \<and>
          (\<forall>e. fe = Some e \<and> ExtractUserKey k = ExtractUserKey (fst e) \<longrightarrow> r = Some e)) ks rs))"
    using t(1) table_reader.table_contract [OF R t(2), where cache = None] table_reader.NewIterator_at [OF R t(2) cache [of False, simplified]]
      table_reader.lookups_ok [OF R t(2) cache] b(1)
    by (intro exI [of _ t]) (auto simp: table_reader.first_from_def [OF R] Let_def)
qed

end
