(* ===== verification/Table_Props.thy ===== *)
theory Table_Props
  imports Table_Correct
begin

text \<open>
  The properties of tables as the database uses them: entries with internal keys, written to a new
  file and read back with \<^verbatim>\<open>pread\<close> or through a mapping.
\<close>

subsection \<open>How long a table gets\<close>

lemma Add_bounds:
  "length (bb_buffer (BlockBuilder_Add n k v b)) \<le> length (bb_buffer b) + (15 + length k + length v)"
  "length (bb_restarts (BlockBuilder_Add n k v b)) \<le> length (bb_restarts b) + 1"
proof -
  have "length (EncodeVarint32 x) + (length (EncodeVarint32 y) + length (EncodeVarint32 z)) \<le> 15" for x y z
    using length_EncodeVarint32 [of x] length_EncodeVarint32 [of y] length_EncodeVarint32 [of z] by simp
  then show "length (bb_buffer (BlockBuilder_Add n k v b)) \<le> length (bb_buffer b) + (15 + length k + length v)"
    unfolding BlockBuilder_Add_def Let_def PutVarint32_def
    by (auto simp: add.assoc [symmetric] intro!: add_mono intro: order_trans [OF _ le_add1])
  show "length (bb_restarts (BlockBuilder_Add n k v b)) \<le> length (bb_restarts b) + 1"
    by (simp add: BlockBuilder_Add_def Let_def)
qed

lemma length_build_block: "length (build_block n es) \<le> 8 + (\<Sum>e\<leftarrow>es. 19 + length (fst e) + length (snd e))"
proof -
  have "length (bb_buffer (blk n es)) \<le> (\<Sum>e\<leftarrow>es. 15 + length (fst e) + length (snd e)) \<and> length (bb_restarts (blk n es)) \<le> 1 + length es"
  proof (induction es rule: rev_induct)
    case (snoc e es)
    then show ?case
      using Add_bounds [of n "fst e" "snd e" "blk n es"] by (simp add: blk_snoc)
  qed (simp add: blk_def mk_BlockBuilder_def)
  moreover have "(\<Sum>e\<leftarrow>es. 19 + length (fst e) + length (snd e)) = (\<Sum>e\<leftarrow>es. 15 + length (fst e) + length (snd e)) + 4 * length es"
    by (induction es) auto
  moreover have "length (build_block n es) = length (bb_buffer (blk n es)) + 4 * length (bb_restarts (blk n es)) + 4"
    unfolding Finish_blk [symmetric] by (simp add: BlockBuilder_Finish_def foldl_PutFixed32 PutFixed32_def Let_def)
  ultimately show ?thesis by simp
qed

lemma sum_list_nth: "(\<Sum>j\<leftarrow>[0..<length xs]. f (xs ! j)) = (\<Sum>x\<leftarrow>xs. f x)"
  by (rule arg_cong [of _ _ sum_list], rule nth_equalityI) simp_all

lemma length_frame: "length (frame d) = length d + 5"
  by (simp add: frame_def)

lemma length_index_data:
  "length (index_data n bs seps) \<le> 8 + (\<Sum>s\<leftarrow>seps. 39 + length s)"
proof -
  have "(\<Sum>e\<leftarrow>index_entries n bs seps. 19 + length (fst e) + length (snd e)) \<le> (\<Sum>j\<leftarrow>[0..<length seps]. 39 + length (seps ! j))"
    unfolding index_entries_def map_map comp_def
    by (rule sum_list_mono) (use length_BlockHandle in \<open>simp add: kMaxEncodedLength_def\<close>)
  also have "\<dots> = (\<Sum>s\<leftarrow>seps. 39 + length s)" by (rule sum_list_nth)
  finally show ?thesis using length_build_block [of 1 "index_entries n bs seps"] by (simp add: index_data_def)
qed

text \<open>While all blocks start in the first two kilobytes there is only one filter.\<close>

lemma build_filters_small:
  assumes "\<forall>x\<in>set calls. unat (fst x) < 2048"
  shows "fb_result (build_filters cr calls) = [] \<and> fb_filter_offsets (build_filters cr calls) = [] \<and>
    length (fb_start (build_filters cr calls)) = (\<Sum>x\<leftarrow>calls. length (snd x))"
  using assms
proof (induction calls rule: rev_induct)
  case (snoc x calls)
  have keys: "fb_result (foldl (\<lambda>b k. AddKey k b) b ks) = fb_result b \<and> fb_filter_offsets (foldl (\<lambda>b k. AddKey k b) b ks) = fb_filter_offsets b \<and>
    length (fb_start (foldl (\<lambda>b k. AddKey k b) b ks)) = length (fb_start b) + length ks" for b ks
    by (induction ks arbitrary: b) (simp_all add: AddKey_def)
  have "StartBlock cr (fst x) b = b" for b using snoc.prems by (simp add: StartBlock_def kFilterBase_def kFilterBaseLg_def)
  then show ?case using snoc keys by (cases x) (simp add: build_filters_snoc)
qed (simp add: build_filters_def FilterBlockBuilder_init_def)

lemma length_filter_data:
  assumes "\<forall>x\<in>set (filter_calls n bs []). unat (fst x) < 2048" and "fp_CreateFilter p = InternalFilterPolicy_CreateFilter (Bloom_CreateFilter (mk_BloomFilterPolicy bpk))"
  shows "length (filter_data p n bs) \<le> 24 + length (concat bs) * bpk"
proof -
  let ?b = "build_filters (fp_CreateFilter p) (filter_calls n bs [])"
  have "(\<Sum>x\<leftarrow>filter_calls n bs []. length (snd x)) = (\<Sum>j\<leftarrow>[0..<length bs]. length (bs ! j))"
    by (simp add: filter_calls_def comp_def)
  also have "\<dots> = length (concat bs)" by (simp add: sum_list_nth [where f = length] length_concat)
  finally have b: "fb_result ?b = []" "fb_filter_offsets ?b = []" "length (fb_start ?b) = length (concat bs)"
    using build_filters_small [OF assms(1), of "fp_CreateFilter p"] by simp_all
  show ?thesis
    unfolding filter_data_def
    by (cases "fb_start ?b = []")
      (use b assms(2) in \<open>auto simp: Filter_Finish_def GenerateFilter_def Let_def PutFixed32_def InternalFilterPolicy_CreateFilter_def
        Bloom_CreateFilter_def mk_BloomFilterPolicy_def\<close>)
qed

subsection \<open>A small table\<close>

text \<open>Two versions of one key, in a table with a Bloom filter.\<close>

definition demo_options :: Options where
  "demo_options = db_table_options (mk_Options\<lparr>opt_filter_policy := Some (NewBloomFilterPolicy 10)\<rparr>)"

definition demo_entries :: "entry list" where
  "demo_entries = [(InternalKey [1] 5 kTypeValue, [9]), (InternalKey [1] 3 kTypeValue, [7, 7])]"

lemma demo_ikey: "ikey_options demo_options (Some 10)"
  using db_options_ikey [of "Some 10"] by (simp add: demo_options_def)

lemma demo_sorted:
  "sorted_wrt (\<lambda>a b. InternalKey_Compare Bytewise_Compare (fst a) (fst b) < 0) demo_entries" "\<forall>e\<in>set demo_entries. ikey_ok (fst e)"
  by (unfold demo_entries_def) code_simp+

lemma demo_keys:
  "length (InternalKey [1] 5 kTypeValue) = 9" "length (InternalKey [1] 3 kTypeValue) = 9"
  "InternalKey_FindShortestSeparator Bytewise_Compare Bytewise_FindShortestSeparator (InternalKey [1] 5 kTypeValue) (InternalKey [1] 3 kTypeValue) =
     InternalKey [1] 5 kTypeValue"
  "InternalKey_FindShortSuccessor Bytewise_Compare Bytewise_FindShortSuccessor (InternalKey [1] 3 kTypeValue) = InternalKey [1] 3 kTypeValue"
  by code_simp+

lemma concat_Nil_blocks: "concat bs = [] \<Longrightarrow> [] \<notin> set bs \<Longrightarrow> bs = []"
  by (cases bs) auto

lemma concat_Cons_blocks:
  assumes "concat bs = a # es" and "[] \<notin> set bs"
  obtains y xs where "bs = (a # y) # xs" "y @ concat xs = es" "[] \<notin> set xs"
proof -
  obtain x xs where bs: "bs = x # xs" "x \<noteq> []" using assms by (cases bs) auto
  then obtain y where "x = a # y" "y @ concat xs = es" using assms(1) by (cases x) auto
  then show ?thesis using that bs(1) assms(2) by simp
qed

lemma concat_two:
  assumes "concat bs = [a, b]" and "[] \<notin> set bs"
  shows "bs = [[a, b]] \<or> bs = [[a], [b]]"
proof -
  obtain y xs where y: "bs = (a # y) # xs" "y @ concat xs = [b]" "[] \<notin> set xs" using concat_Cons_blocks [OF assms] .
  show ?thesis
  proof (cases y)
    case Nil
    then obtain z zs where "xs = (b # z) # zs" "z @ concat zs = []" "[] \<notin> set zs"
      using concat_Cons_blocks [of xs b "[]"] y(2,3) by auto
    then show ?thesis using Nil y concat_Nil_blocks [of zs] by simp
  next
    case (Cons c z)
    then show ?thesis using y concat_Nil_blocks [of xs] by simp
  qed
qed

lemma demo_small:
  assumes built: "build_table posix_file demo_options demo_entries (new_file []) = (s, r)"
  shows "length (wr_data (tb_file r)) < 2 ^ 32"
proof -
  let ?a = "(InternalKey [1] 5 kTypeValue, [9 :: byte])" and ?b = "(InternalKey [1] 3 kTypeValue, [7, 7 :: byte])"
  define p where "p = InternalFilterPolicy (NewBloomFilterPolicy 10)"
  have opt: "opt_filter_policy demo_options = Some p" "opt_block_restart_interval demo_options = 16"
    by (simp_all add: demo_options_def db_table_options_def mk_Options_def p_def)
  from ikey_built(2) [OF demo_ikey built demo_sorted] obtain bs seps where b: "concat bs = [?a, ?b]" "[] \<notin> set bs" "length bs = length seps"
    "ikey_table.sep_ok bs [] seps" "bs \<noteq> [] \<longrightarrow> last seps = cmp_FindShortSuccessor (InternalKeyComparator BytewiseComparator) (fst (last (last bs)))"
    "wr_data (tb_file r) = table_file (Some p) 16 bs seps" unfolding opt demo_entries_def by blast
  have sizes: "length (build_block 16 [?a, ?b]) < 100" "length (build_block 16 [?a]) < 100" "length (build_block 16 [?b]) < 100"
    using length_build_block [of 16 "[?a, ?b]"] length_build_block [of 16 "[?a]"] length_build_block [of 16 "[?b]"] by (simp_all add: demo_keys)
  have base: "length (base 16 (take j bs)) < 300" for j
    using concat_two [OF b(1,2)] sizes by (cases j; cases "j - 1") (auto simp: base_def length_frame)
  have seps: "(\<Sum>s\<leftarrow>seps. 39 + length s) \<le> 100"
    using concat_two [OF b(1,2)]
  proof
    assume "bs = [[?a, ?b]]"
    then show ?thesis using b(3,5) by (cases seps) (auto simp: demo_keys)
  next
    assume bs: "bs = [[?a], [?b]]"
    then obtain s1 s2 where s: "seps = [s1, s2]" using b(3) by (cases seps; cases "tl seps") auto
    have "s1 = InternalKey [1] 5 kTypeValue" using b(4) unfolding ikey_table.sep_ok_def s bs by (auto simp: demo_keys)
    then show ?thesis using b(5) s bs by (simp add: demo_keys)
  qed
  have off: "unat (of_nat (length (base 16 (take j bs))) :: uint64) < 2048" for j
    using base [of j] by (simp add: unat_of_nat_small)
  have "\<forall>x\<in>set (filter_calls 16 bs []). unat (fst x) < 2048"
    using off off [of "length bs"] by (auto simp: filter_calls_def block_handle_def)
  then have fil: "length (filter_data p 16 bs) \<le> 44"
    using length_filter_data [of 16 bs p 10] b(1) by (simp add: p_def InternalFilterPolicy_def NewBloomFilterPolicy_def)
  have meta: "length (meta_data (Some p) 16 bs) \<le> 100"
    using length_build_block [of 16 "[(filter_meta_key p, BlockHandle_EncodeTo (handle_at (base 16 bs) (filter_data p 16 bs)) [])]"]
      length_BlockHandle [of "handle_at (base 16 bs) (filter_data p 16 bs)"]
    by (simp add: meta_data_def kMaxEncodedLength_def p_def InternalFilterPolicy_def NewBloomFilterPolicy_def filter_meta_key_def)
  show ?thesis
    using base [of "length bs"] fil meta seps length_index_data [of 16 bs seps]
    by (simp add: b(6) table_file_def pre_index_def pre_meta_def length_frame kEncodedLength_def kMaxEncodedLength_def)
qed

subsection \<open>Properties\<close>

text \<open>
  C19: a table gives back its entries: for internal keys in increasing order the builder succeeds, the
  file it wrote can be opened, a scan of the table returns exactly the entries that were added, and a
  seek leads to the first entry at or after the target, for any block size, restart interval and
  Bloom filter.
\<close>

theorem table_roundtrip:
  assumes "ikey_options Opt bits"
    and "sorted_wrt (\<lambda>a b. InternalKey_Compare Bytewise_Compare (fst a) (fst b) < 0) es" and "\<forall>e\<in>set es. ikey_ok (fst e)"
    and "build_table posix_file Opt es (new_file []) = (s, r)" and "length (wr_data (tb_file r)) < 2 ^ 32" and "ikey_ok k"
  shows "s = Status_OK \<and>
    (\<exists>t. Table_Open Opt (PosixRandomAccess_Read \<lparr>pra_filename = [], pra_data = wr_data (tb_file r), pra_bad = False, pra_error = []\<rparr>)
        (TableBuilder_FileSize r) 0 = Some (Inr t) \<and>
      it_scan (table_iter t ro None) (length es) (Some (Table_NewIterator t)) = es \<and>
      it_collect (table_iter t ro None) (length es) (it_Seek (table_iter t ro None) k (Some (Table_NewIterator t))) =
        dropWhile (\<lambda>e. InternalKey_Compare Bytewise_Compare (fst e) k < 0) es)"
proof -
  define f where "f = \<lparr>pra_filename = [], pra_data = wr_data (tb_file r), pra_bad = False, pra_error = []\<rparr>"
  have f: "\<not> pra_bad f \<and> length (pra_data f) < 2 ^ 63" "pra_data f = wr_data (tb_file r)" using assms(5) by (simp_all add: f_def)
  note R = ikey_table_read [OF assms(1) pread.random_file_axioms f assms(2,3,4,5)]
  from R(2) [of 0] obtain t where t: "Table_Open Opt (PosixRandomAccess_Read f) (TableBuilder_FileSize r) 0 = Some (Inr t)"
    "\<And>ro. \<exists>at. kv_iterator ikey_ok (InternalKey_Compare Bytewise_Compare) (table_iter t ro None) at \<and> at (Some (Table_NewIterator t)) es (length es)"
    by blast
  from t(2) [of ro] obtain at where at: "kv_iterator ikey_ok (InternalKey_Compare Bytewise_Compare) (table_iter t ro None) at"
    "at (Some (Table_NewIterator t)) es (length es)" by blast
  have "it_collect (table_iter t ro None) (length es) (it_Seek (table_iter t ro None) k (Some (Table_NewIterator t))) =
      drop (seek_pos (InternalKey_Compare Bytewise_Compare) es k) es"
    using kv_iterator.collect_at [OF at(1) kv_iterator.Seek_at [OF at assms(6)]] by simp
  then show ?thesis
    using R(1) t(1) kv_iterator.scan_at [OF at] unfolding f_def by (auto simp: seek_pos_def dropWhile_eq_drop)
qed

theorem table_roundtrip_witness:
  "\<exists>r t. build_table posix_file demo_options demo_entries (new_file []) = (Status_OK, r) \<and>
    Table_Open demo_options (PosixRandomAccess_Read \<lparr>pra_filename = [], pra_data = wr_data (tb_file r), pra_bad = False, pra_error = []\<rparr>)
      (TableBuilder_FileSize r) 0 = Some (Inr t) \<and>
    it_scan (table_iter t mk_ReadOptions None) 2 (Some (Table_NewIterator t)) = demo_entries \<and>
    it_collect (table_iter t mk_ReadOptions None) 2
      (it_Seek (table_iter t mk_ReadOptions None) (InternalKey [1] 4 kTypeValue) (Some (Table_NewIterator t))) =
      [(InternalKey [1] 3 kTypeValue, [7, 7])]"
proof -
  obtain s r where b: "build_table posix_file demo_options demo_entries (new_file []) = (s, r)" by fastforce
  have l: "length demo_entries = 2" by (simp add: demo_entries_def)
  have d: "dropWhile (\<lambda>e. InternalKey_Compare Bytewise_Compare (fst e) (InternalKey [1] 4 kTypeValue) < 0) demo_entries =
      [(InternalKey [1] 3 kTypeValue, [7, 7])]" unfolding demo_entries_def by code_simp
  from table_roundtrip [OF demo_ikey demo_sorted b demo_small [OF b], of "InternalKey [1] 4 kTypeValue" mk_ReadOptions]
  show ?thesis unfolding l d using b by auto
qed

text \<open>
  C20: point lookups through the index, the Bloom filter and the block cache: a sequence of lookups in a table that is
  read by \<^verbatim>\<open>pread\<close>, whose blocks go into the cache, or through a mapping, whose blocks do not, succeeds, with a
  block cache that starts empty or without one, and each either reports the first entry
  at or after its key or nothing; it does report that entry whenever it has the user key that is
  looked for.
\<close>

theorem table_lookups_sound:
  assumes "ikey_options Opt bits"
    and "sorted_wrt (\<lambda>a b. InternalKey_Compare Bytewise_Compare (fst a) (fst b) < 0) es" and "\<forall>e\<in>set es. ikey_ok (fst e)"
    and "build_table posix_file Opt es (new_file []) = (s, r)" and "length (wr_data (tb_file r)) < 2 ^ 32"
    and "rd = PosixRandomAccess_Read \<lparr>pra_filename = name, pra_data = wr_data (tb_file r), pra_bad = False, pra_error = e\<rparr> \<or>
      rd = PosixMmap_Read \<lparr>mm_filename = name, mm_region = wr_data (tb_file r), mm_einval = e\<rparr>"
    and "Table_Open Opt rd (TableBuilder_FileSize r) cid = Some (Inr t)" and "\<forall>k\<in>set ks. ikey_ok k"
  shows "\<exists>rs. table_lookups t ro ks (if use_cache then Some Map.empty else None) = Some rs \<and>
    list_all2 (\<lambda>k r. let fe = find (\<lambda>e. \<not> InternalKey_Compare Bytewise_Compare (fst e) k < 0) es in (r = None \<or> r = fe) \<and>
      (\<forall>e. fe = Some e \<and> ExtractUserKey k = ExtractUserKey (fst e) \<longrightarrow> r = Some e)) ks rs"
proof -
  define f where "f = \<lparr>pra_filename = name, pra_data = wr_data (tb_file r), pra_bad = False, pra_error = e\<rparr>"
  define m where "m = \<lparr>mm_filename = name, mm_region = wr_data (tb_file r), mm_einval = e\<rparr>"
  have f: "\<not> pra_bad f \<and> length (pra_data f) < 2 ^ 63" "pra_data f = wr_data (tb_file r)" using assms(5) by (simp_all add: f_def)
  have m: "length (mm_region m) < 2 ^ 64" "mm_region m = wr_data (tb_file r)" using assms(5) by (simp_all add: m_def)
  from assms(6) consider "rd = PosixRandomAccess_Read f" | "rd = PosixMmap_Read m" unfolding f_def m_def by blast
  then show ?thesis
  proof cases
    case 1
    from ikey_table_read(2) [OF assms(1) pread.random_file_axioms f assms(2,3,4,5), of cid] assms(7,8)
    show ?thesis unfolding 1 by auto
  next
    case 2
    from ikey_table_read(2) [OF assms(1) mmap.random_file_axioms m assms(2,3,4,5), of cid] assms(7,8)
    show ?thesis unfolding 2 by auto
  qed
qed

theorem table_lookups_sound_witness:
  "\<exists>r t. build_table posix_file demo_options demo_entries (new_file []) = (Status_OK, r) \<and>
    Table_Open demo_options (PosixRandomAccess_Read \<lparr>pra_filename = [], pra_data = wr_data (tb_file r), pra_bad = False, pra_error = []\<rparr>)
      (TableBuilder_FileSize r) 1 = Some (Inr t) \<and>
    table_lookups t mk_ReadOptions [InternalKey [1] 4 kTypeValue, InternalKey [1] 9 kTypeValue, InternalKey [1] 2 kTypeValue] (Some Map.empty) =
      Some [Some (InternalKey [1] 3 kTypeValue, [7, 7]), Some (InternalKey [1] 5 kTypeValue, [9]), None]"
proof -
  let ?ks = "[InternalKey [1] 4 kTypeValue, InternalKey [1] 9 kTypeValue, InternalKey [1] 2 kTypeValue]"
  obtain s r where b: "build_table posix_file demo_options demo_entries (new_file []) = (s, r)" by fastforce
  define f where "f = \<lparr>pra_filename = [], pra_data = wr_data (tb_file r), pra_bad = False, pra_error = []\<rparr>"
  have f: "\<not> pra_bad f \<and> length (pra_data f) < 2 ^ 63" "pra_data f = wr_data (tb_file r)" using demo_small [OF b] by (simp_all add: f_def)
  note R = ikey_table_read [OF demo_ikey pread.random_file_axioms f demo_sorted b demo_small [OF b]]
  from R(2) [of 1] obtain t where t: "Table_Open demo_options (PosixRandomAccess_Read f) (TableBuilder_FileSize r) 1 = Some (Inr t)" by blast
  have e: "find (\<lambda>e. \<not> InternalKey_Compare Bytewise_Compare (fst e) (InternalKey [1] 4 kTypeValue) < 0) demo_entries =
      Some (InternalKey [1] 3 kTypeValue, [7, 7])"
    "find (\<lambda>e. \<not> InternalKey_Compare Bytewise_Compare (fst e) (InternalKey [1] 9 kTypeValue) < 0) demo_entries =
      Some (InternalKey [1] 5 kTypeValue, [9])"
    "find (\<lambda>e. \<not> InternalKey_Compare Bytewise_Compare (fst e) (InternalKey [1] 2 kTypeValue) < 0) demo_entries = None"
    unfolding demo_entries_def by code_simp+
  from table_lookups_sound [OF demo_ikey demo_sorted b demo_small [OF b] disjI1 [OF refl] t [unfolded f_def], of ?ks mk_ReadOptions True] R(1) b t
  show ?thesis unfolding f_def by (auto simp: e list_all2_Cons1 Let_def)
qed

end
