(* ===== verification/Cache.thy ===== *)
theory Cache
  imports Bloom
begin

text \<open>
  The LRU cache (\<^verbatim>\<open>cache.cpp\<close>): a hash table with chained buckets that grows, a circular list in the
  order of use, and handles with reference counts, sixteen such shards beside each other.  The memory of
  a shard is explicit: addresses are numbers, 0 is \<^verbatim>\<open>NULL\<close> in the chains and the dummy head in the
  list, and the pointer fields \<^verbatim>\<open>next\<close>, \<^verbatim>\<open>prev\<close>, \<^verbatim>\<open>next_hash\<close> are functions of the address.  An operation
  gives \<^term>\<open>None\<close> when it touches a handle that was freed, or fails an assertion.
\<close>

subsection \<open>Handles and memory\<close>

record 'v LRUHandle =
  lh_value :: 'v
  lh_charge :: uint64
  lh_refs :: uint32
  lh_hash :: uint32
  lh_key :: bytes

record HandleTable =
  ht_length :: uint32
  ht_elems :: uint32
  ht_list :: "nat list"

text \<open>\<open>c_deleted\<close> records the calls of the deleters.\<close>

record 'v LRUCache =
  c_capacity :: uint64
  c_usage :: uint64
  c_handles :: "nat \<Rightarrow> 'v LRUHandle option"
  c_next :: "nat \<Rightarrow> nat"
  c_prev :: "nat \<Rightarrow> nat"
  c_next_hash :: "nat \<Rightarrow> nat"
  c_table :: HandleTable
  c_deleted :: "(bytes \<times> 'v) list"

text \<open>A handle whose \<^verbatim>\<open>next\<close> is itself holds a pointer to its key in \<^verbatim>\<open>value\<close>; no such handle is made.\<close>

definition LRUHandle_key :: "'v LRUCache \<Rightarrow> nat \<Rightarrow> bytes option" where
  "LRUHandle_key C e =
     (case c_handles C e of
        None \<Rightarrow> None
      | Some h \<Rightarrow> if c_next C e = e then None else Some (lh_key h))"

subsection \<open>The hash table\<close>

datatype slot = Bucket nat | NextHash nat

fun deref :: "'v LRUCache \<Rightarrow> slot \<Rightarrow> nat" where
  "deref C (Bucket i) = ht_list (c_table C) ! i"
| "deref C (NextHash e) = c_next_hash C e"

fun assign :: "slot \<Rightarrow> nat \<Rightarrow> 'v LRUCache \<Rightarrow> 'v LRUCache" where
  "assign (Bucket i) p C = C\<lparr>c_table := (c_table C)\<lparr>ht_list := (ht_list (c_table C))[i := p]\<rparr>\<rparr>"
| "assign (NextHash e) p C = C\<lparr>c_next_hash := (c_next_hash C)(e := p)\<rparr>"

partial_function (option) FindPointer_loop :: "'v LRUCache \<Rightarrow> bytes \<Rightarrow> uint32 \<Rightarrow> slot \<Rightarrow> slot option" where
  "FindPointer_loop C key hash ptr =
     (let p = deref C ptr
      in if p = 0 then Some ptr
         else
           (case c_handles C p of
              None \<Rightarrow> None
            | Some h \<Rightarrow>
                if lh_hash h \<noteq> hash then FindPointer_loop C key hash (NextHash p)
                else
                  (case LRUHandle_key C p of
                     None \<Rightarrow> None
                   | Some k \<Rightarrow> if key \<noteq> k then FindPointer_loop C key hash (NextHash p) else Some ptr)))"

declare FindPointer_loop.simps [code]

definition FindPointer :: "'v LRUCache \<Rightarrow> bytes \<Rightarrow> uint32 \<Rightarrow> slot option" where
  "FindPointer C key hash = FindPointer_loop C key hash (Bucket (unat (hash AND (ht_length (c_table C) - 1))))"

definition HandleTable_Lookup :: "bytes \<Rightarrow> uint32 \<Rightarrow> 'v LRUCache \<Rightarrow> nat option" where
  "HandleTable_Lookup key hash C = map_option (deref C) (FindPointer C key hash)"

partial_function (option) Resize_length :: "uint32 \<Rightarrow> uint32 \<Rightarrow> uint32 option" where
  "Resize_length elems new_length = (if new_length < elems then Resize_length elems (new_length * 2) else Some new_length)"

declare Resize_length.simps [code]

text \<open>The chain that starts at \<open>h\<close> is moved to the new buckets; the state is \<^verbatim>\<open>next_hash\<close>, the new buckets, the count.\<close>

partial_function (option) Resize_chain ::
  "(nat \<Rightarrow> 'v LRUHandle option) \<Rightarrow> uint32 \<Rightarrow> nat \<Rightarrow> (nat \<Rightarrow> nat) \<times> nat list \<times> uint32 \<Rightarrow> ((nat \<Rightarrow> nat) \<times> nat list \<times> uint32) option" where
  "Resize_chain H new_length h st =
     (if h = 0 then Some st
      else
        (case H h of
           None \<Rightarrow> None
         | Some lh \<Rightarrow>
             (let (nh, new_list, cnt) = st;
                  nxt = nh h;
                  i = unat (lh_hash lh AND (new_length - 1))
              in Resize_chain H new_length nxt (nh(h := new_list ! i), new_list[i := h], cnt + 1))))"

declare Resize_chain.simps [code]

fun Resize_buckets ::
  "(nat \<Rightarrow> 'v LRUHandle option) \<Rightarrow> uint32 \<Rightarrow> nat list \<Rightarrow> (nat \<Rightarrow> nat) \<times> nat list \<times> uint32 \<Rightarrow> ((nat \<Rightarrow> nat) \<times> nat list \<times> uint32) option" where
  "Resize_buckets H new_length [] st = Some st"
| "Resize_buckets H new_length (h # hs) st = Option.bind (Resize_chain H new_length h st) (Resize_buckets H new_length hs)"

definition HandleTable_Resize :: "'v LRUCache \<Rightarrow> 'v LRUCache option" where
  "HandleTable_Resize C =
     (case Resize_length (ht_elems (c_table C)) 4 of
        None \<Rightarrow> None
      | Some new_length \<Rightarrow>
          (case Resize_buckets (c_handles C) new_length (ht_list (c_table C)) (c_next_hash C, replicate (unat new_length) 0, 0) of
             None \<Rightarrow> None
           | Some (nh, new_list, cnt) \<Rightarrow>
               if ht_elems (c_table C) = cnt
               then Some (C\<lparr>c_next_hash := nh, c_table := (c_table C)\<lparr>ht_list := new_list, ht_length := new_length\<rparr>\<rparr>)
               else None))"

text \<open>\<^verbatim>\<open>Insert\<close> returns the entry it replaced, or 0.\<close>

definition HandleTable_Insert :: "nat \<Rightarrow> 'v LRUCache \<Rightarrow> (nat \<times> 'v LRUCache) option" where
  "HandleTable_Insert h C =
     (case (c_handles C h, LRUHandle_key C h) of
        (Some lh, Some key) \<Rightarrow>
          (case FindPointer C key (lh_hash lh) of
             None \<Rightarrow> None
           | Some ptr \<Rightarrow>
               (let old = deref C ptr;
                    C = C\<lparr>c_next_hash := (c_next_hash C)(h := if old = 0 then 0 else c_next_hash C old)\<rparr>;
                    C = assign ptr h C
                in if old = 0
                   then
                     (let C = C\<lparr>c_table := (c_table C)\<lparr>ht_elems := ht_elems (c_table C) + 1\<rparr>\<rparr>
                      in if ht_elems (c_table C) > ht_length (c_table C) then map_option (Pair old) (HandleTable_Resize C)
                         else Some (old, C))
                   else Some (old, C)))
      | _ \<Rightarrow> None)"

definition HandleTable_Remove :: "bytes \<Rightarrow> uint32 \<Rightarrow> 'v LRUCache \<Rightarrow> (nat \<times> 'v LRUCache) option" where
  "HandleTable_Remove key hash C =
     (case FindPointer C key hash of
        None \<Rightarrow> None
      | Some ptr \<Rightarrow>
          (let result = deref C ptr
           in if result \<noteq> 0
              then
                (let C = assign ptr (c_next_hash C result) C
                 in Some (result, C\<lparr>c_table := (c_table C)\<lparr>ht_elems := ht_elems (c_table C) - 1\<rparr>\<rparr>))
              else Some (result, C)))"

subsection \<open>One shard\<close>

definition mk_HandleTable :: HandleTable where
  "mk_HandleTable = \<lparr>ht_length = 4, ht_elems = 0, ht_list = replicate 4 0\<rparr>"

definition mk_LRUCache :: "uint64 \<Rightarrow> 'v LRUCache" where
  "mk_LRUCache capacity =
     \<lparr>c_capacity = capacity, c_usage = 0, c_handles = Map.empty, c_next = (\<lambda>_. 0), c_prev = (\<lambda>_. 0), c_next_hash = (\<lambda>_. 0),
      c_table = mk_HandleTable, c_deleted = []\<rparr>"

definition alive :: "'v LRUCache \<Rightarrow> nat \<Rightarrow> bool" where
  "alive C e \<longleftrightarrow> e = 0 \<or> c_handles C e \<noteq> None"

definition LRUCache_Unref :: "nat \<Rightarrow> 'v LRUCache \<Rightarrow> 'v LRUCache option" where
  "LRUCache_Unref e C =
     (case c_handles C e of
        None \<Rightarrow> None
      | Some h \<Rightarrow>
          if lh_refs h > 0
          then
            (let h = h\<lparr>lh_refs := lh_refs h - 1\<rparr>
             in if lh_refs h \<le> 0
                then map_option (\<lambda>key. C\<lparr>c_usage := c_usage C - lh_charge h, c_deleted := c_deleted C @ [(key, lh_value h)],
                                        c_handles := (c_handles C)(e := None)\<rparr>) (LRUHandle_key C e)
                else Some (C\<lparr>c_handles := (c_handles C)(e \<mapsto> h)\<rparr>))
          else None)"

definition LRU_Remove :: "nat \<Rightarrow> 'v LRUCache \<Rightarrow> 'v LRUCache option" where
  "LRU_Remove e C =
     (if alive C e \<and> alive C (c_next C e) \<and> alive C (c_prev C e)
      then
        (let C = C\<lparr>c_prev := (c_prev C)(c_next C e := c_prev C e)\<rparr>
         in Some (C\<lparr>c_next := (c_next C)(c_prev C e := c_next C e)\<rparr>))
      else None)"

definition LRU_Append :: "nat \<Rightarrow> 'v LRUCache \<Rightarrow> 'v LRUCache option" where
  "LRU_Append e C =
     (if alive C e \<and> alive C (c_prev C 0)
      then
        (let C = C\<lparr>c_next := (c_next C)(e := 0)\<rparr>;
             C = C\<lparr>c_prev := (c_prev C)(e := c_prev C 0)\<rparr>;
             C = C\<lparr>c_next := (c_next C)(c_prev C e := e)\<rparr>
         in Some (C\<lparr>c_prev := (c_prev C)(c_next C e := e)\<rparr>))
      else None)"

text \<open>The result is the handle, or 0.\<close>

definition LRUCache_Lookup :: "bytes \<Rightarrow> uint32 \<Rightarrow> 'v LRUCache \<Rightarrow> (nat \<times> 'v LRUCache) option" where
  "LRUCache_Lookup key hash C =
     (case HandleTable_Lookup key hash C of
        None \<Rightarrow> None
      | Some e \<Rightarrow>
          if e \<noteq> 0
          then
            (case c_handles C e of
               None \<Rightarrow> None
             | Some h \<Rightarrow>
                 (let C = C\<lparr>c_handles := (c_handles C)(e \<mapsto> h\<lparr>lh_refs := lh_refs h + 1\<rparr>)\<rparr>
                  in map_option (Pair e) (Option.bind (LRU_Remove e C) (LRU_Append e))))
          else Some (e, C))"

definition LRUCache_Release :: "nat \<Rightarrow> 'v LRUCache \<Rightarrow> 'v LRUCache option" where
  "LRUCache_Release handle C = LRUCache_Unref handle C"

partial_function (option) evict_loop :: "'v LRUCache \<Rightarrow> 'v LRUCache option" where
  "evict_loop C =
     (if c_usage C > c_capacity C \<and> c_next C 0 \<noteq> 0
      then
        (let old = c_next C 0
         in case LRU_Remove old C of
              None \<Rightarrow> None
            | Some C \<Rightarrow>
                (case (LRUHandle_key C old, c_handles C old) of
                   (Some key, Some h) \<Rightarrow>
                     (case HandleTable_Remove key (lh_hash h) C of
                        None \<Rightarrow> None
                      | Some (_, C) \<Rightarrow> (case LRUCache_Unref old C of None \<Rightarrow> None | Some C \<Rightarrow> evict_loop C))
                 | _ \<Rightarrow> None))
      else Some C)"

declare evict_loop.simps [code]

text \<open>\<open>e\<close> is the address that the allocator gives.\<close>

definition LRUCache_Insert :: "nat \<Rightarrow> bytes \<Rightarrow> uint32 \<Rightarrow> 'v \<Rightarrow> uint64 \<Rightarrow> 'v LRUCache \<Rightarrow> (nat \<times> 'v LRUCache) option" where
  "LRUCache_Insert e key hash val charge C =
     (let C = C\<lparr>c_handles := (c_handles C)(e \<mapsto> \<lparr>lh_value = val, lh_charge = charge, lh_refs = 2, lh_hash = hash, lh_key = key\<rparr>)\<rparr>
      in case LRU_Append e C of
           None \<Rightarrow> None
         | Some C \<Rightarrow>
             (let C = C\<lparr>c_usage := c_usage C + charge\<rparr>
              in case HandleTable_Insert e C of
                   None \<Rightarrow> None
                 | Some (old, C) \<Rightarrow>
                     (case if old \<noteq> 0 then Option.bind (LRU_Remove old C) (LRUCache_Unref old) else Some C of
                        None \<Rightarrow> None
                      | Some C \<Rightarrow> map_option (Pair e) (evict_loop C))))"

definition LRUCache_Erase :: "bytes \<Rightarrow> uint32 \<Rightarrow> 'v LRUCache \<Rightarrow> 'v LRUCache option" where
  "LRUCache_Erase key hash C =
     (case HandleTable_Remove key hash C of
        None \<Rightarrow> None
      | Some (e, C) \<Rightarrow> if e \<noteq> 0 then Option.bind (LRU_Remove e C) (LRUCache_Unref e) else Some C)"

text \<open>The destructor: \<open>next\<close> is read before the entry is freed.\<close>

partial_function (option) destroy_loop :: "nat \<Rightarrow> 'v LRUCache \<Rightarrow> 'v LRUCache option" where
  "destroy_loop e C =
     (if e \<noteq> 0
      then
        (case c_handles C e of
           None \<Rightarrow> None
         | Some h \<Rightarrow>
             (let nxt = c_next C e
              in if lh_refs h = 1 then Option.bind (LRUCache_Unref e C) (destroy_loop nxt) else None))
      else Some C)"

declare destroy_loop.simps [code]

definition LRUCache_destroy :: "'v LRUCache \<Rightarrow> 'v LRUCache option" where
  "LRUCache_destroy C = destroy_loop (c_next C 0) C"

subsection \<open>Shards\<close>

definition kNumShardBits :: nat where
  "kNumShardBits = 4"

definition kNumShards :: nat where
  "kNumShards = 2 ^ kNumShardBits"

record 'v ShardedLRUCache =
  sc_shard :: "'v LRUCache list"
  sc_last_id :: uint64

definition HashSlice :: "bytes \<Rightarrow> uint32" where
  "HashSlice s = Hash s 0"

definition Shard :: "uint32 \<Rightarrow> nat" where
  "Shard hash = unat (drop_bit (32 - kNumShardBits) hash)"

definition NewLRUCache :: "uint64 \<Rightarrow> 'v ShardedLRUCache" where
  "NewLRUCache capacity =
     (let per_shard = (capacity + of_nat (kNumShards - 1)) div of_nat kNumShards
      in \<lparr>sc_shard = replicate kNumShards (mk_LRUCache per_shard), sc_last_id = 0\<rparr>)"

text \<open>
  Each shard has a memory of its own.  A handle of the sharded cache is the address together with the
  hash that the entry holds since it was made, from which the code finds the shard.
\<close>

type_synonym Handle = "uint32 \<times> nat"

definition with_shard :: "uint32 \<Rightarrow> ('v LRUCache \<Rightarrow> ('a \<times> 'v LRUCache) option) \<Rightarrow> 'v ShardedLRUCache \<Rightarrow> ('a \<times> 'v ShardedLRUCache) option" where
  "with_shard hash f S =
     (case f (sc_shard S ! Shard hash) of
        None \<Rightarrow> None
      | Some (r, C) \<Rightarrow> Some (r, S\<lparr>sc_shard := (sc_shard S)[Shard hash := C]\<rparr>))"

definition Cache_Insert :: "nat \<Rightarrow> bytes \<Rightarrow> 'v \<Rightarrow> uint64 \<Rightarrow> 'v ShardedLRUCache \<Rightarrow> (Handle \<times> 'v ShardedLRUCache) option" where
  "Cache_Insert e key val charge S =
     (let hash = HashSlice key
      in with_shard hash (\<lambda>C. map_option (\<lambda>(e, C). ((hash, e), C)) (LRUCache_Insert e key hash val charge C)) S)"

definition Cache_Lookup :: "bytes \<Rightarrow> 'v ShardedLRUCache \<Rightarrow> (Handle option \<times> 'v ShardedLRUCache) option" where
  "Cache_Lookup key S =
     (let hash = HashSlice key
      in with_shard hash (\<lambda>C. map_option (\<lambda>(e, C). (if e = 0 then None else Some (hash, e), C)) (LRUCache_Lookup key hash C)) S)"

definition Cache_Release :: "Handle \<Rightarrow> 'v ShardedLRUCache \<Rightarrow> 'v ShardedLRUCache option" where
  "Cache_Release handle S =
     map_option snd (with_shard (fst handle) (\<lambda>C. map_option (Pair ()) (LRUCache_Release (snd handle) C)) S)"

definition Cache_Erase :: "bytes \<Rightarrow> 'v ShardedLRUCache \<Rightarrow> 'v ShardedLRUCache option" where
  "Cache_Erase key S =
     (let hash = HashSlice key
      in map_option snd (with_shard hash (\<lambda>C. map_option (Pair ()) (LRUCache_Erase key hash C)) S))"

definition Cache_Value :: "Handle \<Rightarrow> 'v ShardedLRUCache \<Rightarrow> 'v option" where
  "Cache_Value handle S = map_option lh_value (c_handles (sc_shard S ! Shard (fst handle)) (snd handle))"

definition Cache_NewId :: "'v ShardedLRUCache \<Rightarrow> uint64 \<times> 'v ShardedLRUCache" where
  "Cache_NewId S = (sc_last_id S + 1, S\<lparr>sc_last_id := sc_last_id S + 1\<rparr>)"

end
