(* ===== verification/Cache_Safety.thy ===== *)
theory Cache_Safety
  imports Cache
begin

text \<open>
  The cache keeps its structures: the hash chains hold each entry once, in the bucket of its hash, the
  circular list holds the same entries, reference counts are the handles that clients hold and one for the
  cache, and the usage is the sum of the charges.  No operation touches an entry after it was freed, and
  an entry is freed only when no client holds it.
\<close>

subsection \<open>Circular lists\<close>

text \<open>A doubly linked segment between two nodes.\<close>

primrec seg :: "(nat \<Rightarrow> nat) \<Rightarrow> (nat \<Rightarrow> nat) \<Rightarrow> nat \<Rightarrow> nat list \<Rightarrow> nat \<Rightarrow> bool" where
  "seg nx pv a [] b \<longleftrightarrow> nx a = b \<and> pv b = a"
| "seg nx pv a (x # xs) b \<longleftrightarrow> nx a = x \<and> pv x = a \<and> seg nx pv x xs b"

lemma seg_append: "seg nx pv a (xs @ y # ys) b \<longleftrightarrow> seg nx pv a xs y \<and> seg nx pv y ys b"
  by (induction xs arbitrary: a) auto

lemma seg_frame: "x \<noteq> a \<Longrightarrow> x \<notin> set xs \<Longrightarrow> seg (nx(x := v)) pv a xs b = seg nx pv a xs b"
  "y \<noteq> b \<Longrightarrow> y \<notin> set xs \<Longrightarrow> seg nx (pv(y := v)) a xs b = seg nx pv a xs b"
  by (induction xs arbitrary: a) auto

lemma seg_ends:
  assumes "seg nx pv a xs b"
  shows "nx a = hd (xs @ [b])" "pv b = last (a # xs)"
proof -
  show "nx a = hd (xs @ [b])" using assms by (cases xs) auto
  show "pv b = last (a # xs)" using assms by (induction xs arbitrary: a) auto
qed

lemma seg_remove:
  assumes "seg nx pv a (ys @ e # zs) b" and "distinct (ys @ e # zs)" and "a \<notin> set (ys @ e # zs)" "b \<notin> set (ys @ e # zs)"
  shows "seg (nx(pv e := nx e)) (pv(nx e := pv e)) a (ys @ zs) b"
proof (cases ys rule: rev_cases)
  case Nil
  then show ?thesis using assms by (cases zs) (auto simp: seg_frame)
next
  case (snoc ys' y)
  then show ?thesis using assms by (cases zs) (auto simp: seg_append seg_frame)
qed

lemma seg_insert:
  assumes "seg nx pv a xs a" and "e \<notin> set xs" and "e \<noteq> a" and "distinct (a # xs)"
  shows "seg ((nx(e := a))(pv a := e)) ((pv(e := pv a))(a := e)) a (xs @ [e]) a"
proof (cases xs rule: rev_cases)
  case Nil
  then show ?thesis using assms by auto
next
  case (snoc ys y)
  then show ?thesis using assms by (auto simp: seg_append seg_frame)
qed

subsection \<open>Hash chains\<close>

primrec links :: "(nat \<Rightarrow> nat) \<Rightarrow> nat \<Rightarrow> nat list \<Rightarrow> nat \<Rightarrow> bool" where
  "links nh p [] q \<longleftrightarrow> p = q"
| "links nh p (x # xs) q \<longleftrightarrow> p = x \<and> x \<noteq> 0 \<and> links nh (nh x) xs q"

lemma links_append: "links nh p (xs @ ys) q \<longleftrightarrow> (\<exists>r. links nh p xs r \<and> links nh r ys q)"
  by (induction xs arbitrary: p) auto

lemma links_frame: "x \<notin> set xs \<Longrightarrow> links (nh(x := v)) p xs q = links nh p xs q"
  by (induction xs arbitrary: p) auto

lemma links_cong: "\<forall>x\<in>set xs. nh x = nh' x \<Longrightarrow> links nh p xs q = links nh' p xs q"
  by (induction xs arbitrary: p) auto

lemma links_last:
  "links nh p xs r \<Longrightarrow> xs \<noteq> [] \<Longrightarrow> distinct xs \<Longrightarrow> nh (last xs) = r \<and> links (nh(last xs := q)) p xs q"
proof (induction xs arbitrary: p)
  case (Cons x xs)
  then show ?case by (cases "xs = []") (auto simp: links_frame)
qed simp

definition bucket :: "uint32 \<Rightarrow> uint32 \<Rightarrow> nat" where
  "bucket len hash = unat (hash AND (len - 1))"

lemma bucket_less: "len \<noteq> 0 \<Longrightarrow> bucket len hash < unat len"
proof -
  assume "len \<noteq> 0"
  have "hash AND (len - 1) \<le> len - 1" by (rule word_and_le1)
  then have "bucket len hash \<le> unat (len - 1)" by (simp add: bucket_def word_le_nat_alt)
  also have "\<dots> < unat len" using \<open>len \<noteq> 0\<close> by (simp add: unat_minus_one unat_gt_0 word_neq_0_conv)
  finally show ?thesis .
qed

definition entry_ok :: "'v LRUCache \<Rightarrow> uint32 \<Rightarrow> nat \<Rightarrow> nat \<Rightarrow> bool" where
  "entry_ok C len i e \<longleftrightarrow> (\<exists>h. c_handles C e = Some h \<and> bucket len (lh_hash h) = i \<and> c_next C e \<noteq> e)"

definition chained :: "'v LRUCache \<Rightarrow> (nat \<Rightarrow> nat list) \<Rightarrow> bool" where
  "chained C bs \<longleftrightarrow>
     (let len = ht_length (c_table C)
      in len \<noteq> 0 \<and> length (ht_list (c_table C)) = unat len \<and>
         (\<forall>i<unat len. links (c_next_hash C) (ht_list (c_table C) ! i) (bs i) 0 \<and> distinct (bs i) \<and> (\<forall>e\<in>set (bs i). entry_ok C len i e)))"

definition members :: "'v LRUCache \<Rightarrow> (nat \<Rightarrow> nat list) \<Rightarrow> nat set" where
  "members C bs = (\<Union>i<unat (ht_length (c_table C)). set (bs i))"

definition matches :: "'v LRUCache \<Rightarrow> bytes \<Rightarrow> uint32 \<Rightarrow> nat \<Rightarrow> bool" where
  "matches C key hash e \<longleftrightarrow> (\<exists>h. c_handles C e = Some h \<and> lh_hash h = hash \<and> lh_key h = key)"

definition slot_after :: "nat \<Rightarrow> nat list \<Rightarrow> slot" where
  "slot_after i ys = (if ys = [] then Bucket i else NextHash (last ys))"

definition head :: "nat list \<Rightarrow> nat" where
  "head zs = (case zs of [] \<Rightarrow> 0 | z # _ \<Rightarrow> z)"

lemma head_simps [simp]: "head [] = 0" "head (z # zs) = z"
  by (simp_all add: head_def)

lemma links_head: "links nh p zs 0 \<Longrightarrow> p = head zs"
  by (cases zs) auto

lemma FindPointer_loop_chain:
  assumes "links (c_next_hash C) (deref C ptr) xs 0" and "\<forall>e\<in>set xs. entry_ok C len i e"
  shows "\<exists>ys zs. xs = ys @ zs \<and> FindPointer_loop C key hash ptr = Some (if ys = [] then ptr else NextHash (last ys)) \<and>
    (\<forall>y\<in>set ys. \<not> matches C key hash y) \<and> (zs \<noteq> [] \<longrightarrow> matches C key hash (hd zs)) \<and>
    deref C (if ys = [] then ptr else NextHash (last ys)) = head zs"
  using assms
proof (induction xs arbitrary: ptr)
  case Nil
  then show ?case by (intro exI [of _ "[]"]) (simp add: FindPointer_loop.simps)
next
  case (Cons x xs)
  then obtain h where x: "deref C ptr = x" "x \<noteq> 0" "c_handles C x = Some h" "c_next C x \<noteq> x" by (auto simp: entry_ok_def)
  show ?case
  proof (cases "matches C key hash x")
    case True
    then have "FindPointer_loop C key hash ptr = Some ptr"
      using x by (subst FindPointer_loop.simps) (auto simp: matches_def LRUHandle_key_def)
    then show ?thesis using x True by (intro exI [of _ "[]"] exI [of _ "x # xs"]) simp
  next
    case False
    then have step: "FindPointer_loop C key hash ptr = FindPointer_loop C key hash (NextHash x)"
      using x by (subst FindPointer_loop.simps) (auto simp: matches_def LRUHandle_key_def)
    have "links (c_next_hash C) (deref C (NextHash x)) xs 0" using Cons.prems by simp
    from Cons.IH [OF this] Cons.prems(2) obtain ys zs where "xs = ys @ zs"
      "FindPointer_loop C key hash (NextHash x) = Some (if ys = [] then NextHash x else NextHash (last ys))"
      "\<forall>y\<in>set ys. \<not> matches C key hash y" "zs \<noteq> [] \<longrightarrow> matches C key hash (hd zs)"
      "deref C (if ys = [] then NextHash x else NextHash (last ys)) = head zs" by auto
    then show ?thesis using step False by (intro exI [of _ "x # ys"] exI [of _ zs]) auto
  qed
qed

lemma FindPointer_chain:
  fixes hash :: uint32
  assumes "chained C bs"
  defines "i \<equiv> bucket (ht_length (c_table C)) hash"
  shows "\<exists>ys zs. bs i = ys @ zs \<and> FindPointer C key hash = Some (slot_after i ys) \<and> (\<forall>y\<in>set ys. \<not> matches C key hash y) \<and>
    (zs \<noteq> [] \<longrightarrow> matches C key hash (hd zs)) \<and> deref C (slot_after i ys) = head zs"
proof -
  have i: "i < unat (ht_length (c_table C))" using assms(1) bucket_less by (auto simp: chained_def Let_def i_def)
  have "links (c_next_hash C) (deref C (Bucket i)) (bs i) 0" "\<forall>e\<in>set (bs i). entry_ok C (ht_length (c_table C)) i e"
    using assms(1) i by (auto simp: chained_def Let_def)
  from FindPointer_loop_chain [OF this, of key hash] show ?thesis
    unfolding FindPointer_def slot_after_def i_def bucket_def .
qed

text \<open>Writing a slot replaces the rest of its chain.\<close>

lemma assign_fields [simp]:
  "c_handles (assign s q C) = c_handles C" "c_next (assign s q C) = c_next C" "c_prev (assign s q C) = c_prev C"
  "ht_length (c_table (assign s q C)) = ht_length (c_table C)" "ht_elems (c_table (assign s q C)) = ht_elems (c_table C)"
  "c_usage (assign s q C) = c_usage C" "c_capacity (assign s q C) = c_capacity C" "c_deleted (assign s q C) = c_deleted C"
  by (cases s; simp)+

lemma chainsD:
  assumes "chained C bs" and "i < unat (ht_length (c_table C))"
  shows "links (c_next_hash C) (ht_list (c_table C) ! i) (bs i) 0" "distinct (bs i)"
    "e \<in> set (bs i) \<Longrightarrow> \<exists>h. c_handles C e = Some h \<and> bucket (ht_length (c_table C)) (lh_hash h) = i \<and> c_next C e \<noteq> e"
  using assms by (auto simp: chained_def Let_def entry_ok_def)

lemma chains_disjoint:
  "chained C bs \<Longrightarrow> i < unat (ht_length (c_table C)) \<Longrightarrow> j < unat (ht_length (c_table C)) \<Longrightarrow> e \<in> set (bs i) \<Longrightarrow> e \<in> set (bs j) \<Longrightarrow> i = j"
  by (metis chainsD(3) option.inject)

lemma assign_chain:
  assumes ch: "chained C bs" and i: "i < unat (ht_length (c_table C))" and bs: "bs i = ys @ zs"
    and q: "links (c_next_hash C) q ws 0" and ws: "distinct (ys @ ws)" "\<forall>e\<in>set ws. entry_ok C (ht_length (c_table C)) i e"
  shows "chained (assign (slot_after i ys) q C) (bs(i := ys @ ws))"
proof (cases "ys = []")
  case True
  then show ?thesis using assms by (auto simp: chained_def Let_def slot_after_def entry_ok_def nth_list_update)
next
  case False
  have last: "last ys \<in> set (bs i)" "last ys \<notin> set ws" using False bs ws(1) by (auto simp: disjoint_iff)
  have "last ys \<notin> set (bs j)" if "j < unat (ht_length (c_table C))" "j \<noteq> i" for j
    using chains_disjoint [OF ch i that(1) last(1)] that(2) by blast
  moreover from chainsD(1) [OF ch i] obtain r where "links (c_next_hash C) (ht_list (c_table C) ! i) ys r" by (auto simp: bs links_append)
  then have "links ((c_next_hash C)(last ys := q)) (ht_list (c_table C) ! i) (ys @ ws) 0"
    using links_last [of _ _ ys r q] False ws(1) q last(2) by (auto simp: links_append links_frame)
  ultimately show ?thesis
    using ch False ws bs by (auto simp: chained_def Let_def slot_after_def entry_ok_def links_frame)
qed

lemma members_upd: "members C (bs(i := ws)) = (\<Union>j\<in>{..<unat (ht_length (c_table C))} - {i}. set (bs j)) \<union> (if i < unat (ht_length (c_table C)) then set ws else {})"
  by (auto simp: members_def split: if_splits)

lemma members_split:
  assumes "chained C bs" and "i < unat (ht_length (c_table C))" and "bs i = ys @ zs"
  shows "members C (bs(i := ys @ ws)) = (members C bs - set zs) \<union> set ws"
proof -
  let ?U = "\<Union>j\<in>{..<unat (ht_length (c_table C))} - {i}. set (bs j)"
  have "distinct (ys @ zs)" using chainsD(2) [OF assms(1,2)] assms(3) by simp
  moreover have "?U \<inter> set zs = {}" using chains_disjoint [OF assms(1,2)] assms(3) by fastforce
  moreover have "members C bs = ?U \<union> set (ys @ zs)" using members_upd [of C bs i "bs i", unfolded fun_upd_triv] assms(2,3) by simp
  moreover have "members C (bs(i := ys @ ws)) = ?U \<union> set (ys @ ws)" using assms(2) by (simp add: members_upd)
  ultimately show ?thesis by auto
qed

subsection \<open>Growing the table\<close>

lemma Resize_length_returns:
  assumes "unat new_length = 2 ^ k" and "unat elems \<le> 2 ^ 31" and "k \<le> 31"
  shows "\<exists>n. Resize_length elems new_length = Some n \<and> n \<noteq> 0"
  using assms
proof (induction "31 - k" arbitrary: k new_length)
  case 0
  then have "\<not> new_length < elems" by (simp add: word_less_nat_alt)
  then show ?case using 0 by (subst Resize_length.simps) (auto simp: unat_eq_0 [symmetric] simp del: unat_eq_0)
next
  case (Suc d)
  show ?case
  proof (cases "new_length < elems")
    case True
    have "k < 31" using Suc by simp
    then have "(2::nat) ^ Suc k < 2 ^ 32" by (intro power_strict_increasing) auto
    then have "unat (new_length * 2) = 2 ^ Suc k" using Suc.prems(1) by (simp add: unat_word_ariths)
    from Suc.hyps(1) [OF _ this Suc.prems(2)] Suc.hyps(2) \<open>k < 31\<close> True show ?thesis
      by (subst Resize_length.simps) simp
  next
    case False
    then show ?thesis using Suc.prems(1) by (subst Resize_length.simps) (auto simp: unat_eq_0 [symmetric] simp del: unat_eq_0)
  qed
qed

text \<open>The buckets under construction.\<close>

definition buckets :: "(nat \<Rightarrow> 'v LRUHandle option) \<Rightarrow> uint32 \<Rightarrow> (nat \<Rightarrow> nat) \<Rightarrow> nat list \<Rightarrow> (nat \<Rightarrow> nat list) \<Rightarrow> bool" where
  "buckets H len nh list bs \<longleftrightarrow> length list = unat len \<and>
     (\<forall>i<unat len. links nh (list ! i) (bs i) 0 \<and> distinct (bs i) \<and> (\<forall>e\<in>set (bs i). \<exists>h. H e = Some h \<and> bucket len (lh_hash h) = i))"

abbreviation bucket_set :: "uint32 \<Rightarrow> (nat \<Rightarrow> nat list) \<Rightarrow> nat set" where
  "bucket_set len bs \<equiv> (\<Union>i<unat len. set (bs i))"

lemma buckets_push:
  assumes "buckets H len nh list bs" and "len \<noteq> 0" and "H x = Some h" "x \<noteq> 0" "x \<notin> bucket_set len bs"
  defines "i \<equiv> bucket len (lh_hash h)"
  shows "buckets H len (nh(x := list ! i)) (list[i := x]) (bs(i := x # bs i))"
    "bucket_set len (bs(i := x # bs i)) = insert x (bucket_set len bs)"
proof -
  have i: "i < unat len" using bucket_less assms(2) by (simp add: i_def)
  have "x \<notin> set (bs j)" if "j < unat len" for j using assms(5) that by auto
  then show "buckets H len (nh(x := list ! i)) (list[i := x]) (bs(i := x # bs i))"
    using assms i by (auto simp: buckets_def nth_list_update links_frame)
  show "bucket_set len (bs(i := x # bs i)) = insert x (bucket_set len bs)" using i by (auto split: if_splits)
qed

lemma Resize_chain_ok:
  assumes "links nh h xs 0" and "distinct xs" and "\<forall>x\<in>set xs. H x \<noteq> None" and "buckets H len nh list bs" and "len \<noteq> 0"
    and "set xs \<inter> bucket_set len bs = {}"
  shows "\<exists>nh' list' bs'. Resize_chain H len h (nh, list, cnt) = Some (nh', list', cnt + of_nat (length xs)) \<and> buckets H len nh' list' bs' \<and>
    bucket_set len bs' = set xs \<union> bucket_set len bs \<and> (\<forall>y. y \<notin> set xs \<longrightarrow> nh' y = nh y)"
  using assms
proof (induction xs arbitrary: nh h list cnt bs)
  case Nil
  then show ?case by (subst Resize_chain.simps) auto
next
  case (Cons x xs)
  then obtain hx where x: "h = x" "x \<noteq> 0" "H x = Some hx" "x \<notin> bucket_set len bs" by auto
  let ?i = "bucket len (lh_hash hx)"
  note push = buckets_push [OF Cons.prems(4,5) x(3,2,4)]
  have l: "links (nh(x := list ! ?i)) (nh x) xs 0" using Cons.prems(1,2) by (simp add: links_frame)
  have pr: "distinct xs" "\<forall>x\<in>set xs. H x \<noteq> None" "set xs \<inter> bucket_set len (bs(?i := x # bs ?i)) = {}"
    unfolding push(2) using Cons.prems(2,3,6) by auto
  from Cons.IH [OF l pr(1,2) push(1) Cons.prems(5) pr(3), of "cnt + 1"] obtain nh' list' bs' where
    r: "Resize_chain H len (nh x) (nh(x := list ! ?i), list[?i := x], cnt + 1) = Some (nh', list', cnt + 1 + of_nat (length xs))"
    "buckets H len nh' list' bs'" "bucket_set len bs' = set xs \<union> insert x (bucket_set len bs)"
    "\<forall>y. y \<notin> set xs \<longrightarrow> nh' y = (nh(x := list ! ?i)) y"
    unfolding push(2) by blast
  have "Resize_chain H len h (nh, list, cnt) = Some (nh', list', cnt + of_nat (length (x # xs)))"
    using r(1) x by (subst Resize_chain.simps) (simp add: bucket_def algebra_simps)
  then show ?case using r(2-4) by fastforce
qed

lemma Resize_buckets_ok:
  assumes "\<forall>i<length hs. links nh (hs ! i) (xss i) 0 \<and> distinct (xss i) \<and> (\<forall>x\<in>set (xss i). H x \<noteq> None)"
    and "\<And>i j. i < length hs \<Longrightarrow> j < length hs \<Longrightarrow> i \<noteq> j \<Longrightarrow> set (xss i) \<inter> set (xss j) = {}"
    and "buckets H len nh list bs" and "len \<noteq> 0" and "\<And>i. i < length hs \<Longrightarrow> set (xss i) \<inter> bucket_set len bs = {}"
  shows "\<exists>nh' list' bs'. Resize_buckets H len hs (nh, list, cnt) = Some (nh', list', cnt + (\<Sum>i<length hs. of_nat (length (xss i)))) \<and>
    buckets H len nh' list' bs' \<and> bucket_set len bs' = (\<Union>i<length hs. set (xss i)) \<union> bucket_set len bs"
  using assms
proof (induction hs arbitrary: nh list cnt bs xss)
  case Nil
  then show ?case by auto
next
  case (Cons h hs)
  have "links nh h (xss 0) 0" "distinct (xss 0)" "\<forall>x\<in>set (xss 0). H x \<noteq> None" using Cons.prems(1) by auto
  from Resize_chain_ok [OF this Cons.prems(3,4) Cons.prems(5) [of 0], of cnt] obtain nh1 list1 bs1 where
    r: "Resize_chain H len h (nh, list, cnt) = Some (nh1, list1, cnt + of_nat (length (xss 0)))" "buckets H len nh1 list1 bs1"
    "bucket_set len bs1 = set (xss 0) \<union> bucket_set len bs" "\<forall>y. y \<notin> set (xss 0) \<longrightarrow> nh1 y = nh y" by auto
  let ?xs = "\<lambda>i. xss (Suc i)"
  have fr: "links nh1 p (?xs i) 0 = links nh p (?xs i) 0" if "i < length hs" for i p
  proof -
    have "\<forall>y\<in>set (?xs i). nh1 y = nh y" using r(4) Cons.prems(2) [of "Suc i" 0] that by auto
    then show ?thesis by (rule links_cong)
  qed
  have "\<exists>nh' list' bs'. Resize_buckets H len hs (nh1, list1, cnt + of_nat (length (xss 0))) =
      Some (nh', list', cnt + of_nat (length (xss 0)) + (\<Sum>i<length hs. of_nat (length (?xs i)))) \<and>
    buckets H len nh' list' bs' \<and> bucket_set len bs' = (\<Union>i<length hs. set (?xs i)) \<union> bucket_set len bs1"
  proof (rule Cons.IH [where xss = ?xs, OF _ _ r(2) Cons.prems(4)])
    show "\<forall>i<length hs. links nh1 (hs ! i) (?xs i) 0 \<and> distinct (?xs i) \<and> (\<forall>x\<in>set (?xs i). H x \<noteq> None)"
    proof (intro allI impI)
      fix i assume "i < length hs"
      then show "links nh1 (hs ! i) (?xs i) 0 \<and> distinct (?xs i) \<and> (\<forall>x\<in>set (?xs i). H x \<noteq> None)"
        using Cons.prems(1) [rule_format, of "Suc i"] fr [of i] by simp
    qed
    show "set (?xs i) \<inter> set (?xs j) = {}" if "i < length hs" "j < length hs" "i \<noteq> j" for i j
      using Cons.prems(2) [of "Suc i" "Suc j"] that by simp
    show "set (?xs i) \<inter> bucket_set len bs1 = {}" if "i < length hs" for i
      unfolding r(3) using Cons.prems(2) [of "Suc i" 0] Cons.prems(5) [of "Suc i"] that by auto
  qed
  then obtain nh' list' bs' where n: "Resize_buckets H len hs (nh1, list1, cnt + of_nat (length (xss 0))) =
      Some (nh', list', cnt + of_nat (length (xss 0)) + (\<Sum>i<length hs. of_nat (length (?xs i))))"
    "buckets H len nh' list' bs'" "bucket_set len bs' = (\<Union>i<length hs. set (?xs i)) \<union> bucket_set len bs1" by blast
  have "(\<Sum>i<length (h # hs). of_nat (length (xss i)) :: uint32) = of_nat (length (xss 0)) + (\<Sum>i<length hs. of_nat (length (?xs i)))"
    by (simp add: sum.lessThan_Suc_shift del: sum.lessThan_Suc)
  moreover have "(\<Union>i<length (h # hs). set (xss i)) = set (xss 0) \<union> (\<Union>i<length hs. set (?xs i))"
    by (auto simp: lessThan_Suc_eq_insert_0)
  ultimately show ?case
    using r(1,3) n by (intro exI [of _ nh'] exI [of _ list'] exI [of _ bs']) (simp add: add.assoc Un_ac)
qed

lemma bucket_set_card:
  fixes n :: nat
  assumes "\<And>i. i < n \<Longrightarrow> distinct (bs i)" and "\<And>i j. i < n \<Longrightarrow> j < n \<Longrightarrow> i \<noteq> j \<Longrightarrow> set (bs i) \<inter> set (bs j) = {}"
  shows "card (\<Union>i<n. set (bs i)) = (\<Sum>i<n. length (bs i))"
proof -
  have "card (\<Union>i<n. set (bs i)) = (\<Sum>i<n. card (set (bs i)))" using assms(2) by (intro card_UN_disjoint) auto
  also have "\<dots> = (\<Sum>i<n. length (bs i))" using assms(1) by (intro sum.cong) (auto simp: distinct_card)
  finally show ?thesis .
qed

text \<open>The table with the number of its entries.\<close>

definition table_ok :: "'v LRUCache \<Rightarrow> nat set \<Rightarrow> bool" where
  "table_ok C M \<longleftrightarrow> ht_elems (c_table C) = of_nat (card M) \<and> (\<exists>bs. chained C bs \<and> members C bs = M)"

lemma HandleTable_Resize_ok:
  assumes "table_ok C M" and "card M \<le> 2 ^ 31"
  shows "\<exists>nh' T'. HandleTable_Resize C = Some (C\<lparr>c_next_hash := nh', c_table := T'\<rparr>) \<and> table_ok (C\<lparr>c_next_hash := nh', c_table := T'\<rparr>) M"
proof -
  from assms(1) obtain bs where bs: "chained C bs" "members C bs = M" and el: "ht_elems (c_table C) = of_nat (card M)"
    by (auto simp: table_ok_def)
  let ?len = "ht_length (c_table C)" and ?H = "c_handles C"
  have "unat (ht_elems (c_table C)) \<le> 2 ^ 31" using assms(2) by (simp add: el unat_of_nat_small)
  then obtain n where n: "Resize_length (ht_elems (c_table C)) 4 = Some n" "n \<noteq> 0"
    using Resize_length_returns [of 4 2] by auto
  have hl: "length (ht_list (c_table C)) = unat ?len" using bs(1) by (simp add: chained_def Let_def)
  have dj: "set (bs i) \<inter> set (bs j) = {}" if "i < unat ?len" "j < unat ?len" "i \<noteq> j" for i j
    using chains_disjoint [OF bs(1) that(1,2)] that(3) by blast
  have emp: "buckets ?H n (c_next_hash C) (replicate (unat n) 0) (\<lambda>_. [])" by (simp add: buckets_def)
  have ch: "\<forall>i<length (ht_list (c_table C)). links (c_next_hash C) (ht_list (c_table C) ! i) (bs i) 0 \<and> distinct (bs i) \<and> (\<forall>x\<in>set (bs i). ?H x \<noteq> None)"
    using chainsD [OF bs(1)] hl by fastforce
  from Resize_buckets_ok [OF ch _ emp n(2), of 0] dj obtain nh' list' bs' where
    r: "Resize_buckets ?H n (ht_list (c_table C)) (c_next_hash C, replicate (unat n) 0, 0) =
      Some (nh', list', \<Sum>i<unat ?len. of_nat (length (bs i)))"
    "buckets ?H n nh' list' bs'" "bucket_set n bs' = members C bs" unfolding hl members_def by auto
  have "card M = (\<Sum>i<unat ?len. length (bs i))"
    using bucket_set_card [of "unat ?len" bs] chainsD(2) [OF bs(1)] dj bs(2) unfolding members_def by blast
  then have cnt: "ht_elems (c_table C) = (\<Sum>i<unat ?len. of_nat (length (bs i)))" by (simp add: el)
  let ?T = "(c_table C)\<lparr>ht_list := list', ht_length := n\<rparr>"
  let ?C = "C\<lparr>c_next_hash := nh', c_table := ?T\<rparr>"
  have "c_next C e \<noteq> e" if "e \<in> M" for e using that chainsD(3) [OF bs(1)] bs(2) unfolding members_def by blast
  then have "chained ?C bs'" using r(2,3) n(2) bs(2) by (fastforce simp: chained_def buckets_def Let_def entry_ok_def)
  moreover have "members ?C bs' = M" using r(3) bs(2) by (simp add: members_def)
  ultimately have "table_ok ?C M" using el by (auto simp: table_ok_def)
  moreover have "HandleTable_Resize C = Some ?C" using n(1) r(1) cnt by (simp add: HandleTable_Resize_def)
  ultimately show ?thesis by blast
qed

subsection \<open>Operations of the table\<close>

lemma members_nonzero: "chained C bs \<Longrightarrow> e \<in> members C bs \<Longrightarrow> e \<noteq> 0"
proof -
  have "links nh p xs q \<Longrightarrow> x \<in> set xs \<Longrightarrow> x \<noteq> 0" for nh p xs q x by (induction xs arbitrary: p) auto
  then show "chained C bs \<Longrightarrow> e \<in> members C bs \<Longrightarrow> e \<noteq> 0" using chainsD(1) unfolding members_def by blast
qed

lemma FindPointer_member:
  fixes hash :: uint32
  assumes ch: "chained C bs"
  defines "i \<equiv> bucket (ht_length (c_table C)) hash"
  obtains ys zs where "bs i = ys @ zs" "FindPointer C key hash = Some (slot_after i ys)" "deref C (slot_after i ys) = head zs"
    "zs = [] \<Longrightarrow> \<forall>x\<in>members C bs. \<not> matches C key hash x"
    "zs \<noteq> [] \<Longrightarrow> head zs \<in> members C bs \<and> head zs \<noteq> 0 \<and> matches C key hash (head zs)"
proof -
  from FindPointer_chain [OF ch, of hash key, folded i_def] obtain ys zs where
    f: "bs i = ys @ zs" "FindPointer C key hash = Some (slot_after i ys)" "\<forall>y\<in>set ys. \<not> matches C key hash y"
    "zs \<noteq> [] \<longrightarrow> matches C key hash (hd zs)" "deref C (slot_after i ys) = head zs" by blast
  have i: "i < unat (ht_length (c_table C))" using ch bucket_less by (auto simp: chained_def Let_def i_def)
  have "\<not> matches C key hash x" if x: "zs = []" "x \<in> members C bs" for x
  proof
    assume m: "matches C key hash x"
    from x(2) obtain j where j: "j < unat (ht_length (c_table C))" "x \<in> set (bs j)" by (auto simp: members_def)
    have "j = i" using chainsD(3) [OF ch j] m by (auto simp: matches_def i_def)
    then show False using f(1,3) j(2) x(1) m by auto
  qed
  moreover have "head zs \<in> members C bs \<and> head zs \<noteq> 0 \<and> matches C key hash (head zs)" if ne: "zs \<noteq> []"
  proof -
    obtain z zs' where z: "zs = z # zs'" using ne by (cases zs) auto
    have "z \<in> members C bs" unfolding members_def using i f(1) z by (intro UN_I [of i]) auto
    then show ?thesis using members_nonzero [OF ch] f(4) z by simp
  qed
  ultimately show ?thesis using that f(1,2,5) by blast
qed

lemma HandleTable_Lookup_ok:
  assumes "table_ok C M"
  shows "\<exists>e. HandleTable_Lookup key hash C = Some e \<and>
    (if e = 0 then \<forall>x\<in>M. \<not> matches C key hash x else e \<in> M \<and> matches C key hash e)"
proof -
  from assms obtain bs where bs: "chained C bs" "members C bs = M" by (auto simp: table_ok_def)
  show ?thesis
  proof (rule FindPointer_member [OF bs(1), of hash key])
    fix ys zs
    assume "FindPointer C key hash = Some (slot_after (bucket (ht_length (c_table C)) hash) ys)"
      and "deref C (slot_after (bucket (ht_length (c_table C)) hash) ys) = head zs"
      and "zs = [] \<Longrightarrow> \<forall>x\<in>members C bs. \<not> matches C key hash x"
      and "zs \<noteq> [] \<Longrightarrow> head zs \<in> members C bs \<and> head zs \<noteq> 0 \<and> matches C key hash (head zs)"
    then show ?thesis by (cases zs) (auto simp: HandleTable_Lookup_def bs(2))
  qed
qed

text \<open>What the operations of the table change.\<close>

abbreviation retabled :: "'v LRUCache \<Rightarrow> (nat \<Rightarrow> nat) \<Rightarrow> HandleTable \<Rightarrow> 'v LRUCache" where
  "retabled C nh T \<equiv> C\<lparr>c_next_hash := nh, c_table := T\<rparr>"

lemma retabled_self: "C = retabled C (c_next_hash C) (c_table C)"
  by simp

lemma assign_retabled: "\<exists>nh T. assign s q (C\<lparr>c_next_hash := nh0\<rparr>) = retabled C nh T"
proof (cases s)
  case (Bucket i)
  then have "assign s q (C\<lparr>c_next_hash := nh0\<rparr>) = retabled C nh0 ((c_table C)\<lparr>ht_list := (ht_list (c_table C))[i := q]\<rparr>)" by simp
  then show ?thesis by blast
next
  case (NextHash e)
  then have "assign s q (C\<lparr>c_next_hash := nh0\<rparr>) = retabled C (nh0(e := q)) (c_table C)" by simp
  then show ?thesis by blast
qed

lemma assign_retabled_self: "\<exists>nh T. assign s q C = retabled C nh T"
  using assign_retabled [where C = C and ?nh0.0 = "c_next_hash C"] by simp

lemma table_finite: "table_ok C M \<Longrightarrow> finite M"
  by (auto simp: table_ok_def members_def)

lemma HandleTable_Remove_ok:
  assumes "table_ok C M"
  shows "\<exists>e nh T. HandleTable_Remove key hash C = Some (e, retabled C nh T) \<and> table_ok (retabled C nh T) (M - {e}) \<and>
    (if e = 0 then \<forall>x\<in>M. \<not> matches C key hash x else e \<in> M \<and> matches C key hash e)"
proof -
  from assms obtain bs where bs: "chained C bs" "members C bs = M" and el: "ht_elems (c_table C) = of_nat (card M)" by (auto simp: table_ok_def)
  let ?len = "ht_length (c_table C)"
  let ?i = "bucket ?len hash"
  have i: "?i < unat ?len" using bs(1) bucket_less by (auto simp: chained_def Let_def)
  show ?thesis
  proof (rule FindPointer_member [OF bs(1), of hash key])
    fix ys zs
    assume f: "bs ?i = ys @ zs" "FindPointer C key hash = Some (slot_after ?i ys)" "deref C (slot_after ?i ys) = head zs"
      and no: "zs = [] \<Longrightarrow> \<forall>x\<in>members C bs. \<not> matches C key hash x"
      and yes: "zs \<noteq> [] \<Longrightarrow> head zs \<in> members C bs \<and> head zs \<noteq> 0 \<and> matches C key hash (head zs)"
    show ?thesis
    proof (cases zs)
      case Nil
      have "0 \<notin> M" using members_nonzero [OF bs(1)] bs(2) by blast
      then show ?thesis using Nil f no assms bs(2)
        by (intro exI [of _ 0] exI [of _ "c_next_hash C"] exI [of _ "c_table C"]) (simp add: HandleTable_Remove_def Let_def)
    next
      case (Cons z zs')
      have d: "distinct (ys @ z # zs')" using chainsD(2) [OF bs(1) i] f(1) Cons by simp
      have l: "links (c_next_hash C) (c_next_hash C z) zs' 0" using chainsD(1) [OF bs(1) i] f(1) Cons by (auto simp: links_append)
      have "\<forall>e\<in>set zs'. entry_ok C ?len ?i e" using chainsD(3) [OF bs(1) i] f(1) Cons by (auto simp: entry_ok_def)
      from assign_chain [OF bs(1) i f(1) l _ this] d have ch: "chained (assign (slot_after ?i ys) (c_next_hash C z) C) (bs(?i := ys @ zs'))" by simp
      have mem: "members C (bs(?i := ys @ zs')) = M - {z}"
        using members_split [OF bs(1) i f(1), of zs'] d bs(2) Cons members_def [of C bs] i f(1) by auto
      obtain nh T where a: "assign (slot_after ?i ys) (c_next_hash C z) C = retabled C nh T"
        using assign_retabled_self by blast
      let ?T = "T\<lparr>ht_elems := ht_elems T - 1\<rparr>"
      have len: "ht_length T = ?len" "ht_elems T = ht_elems (c_table C)"
        using arg_cong [OF a, of "\<lambda>C. ht_length (c_table C)"] arg_cong [OF a, of "\<lambda>C. ht_elems (c_table C)"] by simp_all
      have z: "z \<in> M" "z \<noteq> 0" "matches C key hash z" using yes Cons bs(2) by auto
      have "of_nat (card (M - {z})) = (of_nat (card M) - 1 :: uint32)"
        using z(1) table_finite [OF assms] card_gt_0_iff [of M] by (auto simp: of_nat_diff Suc_leI)
      then have "table_ok (retabled C nh ?T) (M - {z})"
        unfolding table_ok_def using ch mem el len unfolding a chained_def members_def entry_ok_def Let_def
        by (intro conjI exI [of _ "bs(?i := ys @ zs')"]) simp_all
      moreover have "HandleTable_Remove key hash C = Some (z, retabled C nh ?T)"
        using f(2,3) Cons z(2) a by (simp add: HandleTable_Remove_def Let_def)
      ultimately show ?thesis using z by (intro exI [of _ z]) auto
    qed
  qed
qed

lemma HandleTable_Insert_ok:
  assumes tab: "table_ok C M" and h: "c_handles C h = Some lh" "c_next C h \<noteq> h" "h \<notin> M" "h \<noteq> 0" and small: "card M < 2 ^ 31"
  shows "\<exists>old nh T. HandleTable_Insert h C = Some (old, retabled C nh T) \<and> table_ok (retabled C nh T) (insert h (M - {old})) \<and>
    (if old = 0 then \<forall>x\<in>M. \<not> matches C (lh_key lh) (lh_hash lh) x else old \<in> M \<and> matches C (lh_key lh) (lh_hash lh) old)"
proof -
  from tab obtain bs where bs: "chained C bs" "members C bs = M" and el: "ht_elems (c_table C) = of_nat (card M)" by (auto simp: table_ok_def)
  let ?len = "ht_length (c_table C)" and ?m = "matches C (lh_key lh) (lh_hash lh)"
  let ?i = "bucket ?len (lh_hash lh)"
  have i: "?i < unat ?len" using bs(1) bucket_less by (auto simp: chained_def Let_def)
  show ?thesis
  proof (rule FindPointer_member [OF bs(1), of "lh_hash lh" "lh_key lh"])
    fix ys zs
    assume f: "bs ?i = ys @ zs" "FindPointer C (lh_key lh) (lh_hash lh) = Some (slot_after ?i ys)" "deref C (slot_after ?i ys) = head zs"
      and no: "zs = [] \<Longrightarrow> \<forall>x\<in>members C bs. \<not> ?m x" and yes: "zs \<noteq> [] \<Longrightarrow> head zs \<in> members C bs \<and> head zs \<noteq> 0 \<and> ?m (head zs)"
    let ?nh = "(c_next_hash C)(h := if head zs = 0 then 0 else c_next_hash C (head zs))"
    let ?C = "C\<lparr>c_next_hash := ?nh\<rparr>"
    have hb: "h \<notin> set (bs j)" if "j < unat ?len" for j using h(3) bs(2) that by (auto simp: members_def)
    then have ch: "chained ?C bs" using bs(1) by (simp add: chained_def Let_def links_frame entry_ok_def)
    have d: "distinct (ys @ h # tl zs)" "\<forall>e\<in>set (h # tl zs). entry_ok ?C ?len ?i e" using chainsD(2,3) [OF bs(1) i] f(1) hb [OF i] h(1,2)
      by (cases zs; auto simp: entry_ok_def)+
    have "links ?nh h (h # tl zs) 0"
      using h(4) chainsD(1) [OF bs(1) i] f(1) hb [OF i] yes by (cases zs) (auto simp: links_append links_frame)
    from assign_chain [OF ch _ f(1) _ d(1)] this i d(2) have ch': "chained (assign (slot_after ?i ys) h ?C) (bs(?i := ys @ h # tl zs))" by simp
    have dz: "distinct zs" "set zs \<subseteq> M" using chainsD(2) [OF bs(1) i] f(1) bs(2) i unfolding members_def by auto
    have mem: "members C (bs(?i := ys @ h # tl zs)) = insert h (M - {head zs})"
      using members_split [OF bs(1) i f(1), of "h # tl zs"] bs(2) dz members_nonzero [OF bs(1)] by (cases zs) auto
    obtain nh T where a: "assign (slot_after ?i ys) h ?C = retabled C nh T" using assign_retabled by blast
    have len: "ht_length T = ?len" "ht_elems T = ht_elems (c_table C)"
      using arg_cong [OF a, of "\<lambda>C. ht_length (c_table C)"] arg_cong [OF a, of "\<lambda>C. ht_elems (c_table C)"] by simp_all
    have mk: "table_ok (retabled C nh T') (insert h (M - {head zs}))"
      if "ht_length T' = ht_length T" "ht_list T' = ht_list T" "ht_elems T' = of_nat (card (insert h (M - {head zs})))" for T'
      unfolding table_ok_def using ch' mem len that unfolding a chained_def members_def entry_ok_def Let_def
      by (intro conjI exI [of _ "bs(?i := ys @ h # tl zs)"]) simp_all
    have ins: "HandleTable_Insert h C = (if head zs = 0
        then let C' = retabled C nh (T\<lparr>ht_elems := ht_elems T + 1\<rparr>)
             in if ht_elems (c_table C') > ht_length (c_table C') then map_option (Pair (head zs)) (HandleTable_Resize C') else Some (head zs, C')
        else Some (head zs, retabled C nh T))"
      using f(2,3) h a by (cases "head zs = 0") (simp_all add: HandleTable_Insert_def LRUHandle_key_def Let_def)
    show ?thesis
    proof (cases zs)
      case Nil
      let ?T = "T\<lparr>ht_elems := ht_elems T + 1\<rparr>"
      have M: "M - {0} = M" using members_nonzero [OF bs(1)] bs(2) by blast
      have card: "card (insert h M) = Suc (card M)" using table_finite [OF tab] h(3) by simp
      have ok: "table_ok (retabled C nh ?T) (insert h M)" using mk [of ?T] Nil M card len(2) el by simp
      from HandleTable_Resize_ok [OF ok] card small obtain nh' T' where
        "HandleTable_Resize (retabled C nh ?T) = Some (retabled (retabled C nh ?T) nh' T')" "table_ok (retabled (retabled C nh ?T) nh' T') (insert h M)"
        by auto
      then have r: "HandleTable_Resize (retabled C nh ?T) = Some (retabled C nh' T')" "table_ok (retabled C nh' T') (insert h M)" by simp_all
      have "\<exists>nh T. HandleTable_Insert h C = Some (0, retabled C nh T) \<and> table_ok (retabled C nh T) (insert h M)"
        using ins Nil r ok by (auto simp: Let_def)
      then show ?thesis using no Nil bs(2) M by (intro exI [of _ 0]) simp
    next
      case (Cons z zs')
      then have z: "z \<in> M" "z \<noteq> 0" "?m z" using yes bs(2) by auto
      have "card (insert h (M - {z})) = card M" using z(1) h(3) table_finite [OF tab] card_Suc_Diff1 [of M z] by simp
      then have "table_ok (retabled C nh T) (insert h (M - {z}))" using mk [of T] Cons len(2) el by simp
      then show ?thesis using ins Cons z by (intro exI [of _ z]) auto
    qed
  qed
qed

subsection \<open>The invariant of a shard\<close>

text \<open>
  \<open>xs\<close> are the entries of the circular list, oldest first, \<open>M\<close> the entries of the hash table, and
  \<open>cnt\<close> the number of references.
\<close>

definition key_of :: "'v LRUCache \<Rightarrow> nat \<Rightarrow> bytes option" where
  "key_of C e = map_option lh_key (c_handles C e)"

definition stored :: "'v LRUCache \<Rightarrow> nat \<Rightarrow> (bytes \<times> 'v) option" where
  "stored C e = map_option (\<lambda>h. (lh_key h, lh_value h)) (c_handles C e)"

definition shard_ok :: "'v LRUCache \<Rightarrow> nat list \<Rightarrow> nat set \<Rightarrow> (nat \<Rightarrow> nat) \<Rightarrow> bool" where
  "shard_ok C xs M cnt \<longleftrightarrow>
     table_ok C M \<and> seg (c_next C) (c_prev C) 0 xs 0 \<and> distinct xs \<and> c_handles C 0 = None \<and> set xs \<union> M \<subseteq> dom (c_handles C) \<and>
     finite (dom (c_handles C)) \<and> inj_on (key_of C) M \<and>
     (\<forall>e h. c_handles C e = Some h \<longrightarrow> c_next C e \<noteq> e \<and> lh_hash h = HashSlice (lh_key h) \<and> unat (lh_refs h) = cnt e) \<and>
     (\<forall>e. 0 < cnt e \<longleftrightarrow> c_handles C e \<noteq> None) \<and> c_usage C = (\<Sum>e\<in>dom (c_handles C). lh_charge (the (c_handles C e)))"

lemma table_frame:
  assumes "table_ok C M" and "c_table C' = c_table C" "c_next_hash C' = c_next_hash C"
    and same: "\<forall>e\<in>M. c_next C' e \<noteq> e \<and> map_option lh_hash (c_handles C' e) = map_option lh_hash (c_handles C e)"
  shows "table_ok C' M"
proof -
  from assms(1) obtain bs where bs: "chained C bs" "members C bs = M" and el: "ht_elems (c_table C) = of_nat (card M)" by (auto simp: table_ok_def)
  have "entry_ok C' (ht_length (c_table C)) i e" if "i < unat (ht_length (c_table C))" "e \<in> set (bs i)" for i e
  proof -
    have "e \<in> M" using that bs(2) unfolding members_def by blast
    then have "c_next C' e \<noteq> e" "map_option lh_hash (c_handles C' e) = map_option lh_hash (c_handles C e)" using same by simp_all
    then show ?thesis using chainsD(3) [OF bs(1) that] by (auto simp: entry_ok_def)
  qed
  then have "chained C' bs" using bs(1) assms(2,3) by (simp add: chained_def Let_def)
  then show ?thesis using bs(2) el assms(2) by (auto simp: table_ok_def members_def)
qed

lemma key_of_cong: "c_handles C' = c_handles C \<Longrightarrow> key_of C' = key_of C"
  by (simp add: key_of_def fun_eq_iff)

lemma stored_cong: "c_handles C' = c_handles C \<Longrightarrow> stored C' = stored C"
  by (simp add: stored_def fun_eq_iff)

lemma shard_retabled:
  "shard_ok C xs M cnt \<Longrightarrow> table_ok (retabled C nh T) M' \<Longrightarrow> M' \<subseteq> dom (c_handles C) \<Longrightarrow> inj_on (key_of C) M' \<Longrightarrow> shard_ok (retabled C nh T) xs M' cnt"
  using key_of_cong [of "retabled C nh T" C] by (simp add: shard_ok_def)

abbreviation relinked :: "'v LRUCache \<Rightarrow> (nat \<Rightarrow> nat) \<Rightarrow> (nat \<Rightarrow> nat) \<Rightarrow> 'v LRUCache" where
  "relinked C nx pv \<equiv> C\<lparr>c_next := nx, c_prev := pv\<rparr>"

lemma LRU_Remove_ok:
  assumes ok: "shard_ok C xs M cnt" and e: "e \<in> set xs"
  shows "\<exists>nx pv. LRU_Remove e C = Some (relinked C nx pv) \<and> shard_ok (relinked C nx pv) (remove1 e xs) M cnt"
proof -
  let ?nx = "c_next C" and ?pv = "c_prev C"
  have sg: "seg ?nx ?pv 0 xs 0" and d: "distinct xs" and z: "0 \<notin> set xs" and al: "\<And>x. x \<in> set xs \<Longrightarrow> alive C x"
    using ok unfolding shard_ok_def by (auto simp: alive_def)
  obtain ys zs where xs: "xs = ys @ e # zs" using e by (meson split_list)
  have s: "seg ?nx ?pv 0 ys e" "seg ?nx ?pv e zs 0" using sg by (simp_all add: xs seg_append)
  have n: "?nx e = hd (zs @ [0])" "?pv e = last (0 # ys)" using seg_ends(1) [OF s(2)] seg_ends(2) [OF s(1)] by simp_all
  have nn: "?nx e \<in> insert 0 (set zs)" "?pv e \<in> insert 0 (set ys)" unfolding n by (cases zs; simp) (use last_in_set [of "0 # ys"] in simp)
  let ?nx' = "?nx(?pv e := ?nx e)" and ?pv' = "?pv(?nx e := ?pv e)"
  have "?nx e \<noteq> e" "?pv e \<noteq> e" using nn d z unfolding xs by auto
  moreover have "alive C e" "alive C (?nx e)" "alive C (?pv e)" using al nn unfolding xs by (auto simp: alive_def)
  ultimately have r: "LRU_Remove e C = Some (relinked C ?nx' ?pv')" by (simp add: LRU_Remove_def Let_def)
  have self: "?nx' x \<noteq> x" if "c_handles C x \<noteq> None" for x
  proof (cases "x = ?pv e")
    case True
    then have "x \<in> set ys" using nn(2) that ok by (auto simp: shard_ok_def)
    then show ?thesis using True nn(1) d z unfolding xs by auto
  next
    case False
    then show ?thesis using that ok by (auto simp: shard_ok_def)
  qed
  have nM: "\<forall>x\<in>M. ?nx' x \<noteq> x" using ok self unfolding shard_ok_def by blast
  have "table_ok (relinked C ?nx' ?pv') M"
    by (rule table_frame [of C M "relinked C ?nx' ?pv'"]) (use ok nM in \<open>simp_all add: shard_ok_def del: fun_upd_apply\<close>)
  moreover have "seg ?nx' ?pv' 0 (remove1 e xs) 0" using seg_remove [of ?nx ?pv 0 ys e zs 0] sg d z by (simp add: xs remove1_append)
  moreover have "set (remove1 e xs) \<subseteq> set xs" by (rule set_remove1_subset)
  moreover have "key_of (relinked C ?nx' ?pv') = key_of C" by (rule key_of_cong) simp
  ultimately have "shard_ok (relinked C ?nx' ?pv') (remove1 e xs) M cnt"
    using ok self d unfolding shard_ok_def by (auto simp del: fun_upd_apply)
  then show ?thesis using r by blast
qed

lemma LRU_Append_links:
  assumes sg: "seg (c_next C) (c_prev C) 0 xs 0" and d: "distinct xs" and e: "e \<notin> set xs" "e \<noteq> 0" "0 \<notin> set xs"
    and al: "alive C e" "\<And>x. x \<in> set xs \<Longrightarrow> alive C x"
  shows "\<exists>nx pv. LRU_Append e C = Some (relinked C nx pv) \<and> seg nx pv 0 (xs @ [e]) 0 \<and> nx e \<noteq> e \<and> (\<forall>x. x \<noteq> 0 \<longrightarrow> c_next C x \<noteq> x \<longrightarrow> nx x \<noteq> x)"
proof -
  let ?nx = "c_next C" and ?pv = "c_prev C"
  have p: "?pv 0 = last (0 # xs)" using seg_ends(2) [OF sg] .
  then have pm: "?pv 0 \<in> insert 0 (set xs)" using last_in_set [of "0 # xs"] by simp
  then have pe: "?pv 0 \<noteq> e" using e by auto
  have a: "alive C (?pv 0)" using pm al(2) by (auto simp: alive_def)
  let ?nx' = "(?nx(e := 0))(?pv 0 := e)" and ?pv' = "(?pv(e := ?pv 0))(0 := e)"
  have "LRU_Append e C = Some (relinked C ?nx' ?pv')" using al(1) a pe e(2) by (simp add: LRU_Append_def Let_def)
  moreover have "seg ?nx' ?pv' 0 (xs @ [e]) 0" by (rule seg_insert [OF sg]) (use e d in auto)
  moreover have "?nx' e \<noteq> e" using pe e(2) by simp
  moreover have "\<forall>x. x \<noteq> 0 \<longrightarrow> ?nx x \<noteq> x \<longrightarrow> ?nx' x \<noteq> x" using pe e(2) by auto
  ultimately show ?thesis by blast
qed

lemma shardD:
  assumes "shard_ok C xs M cnt"
  shows "table_ok C M" "seg (c_next C) (c_prev C) 0 xs 0" "distinct xs" "0 \<notin> set xs" "finite (dom (c_handles C))" "c_handles C 0 = None"
    "inj_on (key_of C) M" "x \<in> set xs \<Longrightarrow> c_handles C x \<noteq> None" "x \<in> M \<Longrightarrow> c_handles C x \<noteq> None"
    "c_handles C x = Some h \<Longrightarrow> c_next C x \<noteq> x \<and> lh_hash h = HashSlice (lh_key h) \<and> unat (lh_refs h) = cnt x"
    "0 < cnt x \<longleftrightarrow> c_handles C x \<noteq> None" "c_usage C = (\<Sum>e\<in>dom (c_handles C). lh_charge (the (c_handles C e)))"
  using assms unfolding shard_ok_def by auto

lemma LRU_Append_ok:
  assumes ok: "shard_ok C xs M cnt" and e: "e \<notin> set xs" "c_handles C e \<noteq> None"
  shows "\<exists>nx pv. LRU_Append e C = Some (relinked C nx pv) \<and> shard_ok (relinked C nx pv) (xs @ [e]) M cnt"
proof -
  note D = shardD [OF ok]
  have "e \<noteq> 0" using e(2) D(6) by metis
  from LRU_Append_links [OF D(2,3) e(1) this D(4)] D(8) e(2) obtain nx pv where
    r: "LRU_Append e C = Some (relinked C nx pv)" "seg nx pv 0 (xs @ [e]) 0" "\<forall>x. x \<noteq> 0 \<longrightarrow> c_next C x \<noteq> x \<longrightarrow> nx x \<noteq> x"
    by (auto simp: alive_def)
  have self: "nx x \<noteq> x" if "c_handles C x \<noteq> None" for x
  proof -
    obtain h where "c_handles C x = Some h" using \<open>c_handles C x \<noteq> None\<close> by blast
    then show ?thesis using D(10) [of x h] D(6) r(3) by (cases "x = 0") simp_all
  qed
  have "table_ok (relinked C nx pv) M" by (rule table_frame [OF D(1)]) (use self D(9) in auto)
  then have "shard_ok (relinked C nx pv) (xs @ [e]) M cnt"
    using r(2) ok self e key_of_cong [of "relinked C nx pv" C] by (auto simp: shard_ok_def)
  then show ?thesis using r(1) by blast
qed

text \<open>Changing the reference count of an entry that stays.\<close>

lemma shard_refs:
  assumes ok: "shard_ok C xs M cnt" and h: "c_handles C e = Some h" and r: "unat r = n" "0 < n"
  shows "shard_ok (C\<lparr>c_handles := (c_handles C)(e \<mapsto> h\<lparr>lh_refs := r\<rparr>)\<rparr>) xs M (cnt(e := n))"
    "stored (C\<lparr>c_handles := (c_handles C)(e \<mapsto> h\<lparr>lh_refs := r\<rparr>)\<rparr>) = stored C"
proof -
  let ?C = "C\<lparr>c_handles := (c_handles C)(e \<mapsto> h\<lparr>lh_refs := r\<rparr>)\<rparr>"
  note D = shardD [OF ok]
  have "table_ok ?C M" by (rule table_frame [OF D(1)]) (use D(9,10) h in auto)
  moreover have "dom (c_handles ?C) = dom (c_handles C)" using h by auto
  moreover have "key_of ?C = key_of C" using h by (auto simp: key_of_def fun_eq_iff)
  moreover have "(\<Sum>x\<in>dom (c_handles C). lh_charge (the (c_handles ?C x))) = (\<Sum>x\<in>dom (c_handles C). lh_charge (the (c_handles C x)))"
    using h by (intro sum.cong) auto
  moreover have "e \<noteq> 0" using h D(6) by (metis option.distinct(1))
  ultimately show "shard_ok ?C xs M (cnt(e := n))" using ok h r D(10) [OF h] by (auto simp: shard_ok_def split: if_splits)
  show "stored ?C = stored C" using h by (auto simp: stored_def fun_eq_iff)
qed

lemma LRUCache_Unref_ok:
  assumes ok: "shard_ok C xs M cnt" and e: "0 < cnt e" "cnt e = 1 \<Longrightarrow> e \<notin> set xs \<union> M"
  shows "\<exists>C'. LRUCache_Unref e C = Some C' \<and> shard_ok C' xs M (cnt(e := cnt e - 1)) \<and> c_capacity C' = c_capacity C \<and>
    stored C' = (if cnt e = 1 then (stored C)(e := None) else stored C) \<and>
    c_deleted C' = c_deleted C @ (if cnt e = 1 then [the (stored C e)] else []) \<and> (cnt e \<noteq> 1 \<longrightarrow> c_usage C' = c_usage C)"
proof -
  note D = shardD [OF ok]
  obtain h where h: "c_handles C e = Some h" using D(11) [of e] e(1) by auto
  have u: "unat (lh_refs h) = cnt e" and nx: "c_next C e \<noteq> e" using D(10) [OF h] by simp_all
  then have pos: "0 < lh_refs h" using e(1) by (simp add: word_less_nat_alt)
  have minus: "unat (lh_refs h - 1) = cnt e - 1" using u pos by (simp add: unat_minus_one)
  show ?thesis
  proof (cases "cnt e = 1")
    case False
    then have "\<not> lh_refs h - 1 \<le> 0" using minus e(1) by (simp add: word_le_nat_alt)
    then show ?thesis using shard_refs [OF ok h minus] False e(1) pos h by (auto simp: LRUCache_Unref_def Let_def)
  next
    case True
    then have z: "lh_refs h - 1 \<le> 0" using minus by (simp add: word_le_nat_alt)
    let ?C = "C\<lparr>c_usage := c_usage C - lh_charge h, c_deleted := c_deleted C @ [(lh_key h, lh_value h)], c_handles := (c_handles C)(e := None)\<rparr>"
    have r: "LRUCache_Unref e C = Some ?C" using h pos z nx by (simp add: LRUCache_Unref_def Let_def LRUHandle_key_def)
    have dm: "dom (c_handles ?C) = dom (c_handles C) - {e}" by auto
    have ne: "e \<notin> M" "e \<notin> set xs" using e(2) True by auto
    have "table_ok ?C M" by (rule table_frame [OF D(1)]) (use D(9,10) ne in auto)
    moreover have "(\<Sum>x\<in>dom (c_handles C) - {e}. lh_charge (the (c_handles ?C x))) = c_usage C - lh_charge h"
      using h D(12) sum.remove [OF D(5), of e "\<lambda>x. lh_charge (the (c_handles C x))"]
      by (auto simp: dom_def intro!: sum.cong)
    moreover have "inj_on (key_of ?C) M" using D(7) ne by (auto simp: inj_on_def key_of_def)
    ultimately have "shard_ok ?C xs M (cnt(e := cnt e - 1))"
      using ok ne True dm D(5) unfolding shard_ok_def by (auto split: if_splits)
    moreover have "stored ?C = (stored C)(e := None)" "the (stored C e) = (lh_key h, lh_value h)" using h by (auto simp: stored_def fun_eq_iff)
    ultimately show ?thesis using r True by simp
  qed
qed

subsection \<open>Operations of a shard\<close>

text \<open>
  Between two operations the circular list and the hash table hold the same entries, and \<open>cl\<close> counts the
  handles that clients hold.
\<close>

definition cache_inv :: "'v LRUCache \<Rightarrow> nat list \<Rightarrow> (nat \<Rightarrow> nat) \<Rightarrow> bool" where
  "cache_inv C xs cl \<longleftrightarrow> shard_ok C xs (set xs) (\<lambda>e. (if e \<in> set xs then 1 else 0) + cl e)"

text \<open>The entries in memory together with the entries given to the deleters.\<close>

definition ledger :: "'v LRUCache \<Rightarrow> (bytes \<times> 'v) multiset" where
  "ledger C = mset (c_deleted C) + image_mset (\<lambda>e. the (stored C e)) (mset_set (dom (stored C)))"

text \<open>An operation may free entries, but none that a client holds, and each that it frees goes to its deleter.\<close>

definition keeps :: "'v LRUCache \<Rightarrow> 'v LRUCache \<Rightarrow> (nat \<Rightarrow> nat) \<Rightarrow> bool" where
  "keeps C C' cl \<longleftrightarrow> c_capacity C' = c_capacity C \<and> (\<forall>x. stored C' x = None \<or> stored C' x = stored C x) \<and>
     (\<forall>x. 0 < cl x \<longrightarrow> stored C' x = stored C x) \<and> ledger C' = ledger C"

lemma keeps_same: "stored C' = stored C \<Longrightarrow> c_deleted C' = c_deleted C \<Longrightarrow> c_capacity C' = c_capacity C \<Longrightarrow> keeps C C' cl"
  by (simp add: keeps_def ledger_def)

lemma keeps_trans: "keeps A B cl \<Longrightarrow> keeps B C cl \<Longrightarrow> keeps A C cl"
  unfolding keeps_def by metis

lemma dom_stored: "dom (stored C) = dom (c_handles C)"
  by (auto simp: stored_def)

lemma keeps_free:
  assumes "finite (dom (stored C))" and "stored C e \<noteq> None" and "cl e = 0" and "c_capacity C' = c_capacity C"
    and "stored C' = (stored C)(e := None)" and "c_deleted C' = c_deleted C @ [the (stored C e)]"
  shows "keeps C C' cl"
proof -
  have "image_mset (\<lambda>e. the (stored C e)) (mset_set (dom (stored C))) =
      add_mset (the (stored C e)) (image_mset (\<lambda>e. the (stored C e)) (mset_set (dom (stored C) - {e})))"
    using assms(1,2) by (simp add: mset_set.remove [of _ e] domIff)
  moreover have "dom (stored C') = dom (stored C) - {e}" by (auto simp: assms(5))
  moreover have "image_mset (\<lambda>x. the (stored C' x)) (mset_set (dom (stored C) - {e})) =
      image_mset (\<lambda>x. the (stored C x)) (mset_set (dom (stored C) - {e}))"
    using assms(1) by (intro image_mset_cong) (simp add: assms(5))
  ultimately show ?thesis using assms by (simp add: keeps_def ledger_def)
qed

lemma matches_key: "shard_ok C xs M cnt \<Longrightarrow> matches C key (HashSlice key) e \<longleftrightarrow> key_of C e = Some key"
  by (auto simp: shard_ok_def matches_def key_of_def)

lemma Unref_dropped:
  assumes ok: "shard_ok C xs (set xs) (\<lambda>x. (if x \<in> insert e (set xs) then 1 else 0) + cl x)" and e: "e \<notin> set xs"
  shows "\<exists>C'. LRUCache_Unref e C = Some C' \<and> cache_inv C' xs cl \<and> keeps C C' cl \<and> (0 < cl e \<longrightarrow> c_usage C' = c_usage C)"
proof -
  let ?cnt = "\<lambda>x. (if x \<in> insert e (set xs) then 1 else 0) + cl x"
  have "?cnt(e := ?cnt e - 1) = (\<lambda>x. (if x \<in> set xs then 1 else 0) + cl x)" using e by (auto simp: fun_eq_iff)
  with LRUCache_Unref_ok [OF ok, of e] e obtain C' where
    C': "LRUCache_Unref e C = Some C'" "cache_inv C' xs cl" "c_capacity C' = c_capacity C"
    "stored C' = (if cl e = 0 then (stored C)(e := None) else stored C)"
    "c_deleted C' = c_deleted C @ (if cl e = 0 then [the (stored C e)] else [])" "0 < cl e \<longrightarrow> c_usage C' = c_usage C"
    by (auto simp: cache_inv_def)
  have "keeps C C' cl"
  proof (cases "cl e = 0")
    case True
    have "finite (dom (stored C))" using shardD(5) [OF ok] by (simp add: dom_stored)
    moreover have "stored C e \<noteq> None" using shardD(11) [OF ok, of e] by (auto simp: stored_def)
    ultimately show ?thesis using keeps_free [of C e cl C'] True C'(3-5) by simp
  next
    case False
    then show ?thesis using C'(3-5) by (intro keeps_same) simp_all
  qed
  then show ?thesis using C'(1,2,6) by (intro exI [of _ C'] conjI)
qed

lemma LRUCache_Release_ok:
  assumes inv: "cache_inv C xs cl" and e: "0 < cl e"
  shows "\<exists>C'. LRUCache_Release e C = Some C' \<and> cache_inv C' xs (cl(e := cl e - 1)) \<and> keeps C C' (cl(e := cl e - 1))"
proof (cases "e \<in> set xs")
  case False
  have "(\<lambda>x. (if x \<in> set xs then 1 else 0) + cl x) = (\<lambda>x. (if x \<in> insert e (set xs) then 1 else 0) + (cl(e := cl e - 1)) x)"
    using False e by (auto simp: fun_eq_iff)
  then show ?thesis using Unref_dropped [of C xs e "cl(e := cl e - 1)"] inv False by (fastforce simp: cache_inv_def LRUCache_Release_def)
next
  case True
  let ?cnt = "\<lambda>x. (if x \<in> set xs then 1 else 0) + cl x"
  have "?cnt(e := ?cnt e - 1) = (\<lambda>x. (if x \<in> set xs then 1 else 0) + (cl(e := cl e - 1)) x)" using e True by (auto simp: fun_eq_iff)
  with LRUCache_Unref_ok [of C xs "set xs" ?cnt e] inv e True obtain C' where
    "LRUCache_Unref e C = Some C'" "cache_inv C' xs (cl(e := cl e - 1))" "c_capacity C' = c_capacity C"
    "stored C' = stored C" "c_deleted C' = c_deleted C" by (auto simp: cache_inv_def)
  then show ?thesis using keeps_same by (auto simp: LRUCache_Release_def)
qed

lemma LRUCache_Lookup_ok:
  assumes inv: "cache_inv C xs cl" and small: "\<forall>x. cl x + 2 < 2 ^ 32"
  shows "\<exists>e C'. LRUCache_Lookup key (HashSlice key) C = Some (e, C') \<and> keeps C C' cl \<and>
    (if e = 0 then C' = C \<and> (\<forall>x\<in>set xs. key_of C x \<noteq> Some key)
     else e \<in> set xs \<and> key_of C e = Some key \<and> cache_inv C' (remove1 e xs @ [e]) (cl(e := cl e + 1)))"
proof -
  let ?cnt = "\<lambda>x. (if x \<in> set xs then 1 else 0) + cl x"
  have ok: "shard_ok C xs (set xs) ?cnt" using inv by (simp add: cache_inv_def)
  note D = shardD [OF ok]
  from HandleTable_Lookup_ok [OF D(1), of key "HashSlice key"] obtain e where
    e: "HandleTable_Lookup key (HashSlice key) C = Some e"
    "if e = 0 then \<forall>x\<in>set xs. key_of C x \<noteq> Some key else e \<in> set xs \<and> key_of C e = Some key"
    unfolding matches_key [OF ok] by blast
  show ?thesis
  proof (cases "e = 0")
    case True
    then show ?thesis using e keeps_same [of C C] by (auto simp: LRUCache_Lookup_def)
  next
    case False
    then have xs: "e \<in> set xs" "key_of C e = Some key" using e(2) by auto
    obtain h where h: "c_handles C e = Some h" using D(8) [OF xs(1)] by blast
    have "unat (lh_refs h) = 1 + cl e" using D(10) [OF h] xs(1) by simp
    moreover have "cl e + 2 < 2 ^ 32" using small by blast
    ultimately have u: "unat (lh_refs h + 1) = cl e + 2" by (simp add: unat_word_ariths)
    let ?C = "C\<lparr>c_handles := (c_handles C)(e \<mapsto> h\<lparr>lh_refs := lh_refs h + 1\<rparr>)\<rparr>"
    have "0 < cl e + 2" by simp
    note ref = shard_refs [OF ok h u this]
    have cnt: "?cnt(e := cl e + 2) = (\<lambda>x. (if x \<in> set (remove1 e xs @ [e]) then 1 else 0) + (cl(e := cl e + 1)) x)"
      using xs(1) D(3) by (auto simp: fun_eq_iff)
    from LRU_Remove_ok [OF ref(1) xs(1)] obtain nx pv where
      rm: "LRU_Remove e ?C = Some (relinked ?C nx pv)" "shard_ok (relinked ?C nx pv) (remove1 e xs) (set xs) (?cnt(e := cl e + 2))" by blast
    have "e \<notin> set (remove1 e xs)" using D(3) by simp
    from LRU_Append_ok [OF rm(2) this] obtain nx' pv' where
      ap: "LRU_Append e (relinked ?C nx pv) = Some (relinked ?C nx' pv')"
      "shard_ok (relinked ?C nx' pv') (remove1 e xs @ [e]) (set xs) (?cnt(e := cl e + 2))" by auto
    have "set (remove1 e xs @ [e]) = set xs" using xs(1) D(3) by auto
    then have "cache_inv (relinked ?C nx' pv') (remove1 e xs @ [e]) (cl(e := cl e + 1))" using ap(2) unfolding cnt cache_inv_def by simp
    moreover have "keeps C (relinked ?C nx' pv') cl"
      using ref(2) stored_cong [of "relinked ?C nx' pv'" ?C] by (intro keeps_same) simp_all
    moreover have "LRUCache_Lookup key (HashSlice key) C = Some (e, relinked ?C nx' pv')"
      using e(1) False h rm(1) ap(1) by (simp add: LRUCache_Lookup_def Let_def)
    ultimately show ?thesis using False xs by auto
  qed
qed

lemma shard_cnt_cong: "shard_ok C xs M cnt \<Longrightarrow> (\<And>x. cnt x = cnt' x) \<Longrightarrow> shard_ok C xs M cnt'"
  by (metis ext)

lemma keeps_retabled: "keeps C (retabled C nh T) cl" and keeps_relinked: "keeps C (relinked C nx pv) cl"
  by (rule keeps_same; simp add: stored_def fun_eq_iff)+

text \<open>An entry that left the table leaves the list and loses the reference of the cache.\<close>

lemma unlink_ok:
  assumes ok: "shard_ok C xs (set xs - {e}) (\<lambda>x. (if x \<in> set xs then 1 else 0) + cl x)" and e: "e \<in> set xs"
  shows "\<exists>C'. Option.bind (LRU_Remove e C) (LRUCache_Unref e) = Some C' \<and> cache_inv C' (remove1 e xs) cl \<and> keeps C C' cl"
proof -
  from LRU_Remove_ok [OF ok e] obtain nx pv where rm: "LRU_Remove e C = Some (relinked C nx pv)"
    "shard_ok (relinked C nx pv) (remove1 e xs) (set xs - {e}) (\<lambda>x. (if x \<in> set xs then 1 else 0) + cl x)" by blast
  have s: "set (remove1 e xs) = set xs - {e}" using shardD(3) [OF ok] by simp
  have "insert e (set (remove1 e xs)) = set xs" using s e by blast
  then obtain C' where "LRUCache_Unref e (relinked C nx pv) = Some C'" "cache_inv C' (remove1 e xs) cl" "keeps (relinked C nx pv) C' cl"
    using Unref_dropped [of "relinked C nx pv" "remove1 e xs" e cl] rm(2) s by auto
  then show ?thesis using rm(1) keeps_trans [OF keeps_relinked] by auto
qed

lemma LRUCache_Erase_ok:
  assumes inv: "cache_inv C xs cl"
  shows "\<exists>C' xs'. LRUCache_Erase key (HashSlice key) C = Some C' \<and> cache_inv C' xs' cl \<and> keeps C C' cl \<and>
    set xs' = {x\<in>set xs. key_of C x \<noteq> Some key}"
proof -
  let ?cnt = "\<lambda>x. (if x \<in> set xs then 1 else 0) + cl x"
  have ok: "shard_ok C xs (set xs) ?cnt" using inv by (simp add: cache_inv_def)
  note D = shardD [OF ok]
  from HandleTable_Remove_ok [OF D(1), of key "HashSlice key"] obtain e nh T where
    r: "HandleTable_Remove key (HashSlice key) C = Some (e, retabled C nh T)" "table_ok (retabled C nh T) (set xs - {e})"
    "if e = 0 then \<forall>x\<in>set xs. key_of C x \<noteq> Some key else e \<in> set xs \<and> key_of C e = Some key"
    unfolding matches_key [OF ok] by blast
  have "inj_on (key_of C) (set xs - {e})" using D(7) by (rule inj_on_subset) blast
  then have ok': "shard_ok (retabled C nh T) xs (set xs - {e}) ?cnt"
    using shard_retabled [OF ok r(2)] D(8) by blast
  show ?thesis
  proof (cases "e = 0")
    case True
    then have "set xs - {e} = set xs" using D(4) by simp
    then have "cache_inv (retabled C nh T) xs cl" using ok' by (simp add: cache_inv_def)
    then show ?thesis using r(1,3) True keeps_retabled by (intro exI [of _ "retabled C nh T"] exI [of _ xs]) (auto simp: LRUCache_Erase_def)
  next
    case False
    then have e: "e \<in> set xs" "key_of C e = Some key" using r(3) by auto
    from unlink_ok [OF ok' e(1)] obtain C' where
      "Option.bind (LRU_Remove e (retabled C nh T)) (LRUCache_Unref e) = Some C'" "cache_inv C' (remove1 e xs) cl" "keeps (retabled C nh T) C' cl" by blast
    moreover have "set (remove1 e xs) = {x\<in>set xs. key_of C x \<noteq> Some key}"
      using e D(3,7) by (auto simp: inj_on_def)
    moreover have "keeps C C' cl" by (rule keeps_trans [OF keeps_retabled]) fact
    ultimately show ?thesis using r(1) False by (intro exI [of _ C'] exI [of _ "remove1 e xs"]) (simp add: LRUCache_Erase_def)
  qed
qed

text \<open>Eviction ends, with the usage in bounds or with no entry left.\<close>

lemma evict_step:
  assumes inv: "cache_inv C (e # xs) cl"
  shows "\<exists>C1 C2 C3 h. LRU_Remove e C = Some C1 \<and> LRUHandle_key C1 e = Some (lh_key h) \<and> c_handles C1 e = Some h \<and>
    HandleTable_Remove (lh_key h) (lh_hash h) C1 = Some (e, C2) \<and> LRUCache_Unref e C2 = Some C3 \<and> cache_inv C3 xs cl \<and> keeps C C3 cl \<and>
    (0 < cl e \<longrightarrow> c_usage C3 = c_usage C)"
proof -
  let ?cnt = "\<lambda>x. (if x \<in> set (e # xs) then 1 else 0) + cl x"
  have ok: "shard_ok C (e # xs) (set (e # xs)) ?cnt" using inv by (simp add: cache_inv_def)
  from LRU_Remove_ok [OF ok, of e] obtain nx pv where
    rm: "LRU_Remove e C = Some (relinked C nx pv)" "shard_ok (relinked C nx pv) xs (set (e # xs)) ?cnt" by auto
  let ?C = "relinked C nx pv"
  note D = shardD [OF rm(2)]
  obtain h where h: "c_handles ?C e = Some h" using D(9) [of e] by auto
  have k: "key_of ?C e = Some (lh_key h)" "lh_hash h = HashSlice (lh_key h)" "c_next ?C e \<noteq> e" using h D(10) [OF h] by (simp_all add: key_of_def)
  from HandleTable_Remove_ok [OF D(1), of "lh_key h" "lh_hash h"] obtain e' nh T where
    r: "HandleTable_Remove (lh_key h) (lh_hash h) ?C = Some (e', retabled ?C nh T)" "table_ok (retabled ?C nh T) (set (e # xs) - {e'})"
    "if e' = 0 then \<forall>x\<in>set (e # xs). key_of ?C x \<noteq> Some (lh_key h) else e' \<in> set (e # xs) \<and> key_of ?C e' = Some (lh_key h)"
    unfolding k(2) matches_key [OF rm(2)] by blast
  have "e' \<in> set (e # xs)" "key_of ?C e' = key_of ?C e" using r(3) k(1) by (cases "e' = 0"; auto)+
  then have e': "e' = e" using D(7) by (auto simp: inj_on_def)
  have s: "set (e # xs) - {e} = set xs" using shardD(3) [OF ok] by auto
  have "inj_on (key_of ?C) (set xs)" using D(7) by (rule inj_on_subset) auto
  then have "shard_ok (retabled ?C nh T) xs (set xs) ?cnt"
    using shard_retabled [OF rm(2) r(2) [unfolded e' s]] D(8) by blast
  then obtain C3 where c3: "LRUCache_Unref e (retabled ?C nh T) = Some C3" "cache_inv C3 xs cl" "keeps (retabled ?C nh T) C3 cl" "0 < cl e \<longrightarrow> c_usage C3 = c_usage C"
    using Unref_dropped [of "retabled ?C nh T" xs e cl] shardD(3) [OF ok] by auto
  have "LRUHandle_key ?C e = Some (lh_key h)" using h k(3) by (simp add: LRUHandle_key_def)
  then show ?thesis
    using rm(1) h r(1) c3 keeps_trans [OF keeps_trans [OF keeps_relinked keeps_retabled] c3(3)] unfolding e'
    by (intro exI [of _ ?C] exI [of _ "retabled ?C nh T"] exI [of _ C3] exI [of _ h] conjI)
qed

lemma evict_loop_ok:
  assumes "cache_inv C xs cl"
  shows "\<exists>C' n. evict_loop C = Some C' \<and> cache_inv C' (drop n xs) cl \<and> keeps C C' cl \<and> (c_usage C' \<le> c_capacity C' \<or> drop n xs = []) \<and>
    (xs \<noteq> [] \<and> 0 < cl (last xs) \<and> c_usage C' \<le> c_capacity C' \<longrightarrow> drop n xs \<noteq> [])"
  using assms
proof (induction xs arbitrary: C)
  case Nil
  then have "seg (c_next C) (c_prev C) 0 [] 0" unfolding cache_inv_def by (rule shardD(2))
  then show ?case using Nil keeps_same [of C C] by (subst evict_loop.simps) auto
next
  case (Cons e xs)
  have sg: "seg (c_next C) (c_prev C) 0 (e # xs) 0" and e: "e \<noteq> 0"
    using Cons.prems unfolding cache_inv_def by (auto dest: shardD(2,4))
  show ?case
  proof (cases "c_usage C > c_capacity C")
    case False
    then have "evict_loop C = Some C" by (subst evict_loop.simps) simp
    then show ?thesis using False Cons.prems keeps_same [of C C] by (intro exI [of _ C] exI [of _ 0]) simp
  next
    case True
    from evict_step [OF Cons.prems] obtain C1 C2 C3 h where
      s: "LRU_Remove e C = Some C1" "LRUHandle_key C1 e = Some (lh_key h)" "c_handles C1 e = Some h"
      "HandleTable_Remove (lh_key h) (lh_hash h) C1 = Some (e, C2)" "LRUCache_Unref e C2 = Some C3" "cache_inv C3 xs cl" "keeps C C3 cl"
      "0 < cl e \<longrightarrow> c_usage C3 = c_usage C" by (elim exE conjE) (rule that)
    then have "evict_loop C = evict_loop C3" using True sg e by (subst evict_loop.simps) simp
    moreover from Cons.IH [OF s(6)] obtain C' n where r: "evict_loop C3 = Some C'" "cache_inv C' (drop n xs) cl" "keeps C3 C' cl"
      "c_usage C' \<le> c_capacity C' \<or> drop n xs = []" "xs \<noteq> [] \<and> 0 < cl (last xs) \<and> c_usage C' \<le> c_capacity C' \<longrightarrow> drop n xs \<noteq> []" by blast
    moreover have "\<not> c_usage C' \<le> c_capacity C'" if "xs = []" "0 < cl e"
    proof -
      have "seg (c_next C3) (c_prev C3) 0 [] 0" using s(6) that(1) unfolding cache_inv_def by (auto dest: shardD(2))
      then have "C' = C3" using r(1) by (subst (asm) evict_loop.simps) simp
      then show ?thesis using s(7,8) that(2) True by (auto simp: keeps_def)
    qed
    ultimately show ?thesis using keeps_trans [OF s(7)] by (intro exI [of _ C'] exI [of _ "Suc n"]) auto
  qed
qed

text \<open>A new entry.\<close>

lemma shard_new:
  fixes val :: 'v
  assumes ok: "shard_ok C xs M cnt" and e: "e \<noteq> 0" "c_handles C e = None"
    and h: "h = \<lparr>lh_value = val, lh_charge = charge, lh_refs = 2, lh_hash = HashSlice key, lh_key = key\<rparr>"
  shows "\<exists>nx pv. LRU_Append e (C\<lparr>c_handles := (c_handles C)(e \<mapsto> h)\<rparr>) = Some (relinked (C\<lparr>c_handles := (c_handles C)(e \<mapsto> h)\<rparr>) nx pv) \<and>
    shard_ok (relinked (C\<lparr>c_handles := (c_handles C)(e \<mapsto> h), c_usage := c_usage C + charge\<rparr>) nx pv) (xs @ [e]) M (cnt(e := 2))"
proof -
  note D = shardD [OF ok]
  let ?H = "(c_handles C)(e \<mapsto> h)"
  let ?C = "C\<lparr>c_handles := ?H\<rparr>"
  have ne: "e \<notin> set xs" "e \<notin> M" using D(8,9) e(2) by blast+
  have al: "alive ?C e" "x \<in> set xs \<Longrightarrow> alive ?C x" for x using D(8) by (auto simp: alive_def)
  from LRU_Append_links [of ?C xs e] D(2,3,4) ne(1) e(1) al obtain nx pv where
    r: "LRU_Append e ?C = Some (relinked ?C nx pv)" "seg nx pv 0 (xs @ [e]) 0" "nx e \<noteq> e"
    "\<forall>x. x \<noteq> 0 \<longrightarrow> c_next C x \<noteq> x \<longrightarrow> nx x \<noteq> x" by auto
  let ?N = "relinked (C\<lparr>c_handles := ?H, c_usage := c_usage C + charge\<rparr>) nx pv"
  have self: "nx x \<noteq> x" if Hx: "?H x \<noteq> None" for x
  proof (cases "x = e")
    case False
    then obtain hx where hx: "c_handles C x = Some hx" using Hx by auto
    then have "x \<noteq> 0" using D(6) by (cases "x = 0") simp_all
    then show ?thesis using D(10) [OF hx] r(4) by blast
  qed (simp add: r(3))
  have "table_ok ?N M"
  proof (rule table_frame [OF D(1)])
    show "\<forall>x\<in>M. c_next ?N x \<noteq> x \<and> map_option lh_hash (c_handles ?N x) = map_option lh_hash (c_handles C x)"
    proof
      fix x assume x: "x \<in> M"
      then have "x \<noteq> e" "c_handles C x \<noteq> None" using ne(2) D(9) by blast+
      then show "c_next ?N x \<noteq> x \<and> map_option lh_hash (c_handles ?N x) = map_option lh_hash (c_handles C x)" using self [of x] by simp
    qed
  qed simp_all
  moreover have dm: "dom ?H = insert e (dom (c_handles C))" by simp
  moreover have "(\<Sum>x\<in>dom ?H. lh_charge (the (?H x))) = c_usage C + charge"
  proof -
    have "(\<Sum>x\<in>dom (c_handles C). lh_charge (the (?H x))) = (\<Sum>x\<in>dom (c_handles C). lh_charge (the (c_handles C x)))"
      using e(2) by (intro sum.cong) auto
    moreover have "e \<notin> dom (c_handles C)" using e(2) by auto
    ultimately show ?thesis unfolding dm using D(5,12) by (simp add: h add.commute)
  qed
  moreover have "inj_on (key_of ?N) M" using D(7) ne(2) by (auto simp: inj_on_def key_of_def)
  moreover have "\<forall>x hx. ?H x = Some hx \<longrightarrow> nx x \<noteq> x \<and> lh_hash hx = HashSlice (lh_key hx) \<and> unat (lh_refs hx) = (cnt(e := 2)) x"
    using self D(10) by (auto simp: h)
  moreover have "\<forall>x. 0 < (cnt(e := 2)) x \<longleftrightarrow> ?H x \<noteq> None" using D(11) by auto
  moreover have "set (xs @ [e]) \<union> M \<subseteq> dom ?H" using D(8,9) by auto
  moreover have "?H 0 = None" "finite (dom ?H)" "distinct (xs @ [e])" using D(3,5,6) e(1) ne(1) by auto
  ultimately have "shard_ok ?N (xs @ [e]) M (cnt(e := 2))" using r(2) unfolding shard_ok_def by simp
  then show ?thesis using r(1) by blast
qed

lemma ledger_new:
  assumes "finite (dom (stored C))" and "stored C e = None" and "stored C' = (stored C)(e \<mapsto> kv)" and "c_deleted C' = c_deleted C"
  shows "ledger C' = add_mset kv (ledger C)"
proof -
  have "image_mset (\<lambda>x. the (stored C' x)) (mset_set (dom (stored C))) = image_mset (\<lambda>x. the (stored C x)) (mset_set (dom (stored C)))"
    using assms(1,2) by (intro image_mset_cong) (auto simp: assms(3))
  moreover have "e \<notin> dom (stored C)" "dom (stored C') = insert e (dom (stored C))" using assms(2,3) by auto
  ultimately show ?thesis using assms(1,3,4) by (simp add: ledger_def)
qed

end
