(* ===== verification/Cache_Props.thy ===== *)
theory Cache_Props
  imports Cache_Safety
begin

text \<open>
  Clients of the sharded cache: sequences of calls that respect its interface run without touching
  freed memory, look-ups return the latest value of a key or nothing, and every value that was inserted
  is given to its deleter exactly once.
\<close>

subsection \<open>Insertion into a shard\<close>

lemma stored_new:
  "stored (relinked (C\<lparr>c_handles := (c_handles C)(e \<mapsto> h), c_usage := u\<rparr>) nx pv) = (stored C)(e \<mapsto> (lh_key h, lh_value h))"
  by (auto simp: stored_def fun_eq_iff)

lemma key_of_stored: "key_of C x = map_option fst (stored C x)"
  by (cases "c_handles C x") (simp_all add: key_of_def stored_def)

lemma LRUCache_Insert_ok:
  fixes val :: 'v
  assumes inv: "cache_inv C xs cl" and e: "e \<noteq> 0" "c_handles C e = None" and small: "length xs < 2 ^ 31"
  shows "\<exists>C1 C' ys. LRUCache_Insert e key (HashSlice key) val charge C = Some (e, C') \<and> cache_inv C' ys (cl(e := 1)) \<and>
    length ys \<le> Suc (length xs) \<and> set ys \<subseteq> insert e {x\<in>set xs. key_of C x \<noteq> Some key} \<and>
    stored C1 = (stored C)(e \<mapsto> (key, val)) \<and> keeps C1 C' (cl(e := 1)) \<and> c_capacity C1 = c_capacity C \<and>
    ledger C1 = add_mset (key, val) (ledger C) \<and> (c_usage C' \<le> c_capacity C' \<or> ys = []) \<and> (c_usage C' \<le> c_capacity C' \<longrightarrow> e \<in> set ys)"
proof -
  let ?cnt = "\<lambda>x. (if x \<in> set xs then 1 else 0) + cl x"
  have ok: "shard_ok C xs (set xs) ?cnt" using inv by (simp add: cache_inv_def)
  note D = shardD [OF ok]
  define h where "h = \<lparr>lh_value = val, lh_charge = charge, lh_refs = 2, lh_hash = HashSlice key, lh_key = key\<rparr>"
  from shard_new [OF ok e h_def] obtain nx pv where
    n: "LRU_Append e (C\<lparr>c_handles := (c_handles C)(e \<mapsto> h)\<rparr>) = Some (relinked (C\<lparr>c_handles := (c_handles C)(e \<mapsto> h)\<rparr>) nx pv)"
    "shard_ok (relinked (C\<lparr>c_handles := (c_handles C)(e \<mapsto> h), c_usage := c_usage C + charge\<rparr>) nx pv) (xs @ [e]) (set xs) (?cnt(e := 2))" by blast
  define N where "N = relinked (C\<lparr>c_handles := (c_handles C)(e \<mapsto> h), c_usage := c_usage C + charge\<rparr>) nx pv"
  have ok2: "shard_ok N (xs @ [e]) (set xs) (?cnt(e := 2))" using n(2) by (simp add: N_def)
  note D2 = shardD [OF ok2]
  have ne: "e \<notin> set xs" and cl0: "cl e = 0" using D(8) e(2) D(11) [of e] by auto
  have st: "stored N = (stored C)(e \<mapsto> (key, val))" unfolding N_def stored_new by (simp add: h_def)
  have hN: "c_handles N e = Some h" "c_next N e \<noteq> e" using D2(10) [of e h] by (simp_all add: N_def)
  have kx: "key_of N x = key_of C x" if "x \<in> set xs" for x using that ne by (auto simp: key_of_def N_def)
  have ke: "key_of N e = Some key" by (simp add: key_of_def N_def h_def)
  have card: "card (set xs) < 2 ^ 31" using small card_length [of xs] by linarith
  have hk: "lh_key h = key" "lh_hash h = HashSlice key" by (simp_all add: h_def)
  from HandleTable_Insert_ok [OF D2(1) hN ne e(1) card, unfolded hk matches_key [OF ok2]] obtain old nh T where
    ins': "HandleTable_Insert e N = Some (old, retabled N nh T)" "table_ok (retabled N nh T) (insert e (set xs - {old}))"
    "if old = 0 then \<forall>x\<in>set xs. key_of N x \<noteq> Some key else old \<in> set xs \<and> key_of N old = Some key" by blast
  have ins: "HandleTable_Insert e N = Some (old, retabled N nh T)" "table_ok (retabled N nh T) (insert e (set xs - {old}))"
    "if old = 0 then \<forall>x\<in>set xs. key_of C x \<noteq> Some key else old \<in> set xs \<and> key_of C old = Some key"
    using ins' kx by (auto split: if_splits)
  have others: "key_of C x \<noteq> Some key" if "x \<in> set xs" "x \<noteq> old" for x
    using ins(3) that D(7) by (cases "old = 0") (auto simp: inj_on_def)
  have "inj_on (key_of N) (insert e (set xs - {old}))"
  proof (rule inj_onI)
    fix x y assume xy: "x \<in> insert e (set xs - {old})" "y \<in> insert e (set xs - {old})" and eq: "key_of N x = key_of N y"
    show "x = y"
    proof (cases "x = e \<or> y = e")
      case True
      then show ?thesis using xy eq ke kx [of x] kx [of y] others [of x] others [of y] by auto
    next
      case False
      then show ?thesis using xy eq kx D(7) by (auto simp: inj_on_def)
    qed
  qed
  moreover have "insert e (set xs - {old}) \<subseteq> dom (c_handles N)" using D2(8) by auto
  ultimately have ok3: "shard_ok (retabled N nh T) (xs @ [e]) (insert e (set xs - {old})) (?cnt(e := 2))"
    using shard_retabled [OF ok2 ins(2)] by blast
  have cnt: "(?cnt(e := 2)) x = (if x \<in> set (xs @ [e]) then 1 else 0) + (cl(e := 1)) x" for x using ne by simp
  note ok4 = shard_cnt_cong [OF ok3 cnt]
  obtain R where R: "(if old \<noteq> 0 then Option.bind (LRU_Remove old (retabled N nh T)) (LRUCache_Unref old) else Some (retabled N nh T)) = Some R"
    "cache_inv R (remove1 old (xs @ [e])) (cl(e := 1))" "keeps N R (cl(e := 1))"
  proof (cases "old = 0")
    case True
    then have "insert e (set xs - {old}) = set (xs @ [e])" "remove1 old (xs @ [e]) = xs @ [e]"
      using D(4) e(1) by (auto simp: remove1_idem)
    moreover have "keeps N (retabled N nh T) (cl(e := 1))" by (rule keeps_retabled)
    ultimately show ?thesis using that [of "retabled N nh T"] True ok4 by (simp add: cache_inv_def)
  next
    case False
    then have o: "old \<in> set xs" using ins(3) by simp
    then have "insert e (set xs - {old}) = set (xs @ [e]) - {old}" using ne by auto
    then have "\<exists>R. Option.bind (LRU_Remove old (retabled N nh T)) (LRUCache_Unref old) = Some R \<and>
        cache_inv R (remove1 old (xs @ [e])) (cl(e := 1)) \<and> keeps (retabled N nh T) R (cl(e := 1))"
      using unlink_ok [of "retabled N nh T" "xs @ [e]" old "cl(e := 1)"] ok4 o by simp
    then obtain R where r: "Option.bind (LRU_Remove old (retabled N nh T)) (LRUCache_Unref old) = Some R"
      "cache_inv R (remove1 old (xs @ [e])) (cl(e := 1))" "keeps (retabled N nh T) R (cl(e := 1))" by blast
    show ?thesis using that [of R] r keeps_trans [OF keeps_retabled r(3)] False by simp
  qed
  from evict_loop_ok [OF R(2)] obtain C' n where
    ev: "evict_loop R = Some C'" "cache_inv C' (drop n (remove1 old (xs @ [e]))) (cl(e := 1))" "keeps R C' (cl(e := 1))"
    "c_usage C' \<le> c_capacity C' \<or> drop n (remove1 old (xs @ [e])) = []"
    "remove1 old (xs @ [e]) \<noteq> [] \<and> 0 < (cl(e := 1)) (last (remove1 old (xs @ [e]))) \<and> c_usage C' \<le> c_capacity C' \<longrightarrow> drop n (remove1 old (xs @ [e])) \<noteq> []"
    by blast
  have lst: "remove1 old (xs @ [e]) \<noteq> []" "last (remove1 old (xs @ [e])) = e"
    using ins(3) ne e(1) D(4) by (auto simp: remove1_append remove1_idem split: if_splits)
  have hit: "e \<in> set (drop n (remove1 old (xs @ [e])))" if "c_usage C' \<le> c_capacity C'"
  proof -
    have "drop n (remove1 old (xs @ [e])) \<noteq> []" using ev(5) lst that by simp
    then show ?thesis using last_drop [of n "remove1 old (xs @ [e])"] lst(2) last_in_set [of "drop n (remove1 old (xs @ [e]))"] by simp
  qed
  have eqN: "relinked (C\<lparr>c_handles := (c_handles C)(e \<mapsto> h)\<rparr>) nx pv\<lparr>c_usage := c_usage C + charge\<rparr> = N" by (simp add: N_def)
  have "LRUCache_Insert e key (HashSlice key) val charge C = Some (e, C')"
    using n(1) ins(1) R(1) ev(1) by (simp add: LRUCache_Insert_def h_def [symmetric] eqN Let_def)
  moreover have "length (drop n (remove1 old (xs @ [e]))) \<le> Suc (length xs)" by (auto simp: length_remove1)
  moreover have "set (drop n (remove1 old (xs @ [e]))) \<subseteq> insert e {x\<in>set xs. key_of C x \<noteq> Some key}"
  proof
    fix x assume "x \<in> set (drop n (remove1 old (xs @ [e])))"
    then have "x \<in> set (remove1 old (xs @ [e]))" by (rule in_set_dropD)
    then have "x \<in> set (xs @ [e]) - {old}" using D2(3) by (subst set_remove1_eq [symmetric]) simp_all
    then show "x \<in> insert e {x\<in>set xs. key_of C x \<noteq> Some key}" using others by auto
  qed
  moreover have "ledger N = add_mset (key, val) (ledger C)"
    by (rule ledger_new [OF _ _ st]) (use D(5) e(2) in \<open>simp_all add: dom_stored stored_def N_def\<close>)
  ultimately show ?thesis using ev(2,4) hit st keeps_trans [OF R(3) ev(3)]
    by (intro exI [of _ N] exI [of _ C'] exI [of _ "drop n (remove1 old (xs @ [e]))"]) (simp add: N_def)
qed

subsection \<open>Clients\<close>

text \<open>
  A client inserts, looks up, releases and erases.  \<open>cr_held\<close> are the handles that were handed out and not
  released yet, \<open>cr_made\<close> the pairs that were inserted, and \<open>cr_latest\<close> the value that was inserted last under a
  key that was not erased since.
\<close>

datatype 'v cache_op = DoInsert nat bytes 'v uint64 | DoLookup bytes | DoRelease Handle | DoErase bytes

record 'v CacheRun =
  cr_cache :: "'v ShardedLRUCache"
  cr_held :: "Handle list"
  cr_made :: "(bytes \<times> 'v) list"
  cr_latest :: "bytes \<Rightarrow> 'v option"

fun cache_do :: "'v cache_op \<Rightarrow> 'v CacheRun \<Rightarrow> 'v CacheRun option" where
  "cache_do (DoInsert e key val charge) R =
     map_option (\<lambda>(h, S). R\<lparr>cr_cache := S, cr_held := h # cr_held R, cr_made := (key, val) # cr_made R, cr_latest := (cr_latest R)(key \<mapsto> val)\<rparr>)
       (Cache_Insert e key val charge (cr_cache R))"
| "cache_do (DoLookup key) R =
     map_option (\<lambda>(h, S). R\<lparr>cr_cache := S, cr_held := (case h of None \<Rightarrow> cr_held R | Some h \<Rightarrow> h # cr_held R)\<rparr>) (Cache_Lookup key (cr_cache R))"
| "cache_do (DoRelease h) R = map_option (\<lambda>S. R\<lparr>cr_cache := S, cr_held := remove1 h (cr_held R)\<rparr>) (Cache_Release h (cr_cache R))"
| "cache_do (DoErase key) R = map_option (\<lambda>S. R\<lparr>cr_cache := S, cr_latest := (cr_latest R)(key := None)\<rparr>) (Cache_Erase key (cr_cache R))"

text \<open>
  The allocator gives an address that is not in use, a handle is released only while it is held, and
  the counters of 32 bits do not overflow.
\<close>

fun permitted :: "'v cache_op \<Rightarrow> 'v CacheRun \<Rightarrow> bool" where
  "permitted (DoInsert e key val charge) R \<longleftrightarrow>
     (let C = sc_shard (cr_cache R) ! Shard (HashSlice key) in e \<noteq> 0 \<and> c_handles C e = None \<and> ht_elems (c_table C) < 2 ^ 31)"
| "permitted (DoLookup key) R \<longleftrightarrow> length (cr_held R) + 2 < 2 ^ 32"
| "permitted (DoRelease h) R \<longleftrightarrow> h \<in> set (cr_held R)"
| "permitted (DoErase key) R \<longleftrightarrow> True"

inductive cache_reachable :: "uint64 \<Rightarrow> 'v CacheRun \<Rightarrow> bool" for capacity where
  start: "cache_reachable capacity \<lparr>cr_cache = NewLRUCache capacity, cr_held = [], cr_made = [], cr_latest = Map.empty\<rparr>"
| step: "cache_reachable capacity R \<Longrightarrow> permitted oper R \<Longrightarrow> cache_do oper R = Some R' \<Longrightarrow> cache_reachable capacity R'"

subsection \<open>The invariant of all shards\<close>

definition held_at :: "Handle list \<Rightarrow> nat \<Rightarrow> nat \<Rightarrow> nat" where
  "held_at hs i e = length (filter (\<lambda>h. Shard (fst h) = i \<and> snd h = e) hs)"

lemma held_at_Cons: "held_at ((hash, e) # hs) i = (if Shard hash = i then (held_at hs i)(e := held_at hs i e + 1) else held_at hs i)"
  by (auto simp: held_at_def fun_eq_iff)

lemma held_at_remove:
  "(hash, e) \<in> set hs \<Longrightarrow> held_at (remove1 (hash, e) hs) i = (if Shard hash = i then (held_at hs i)(e := held_at hs i e - 1) else held_at hs i)"
  by (auto simp: held_at_def fun_eq_iff filter_remove1 length_remove1)

lemma held_at_pos: "(hash, e) \<in> set hs \<Longrightarrow> 0 < held_at hs (Shard hash) e"
  by (force simp: held_at_def filter_empty_conv)

lemma held_at_le: "held_at hs i e \<le> length hs"
  by (simp add: held_at_def)

lemma Shard_less: "Shard hash < kNumShards"
proof -
  have "unat hash < 2 ^ 32" using unsigned_less [of hash] by simp
  then have "unat hash div 2 ^ 28 < 2 ^ 4" by (intro less_mult_imp_div_less) simp
  then show ?thesis by (simp add: Shard_def kNumShards_def kNumShardBits_def unat_drop_bit_div)
qed

text \<open>One shard: its structure, its entries are of that shard and the ones in the table are the latest.\<close>

definition shard_run :: "nat \<Rightarrow> (nat \<Rightarrow> nat) \<Rightarrow> (bytes \<Rightarrow> 'v option) \<Rightarrow> 'v LRUCache \<Rightarrow> bool" where
  "shard_run i cl latest C \<longleftrightarrow>
     (\<exists>xs. cache_inv C xs cl \<and> length xs \<le> 2 ^ 31 \<and> (\<forall>x\<in>set xs. \<forall>k v. stored C x = Some (k, v) \<longrightarrow> latest k = Some v)) \<and>
     (\<forall>x k v. stored C x = Some (k, v) \<longrightarrow> Shard (HashSlice k) = i)"

definition run_ok :: "'v CacheRun \<Rightarrow> bool" where
  "run_ok R \<longleftrightarrow> (let shards = sc_shard (cr_cache R) in
     length shards = kNumShards \<and> (\<forall>i<kNumShards. shard_run i (held_at (cr_held R) i) (cr_latest R) (shards ! i)) \<and>
     (\<forall>(hash, e)\<in>set (cr_held R). \<exists>k v. stored (shards ! Shard hash) e = Some (k, v) \<and> HashSlice k = hash) \<and>
     mset (cr_made R) = (\<Sum>C\<leftarrow>shards. ledger C))"

lemma shard_runI:
  assumes "cache_inv C' ys cl'" and "length ys \<le> 2 ^ 31" and "keeps C C' cl0"
    and "\<And>x k v. x \<in> set ys \<Longrightarrow> stored C x = Some (k, v) \<Longrightarrow> latest k = Some v"
    and "\<And>x k v. stored C x = Some (k, v) \<Longrightarrow> Shard (HashSlice k) = i"
  shows "shard_run i cl' latest C'"
proof -
  have "stored C' x = Some p \<Longrightarrow> stored C x = Some p" for x p
    using assms(3) unfolding keeps_def by (metis option.distinct(1))
  then show ?thesis using assms(1,2,4,5) unfolding shard_run_def by blast
qed

lemma shard_run_elems:
  assumes "cache_inv C xs cl" and "length xs \<le> 2 ^ 31" and "ht_elems (c_table C) < 2 ^ 31"
  shows "length xs < 2 ^ 31"
proof -
  have "shard_ok C xs (set xs) (\<lambda>x. (if x \<in> set xs then 1 else 0) + cl x)" using assms(1) by (simp add: cache_inv_def)
  from shardD(1,3) [OF this] have "ht_elems (c_table C) = of_nat (length xs)" by (simp add: table_ok_def distinct_card)
  then have "unat (ht_elems (c_table C)) = length xs" using assms(2) by (simp add: unat_of_nat_small)
  then show ?thesis using assms(3) by (simp add: word_less_nat_alt)
qed

lemma Insert_run:
  assumes run: "shard_run i cl latest C" and i: "Shard (HashSlice key) = i"
    and e: "e \<noteq> 0" "c_handles C e = None" "ht_elems (c_table C) < 2 ^ 31"
  shows "\<exists>C'. LRUCache_Insert e key (HashSlice key) val charge C = Some (e, C') \<and> shard_run i (cl(e := cl e + 1)) (latest(key \<mapsto> val)) C' \<and>
    (\<forall>x. 0 < cl x \<longrightarrow> stored C' x = stored C x) \<and> stored C' e = Some (key, val) \<and> ledger C' = add_mset (key, val) (ledger C) \<and>
    c_capacity C' = c_capacity C \<and> (c_usage C' \<le> c_capacity C' \<or> ht_elems (c_table C') = 0) \<and>
    (c_usage C' \<le> c_capacity C' \<longrightarrow> HandleTable_Lookup key (HashSlice key) C' = Some e)"
proof -
  from run obtain xs where xs: "cache_inv C xs cl" "length xs \<le> 2 ^ 31" "\<forall>x\<in>set xs. \<forall>k v. stored C x = Some (k, v) \<longrightarrow> latest k = Some v"
    and sh: "\<And>x k v. stored C x = Some (k, v) \<Longrightarrow> Shard (HashSlice k) = i" unfolding shard_run_def by blast
  have small: "length xs < 2 ^ 31" by (rule shard_run_elems [OF xs(1,2) e(3)])
  have cl0: "cl e = 0" using xs(1) e(2) shardD(11) [of C xs "set xs" _ e] unfolding cache_inv_def by fastforce
  from LRUCache_Insert_ok [OF xs(1) e(1,2) small, of key val charge] obtain C1 C' ys where
    r: "LRUCache_Insert e key (HashSlice key) val charge C = Some (e, C')" "cache_inv C' ys (cl(e := 1))" "length ys \<le> Suc (length xs)"
    "set ys \<subseteq> insert e {x\<in>set xs. key_of C x \<noteq> Some key}" "stored C1 = (stored C)(e \<mapsto> (key, val))" "keeps C1 C' (cl(e := 1))"
    "c_capacity C1 = c_capacity C" "ledger C1 = add_mset (key, val) (ledger C)" "c_usage C' \<le> c_capacity C' \<or> ys = []"
    "c_usage C' \<le> c_capacity C' \<longrightarrow> e \<in> set ys" by blast
  note ko = key_of_stored [of C]
  have "shard_run i (cl(e := cl e + 1)) (latest(key \<mapsto> val)) C'" unfolding cl0
  proof (rule shard_runI [of _ ys _ C1])
    show "cache_inv C' ys (cl(e := 0 + 1))" using r(2) by simp
    show "(latest(key \<mapsto> val)) k = Some v" if "x \<in> set ys" "stored C1 x = Some (k, v)" for x k v
      using that r(4) xs(3) ko [of x] unfolding r(5) by (cases "x = e") auto
    show "Shard (HashSlice k) = i" if "stored C1 x = Some (k, v)" for x k v
      using that sh i unfolding r(5) by (cases "x = e") auto
  qed (use r(3,6) small in auto)
  moreover have "\<forall>x. 0 < cl x \<longrightarrow> stored C' x = stored C x"
  proof (intro allI impI)
    fix x assume x: "0 < cl x"
    then have "x \<noteq> e" using cl0 by auto
    then have "stored C' x = stored C1 x" using r(6) x by (simp add: keeps_def)
    then show "stored C' x = stored C x" using \<open>x \<noteq> e\<close> by (simp add: r(5))
  qed
  moreover have se: "stored C' e = Some (key, val)"
  proof -
    have "stored C' e = stored C1 e" using r(6) by (simp add: keeps_def)
    then show ?thesis by (simp add: r(5))
  qed
  moreover have "ht_elems (c_table C') = 0" if "ys = []"
    using r(2) that by (simp add: cache_inv_def shard_ok_def table_ok_def)
  moreover have "HandleTable_Lookup key (HashSlice key) C' = Some e" if "c_usage C' \<le> c_capacity C'"
  proof -
    have ok: "shard_ok C' ys (set ys) (\<lambda>x. (if x \<in> set ys then 1 else 0) + (cl(e := 1)) x)" using r(2) by (simp add: cache_inv_def)
    have "e \<in> set ys" "key_of C' e = Some key" using r(10) that se by (simp_all add: key_of_stored)
    then show ?thesis
      using HandleTable_Lookup_ok [OF shardD(1) [OF ok], of key "HashSlice key"] shardD(7) [OF ok] unfolding matches_key [OF ok]
      by (auto simp: inj_on_def split: if_splits)
  qed
  ultimately show ?thesis using r(1,6-9) by (auto simp: keeps_def)
qed

lemma Lookup_run:
  assumes run: "shard_run i cl latest C" and small: "\<forall>x. cl x + 2 < 2 ^ 32"
  shows "\<exists>e C'. LRUCache_Lookup key (HashSlice key) C = Some (e, C') \<and> (\<forall>x. 0 < cl x \<longrightarrow> stored C' x = stored C x) \<and> ledger C' = ledger C \<and>
    (if e = 0 then C' = C else shard_run i (cl(e := cl e + 1)) latest C' \<and> (\<exists>v. stored C' e = Some (key, v) \<and> latest key = Some v))"
proof -
  from run obtain xs where xs: "cache_inv C xs cl" "length xs \<le> 2 ^ 31" "\<forall>x\<in>set xs. \<forall>k v. stored C x = Some (k, v) \<longrightarrow> latest k = Some v"
    and sh: "\<And>x k v. stored C x = Some (k, v) \<Longrightarrow> Shard (HashSlice k) = i" unfolding shard_run_def by blast
  from LRUCache_Lookup_ok [OF xs(1) small, of key] obtain e C' where
    r: "LRUCache_Lookup key (HashSlice key) C = Some (e, C')" "keeps C C' cl"
    "if e = 0 then C' = C \<and> (\<forall>x\<in>set xs. key_of C x \<noteq> Some key)
     else e \<in> set xs \<and> key_of C e = Some key \<and> cache_inv C' (remove1 e xs @ [e]) (cl(e := cl e + 1))" by blast
  have "shard_run i (cl(e := cl e + 1)) latest C' \<and> (\<exists>v. stored C' e = Some (key, v) \<and> latest key = Some v)" if "e \<noteq> 0"
  proof
    have e: "e \<in> set xs" "key_of C e = Some key" "cache_inv C' (remove1 e xs @ [e]) (cl(e := cl e + 1))" using r(3) that by auto
    then show "shard_run i (cl(e := cl e + 1)) latest C'"
      using xs(2,3) by (intro shard_runI [OF e(3) _ r(2) _ sh]) (auto simp: length_remove1 dest: notin_set_remove1)
    obtain v where v: "stored C e = Some (key, v)" using e(2) by (auto simp: key_of_def stored_def)
    have "stored C' e \<noteq> None" using e(3) shardD(8) [of C' "remove1 e xs @ [e]" _ _ e] unfolding cache_inv_def by (fastforce simp: stored_def)
    then have "stored C' e = Some (key, v)" using r(2) v unfolding keeps_def by metis
    then show "\<exists>v. stored C' e = Some (key, v) \<and> latest key = Some v" using xs(3) e(1) v by blast
  qed
  then show ?thesis using r unfolding keeps_def by (cases "e = 0") auto
qed

lemma Release_run:
  assumes run: "shard_run i cl latest C" and e: "0 < cl e"
  shows "\<exists>C'. LRUCache_Release e C = Some C' \<and> shard_run i (cl(e := cl e - 1)) latest C' \<and> ledger C' = ledger C \<and>
    (\<forall>x. 0 < (cl(e := cl e - 1)) x \<longrightarrow> stored C' x = stored C x)"
proof -
  from run obtain xs where xs: "cache_inv C xs cl" "length xs \<le> 2 ^ 31" "\<forall>x\<in>set xs. \<forall>k v. stored C x = Some (k, v) \<longrightarrow> latest k = Some v"
    and sh: "\<And>x k v. stored C x = Some (k, v) \<Longrightarrow> Shard (HashSlice k) = i" unfolding shard_run_def by blast
  from LRUCache_Release_ok [OF xs(1) e] obtain C' where
    r: "LRUCache_Release e C = Some C'" "cache_inv C' xs (cl(e := cl e - 1))" "keeps C C' (cl(e := cl e - 1))" by blast
  have "shard_run i (cl(e := cl e - 1)) latest C'" using xs(3) by (intro shard_runI [OF r(2) xs(2) r(3) _ sh]) auto
  then show ?thesis using r(1,3) unfolding keeps_def by blast
qed

lemma Erase_run:
  assumes run: "shard_run i cl latest C"
  shows "\<exists>C'. LRUCache_Erase key (HashSlice key) C = Some C' \<and> shard_run i cl (latest(key := None)) C' \<and> ledger C' = ledger C \<and>
    (\<forall>x. 0 < cl x \<longrightarrow> stored C' x = stored C x)"
proof -
  from run obtain xs where xs: "cache_inv C xs cl" "length xs \<le> 2 ^ 31" "\<forall>x\<in>set xs. \<forall>k v. stored C x = Some (k, v) \<longrightarrow> latest k = Some v"
    and sh: "\<And>x k v. stored C x = Some (k, v) \<Longrightarrow> Shard (HashSlice k) = i" unfolding shard_run_def by blast
  from LRUCache_Erase_ok [OF xs(1), of key] obtain C' ys where
    r: "LRUCache_Erase key (HashSlice key) C = Some C'" "cache_inv C' ys cl" "keeps C C' cl" "set ys = {x\<in>set xs. key_of C x \<noteq> Some key}" by blast
  have "distinct ys" "distinct xs" using r(2) xs(1) unfolding cache_inv_def by (auto dest: shardD(3))
  moreover have "set ys \<subseteq> set xs" using r(4) by auto
  ultimately have "length ys \<le> length xs" using card_mono [of "set xs" "set ys"] distinct_card [of ys] distinct_card [of xs] by simp
  moreover note key_of_stored [of C]
  ultimately have "shard_run i cl (latest(key := None)) C'"
    using r(4) xs(2,3) by (intro shard_runI [OF r(2) _ r(3) _ sh]) auto
  then show ?thesis using r(1,3) unfolding keeps_def by blast
qed

text \<open>A change of the latest value of a key does not concern the other shards.\<close>

lemma shard_run_other: "shard_run j cl latest C \<Longrightarrow> j \<noteq> Shard (HashSlice key) \<Longrightarrow> shard_run j cl (latest(key := w)) C"
  unfolding shard_run_def by (metis fun_upd_other)

lemma sum_list_update_ledger:
  fixes f :: "'a \<Rightarrow> 'b multiset"
  shows "i < length xs \<Longrightarrow> (\<Sum>x\<leftarrow>xs[i := c]. f x) + f (xs ! i) = (\<Sum>x\<leftarrow>xs. f x) + f c"
proof (induction xs arbitrary: i)
  case (Cons x xs)
  then show ?case by (cases i) (auto simp: ac_simps)
qed simp

lemma run_ok_update:
  assumes run: "run_ok R" and i: "i < kNumShards"
    and S: "sc_shard (cr_cache R') = (sc_shard (cr_cache R))[i := C']" and C': "shard_run i (held_at (cr_held R') i) (cr_latest R') C'"
    and others: "\<And>j C. j < kNumShards \<Longrightarrow> j \<noteq> i \<Longrightarrow> shard_run j (held_at (cr_held R) j) (cr_latest R) C \<Longrightarrow> shard_run j (held_at (cr_held R') j) (cr_latest R') C"
    and held: "\<And>hash e. (hash, e) \<in> set (cr_held R') \<Longrightarrow> \<exists>k v. stored ((sc_shard (cr_cache R))[i := C'] ! Shard hash) e = Some (k, v) \<and> HashSlice k = hash"
    and made: "mset (cr_made R') + ledger (sc_shard (cr_cache R) ! i) = mset (cr_made R) + ledger C'"
  shows "run_ok R'"
proof -
  let ?S = "sc_shard (cr_cache R)"
  have len: "length ?S = kNumShards" and sh: "\<And>j. j < kNumShards \<Longrightarrow> shard_run j (held_at (cr_held R) j) (cr_latest R) (?S ! j)"
    and m: "mset (cr_made R) = (\<Sum>C\<leftarrow>?S. ledger C)" using run by (auto simp: run_ok_def Let_def)
  have "shard_run j (held_at (cr_held R') j) (cr_latest R') (?S[i := C'] ! j)" if "j < kNumShards" for j
    using that C' others [OF that _ sh [OF that]] len by (cases "j = i") auto
  moreover have "mset (cr_made R') = (\<Sum>C\<leftarrow>?S[i := C']. ledger C)"
    using sum_list_update_ledger [of i ?S ledger C'] made m i len by (metis add_right_imp_eq)
  ultimately show ?thesis using held len S by (auto simp: run_ok_def Let_def)
qed

subsection \<open>Steps\<close>

definition cache_value :: "Handle \<Rightarrow> 'v CacheRun \<Rightarrow> 'v option" where
  "cache_value h R = Cache_Value h (cr_cache R)"

lemma cache_value_stored: "cache_value h R = map_option snd (stored (sc_shard (cr_cache R) ! Shard (fst h)) (snd h))"
  by (simp add: cache_value_def Cache_Value_def stored_def option.map_comp comp_def)

lemma run_okD:
  assumes "run_ok R"
  shows "length (sc_shard (cr_cache R)) = kNumShards"
    "i < kNumShards \<Longrightarrow> shard_run i (held_at (cr_held R) i) (cr_latest R) (sc_shard (cr_cache R) ! i)"
    "(hash, e) \<in> set (cr_held R) \<Longrightarrow> \<exists>k v. stored (sc_shard (cr_cache R) ! Shard hash) e = Some (k, v) \<and> HashSlice k = hash"
    "mset (cr_made R) = (\<Sum>C\<leftarrow>sc_shard (cr_cache R). ledger C)"
  using assms by (auto simp: run_ok_def Let_def)

text \<open>
  A call that is permitted returns and keeps the invariant; the handles that stay held keep their value.
\<close>

definition step_ok :: "'v CacheRun \<Rightarrow> 'v cache_op \<Rightarrow> bool" where
  "step_ok R oper \<longleftrightarrow> (\<exists>R'. cache_do oper R = Some R' \<and> run_ok R' \<and>
     (\<forall>h\<in>set (cr_held R) \<inter> set (cr_held R'). cache_value h R' = cache_value h R \<and> cache_value h R \<noteq> None))"

lemma step_okI:
  assumes run: "run_ok R" and i: "i < kNumShards" and d: "cache_do oper R = Some R'"
    and S: "sc_shard (cr_cache R') = (sc_shard (cr_cache R))[i := C']" and C': "shard_run i (held_at (cr_held R') i) (cr_latest R') C'"
    and others: "\<And>j C. j < kNumShards \<Longrightarrow> j \<noteq> i \<Longrightarrow> shard_run j (held_at (cr_held R) j) (cr_latest R) C \<Longrightarrow> shard_run j (held_at (cr_held R') j) (cr_latest R') C"
    and new: "\<And>hash e. (hash, e) \<in> set (cr_held R') \<Longrightarrow> (hash, e) \<notin> set (cr_held R) \<Longrightarrow> Shard hash = i \<and> (\<exists>k v. stored C' e = Some (k, v) \<and> HashSlice k = hash)"
    and same: "\<forall>y. 0 < min (held_at (cr_held R) i y) (held_at (cr_held R') i y) \<longrightarrow> stored C' y = stored (sc_shard (cr_cache R) ! i) y"
    and made: "mset (cr_made R') + ledger (sc_shard (cr_cache R) ! i) = mset (cr_made R) + ledger C'"
  shows "step_ok R oper"
proof -
  note D = run_okD [OF run]
  have keep: "stored ((sc_shard (cr_cache R))[i := C'] ! Shard hash) e = stored (sc_shard (cr_cache R) ! Shard hash) e"
    if "(hash, e) \<in> set (cr_held R)" "(hash, e) \<in> set (cr_held R')" for hash e
    using same held_at_pos [OF that(1)] held_at_pos [OF that(2)] i D(1) by (cases "Shard hash = i") auto
  have "run_ok R'"
  proof (rule run_ok_update [OF run i S C' others])
    show "\<exists>k v. stored ((sc_shard (cr_cache R))[i := C'] ! Shard hash) e = Some (k, v) \<and> HashSlice k = hash"
      if h: "(hash, e) \<in> set (cr_held R')" for hash e
    proof (cases "(hash, e) \<in> set (cr_held R)")
      case True
      then show ?thesis using D(3) [OF True] keep [OF True h] by simp
    next
      case False
      then show ?thesis using new [OF h] i D(1) by auto
    qed
  qed (use made in auto)
  moreover have "cache_value h R' = cache_value h R \<and> cache_value h R \<noteq> None" if "h \<in> set (cr_held R)" "h \<in> set (cr_held R')" for h
    using keep [of "fst h" "snd h"] that D(3) [of "fst h" "snd h"] by (auto simp: cache_value_stored S)
  ultimately show ?thesis using d by (auto simp: step_ok_def)
qed

lemma with_shard_Some: "f (sc_shard S ! Shard hash) = Some (r, C) \<Longrightarrow> with_shard hash f S = Some (r, S\<lparr>sc_shard := (sc_shard S)[Shard hash := C]\<rparr>)"
  by (simp add: with_shard_def)

lemma step_insert:
  assumes run: "run_ok R" and p: "permitted (DoInsert e key val charge) R"
  shows "step_ok R (DoInsert e key val charge)"
proof -
  let ?S = "cr_cache R" and ?hash = "HashSlice key"
  let ?C = "sc_shard ?S ! Shard ?hash"
  have e: "e \<noteq> 0" "c_handles ?C e = None" "ht_elems (c_table ?C) < 2 ^ 31" using p by (simp_all add: Let_def)
  from Insert_run [OF run_okD(2) [OF run Shard_less] refl e] obtain C' where
    r: "LRUCache_Insert e key ?hash val charge ?C = Some (e, C')"
    "shard_run (Shard ?hash) ((held_at (cr_held R) (Shard ?hash))(e := held_at (cr_held R) (Shard ?hash) e + 1)) ((cr_latest R)(key \<mapsto> val)) C'"
    "\<forall>x. 0 < held_at (cr_held R) (Shard ?hash) x \<longrightarrow> stored C' x = stored ?C x" "stored C' e = Some (key, val)"
    "ledger C' = add_mset (key, val) (ledger ?C)" by blast
  let ?R = "R\<lparr>cr_cache := ?S\<lparr>sc_shard := (sc_shard ?S)[Shard ?hash := C']\<rparr>, cr_held := (?hash, e) # cr_held R, cr_made := (key, val) # cr_made R,
    cr_latest := (cr_latest R)(key \<mapsto> val)\<rparr>"
  show ?thesis
  proof (rule step_okI [OF run Shard_less [of ?hash], of _ ?R C'])
    show "cache_do (DoInsert e key val charge) R = Some ?R" using r(1) by (simp add: Cache_Insert_def Let_def with_shard_Some)
  qed (use r(2-5) shard_run_other in \<open>auto simp: held_at_Cons\<close>)
qed

lemma step_lookup:
  assumes run: "run_ok R" and p: "permitted (DoLookup key) R"
  shows "step_ok R (DoLookup key)"
proof -
  let ?S = "cr_cache R" and ?hash = "HashSlice key"
  let ?C = "sc_shard ?S ! Shard ?hash"
  have "\<forall>x. held_at (cr_held R) (Shard ?hash) x + 2 < 2 ^ 32"
  proof
    fix x
    show "held_at (cr_held R) (Shard ?hash) x + 2 < 2 ^ 32" using p held_at_le [of "cr_held R" "Shard ?hash" x] by simp
  qed
  from Lookup_run [OF run_okD(2) [OF run Shard_less] this, of key] obtain e C' where
    r: "LRUCache_Lookup key ?hash ?C = Some (e, C')" "\<forall>x. 0 < held_at (cr_held R) (Shard ?hash) x \<longrightarrow> stored C' x = stored ?C x" "ledger C' = ledger ?C"
    "if e = 0 then C' = ?C else shard_run (Shard ?hash) ((held_at (cr_held R) (Shard ?hash))(e := held_at (cr_held R) (Shard ?hash) e + 1)) (cr_latest R) C' \<and>
       (\<exists>v. stored C' e = Some (key, v) \<and> cr_latest R key = Some v)" by blast
  let ?R = "R\<lparr>cr_cache := ?S\<lparr>sc_shard := (sc_shard ?S)[Shard ?hash := C']\<rparr>, cr_held := if e = 0 then cr_held R else (?hash, e) # cr_held R\<rparr>"
  show ?thesis
  proof (rule step_okI [OF run Shard_less [of ?hash], of _ ?R C'])
    show "cache_do (DoLookup key) R = Some ?R" using r(1) by (cases "e = 0") (simp_all add: Cache_Lookup_def Let_def with_shard_Some)
    show "shard_run (Shard ?hash) (held_at (cr_held ?R) (Shard ?hash)) (cr_latest ?R) C'"
      using r(4) run_okD(2) [OF run Shard_less [of ?hash]] by (cases "e = 0") (auto simp: held_at_Cons)
  qed (use r(2-4) in \<open>auto simp: held_at_Cons split: if_splits\<close>)
qed

lemma step_release:
  assumes run: "run_ok R" and p: "permitted (DoRelease h) R"
  shows "step_ok R (DoRelease h)"
proof -
  obtain hash e where h: "h = (hash, e)" by fastforce
  have held: "(hash, e) \<in> set (cr_held R)" using p h by simp
  let ?S = "cr_cache R"
  let ?C = "sc_shard ?S ! Shard hash"
  from Release_run [OF run_okD(2) [OF run Shard_less] held_at_pos [OF held]] obtain C' where
    r: "LRUCache_Release e ?C = Some C'"
    "shard_run (Shard hash) ((held_at (cr_held R) (Shard hash))(e := held_at (cr_held R) (Shard hash) e - 1)) (cr_latest R) C'" "ledger C' = ledger ?C"
    "\<forall>x. 0 < ((held_at (cr_held R) (Shard hash))(e := held_at (cr_held R) (Shard hash) e - 1)) x \<longrightarrow> stored C' x = stored ?C x" by blast
  let ?R = "R\<lparr>cr_cache := ?S\<lparr>sc_shard := (sc_shard ?S)[Shard hash := C']\<rparr>, cr_held := remove1 h (cr_held R)\<rparr>"
  show ?thesis
  proof (rule step_okI [OF run Shard_less [of hash], of _ ?R C'])
    show "cache_do (DoRelease h) R = Some ?R" using r(1) by (simp add: Cache_Release_def h with_shard_Some)
    show "\<forall>y. 0 < min (held_at (cr_held R) (Shard hash) y) (held_at (cr_held ?R) (Shard hash) y) \<longrightarrow> stored C' y = stored ?C y"
      using r(4) held_at_remove [OF held] by (simp add: h)
  qed (use r(2,3) held_at_remove [OF held] in \<open>auto simp: h dest: notin_set_remove1\<close>)
qed

lemma step_erase:
  assumes run: "run_ok R"
  shows "step_ok R (DoErase key)"
proof -
  let ?S = "cr_cache R" and ?hash = "HashSlice key"
  let ?C = "sc_shard ?S ! Shard ?hash"
  from Erase_run [OF run_okD(2) [OF run Shard_less [of ?hash]], of key] obtain C' where
    r: "LRUCache_Erase key ?hash ?C = Some C'" "shard_run (Shard ?hash) (held_at (cr_held R) (Shard ?hash)) ((cr_latest R)(key := None)) C'"
    "ledger C' = ledger ?C" "\<forall>x. 0 < held_at (cr_held R) (Shard ?hash) x \<longrightarrow> stored C' x = stored ?C x" by blast
  let ?R = "R\<lparr>cr_cache := ?S\<lparr>sc_shard := (sc_shard ?S)[Shard ?hash := C']\<rparr>, cr_latest := (cr_latest R)(key := None)\<rparr>"
  show ?thesis
  proof (rule step_okI [OF run Shard_less [of ?hash], of _ ?R C'])
    show "cache_do (DoErase key) R = Some ?R" using r(1) by (simp add: Cache_Erase_def Let_def with_shard_Some)
  qed (use r(2-4) shard_run_other in auto)
qed

lemma step_permitted: "run_ok R \<Longrightarrow> permitted oper R \<Longrightarrow> step_ok R oper"
  by (cases oper) (auto intro: step_insert step_lookup step_release step_erase simp del: permitted.simps)

subsection \<open>Reachable states\<close>

lemma new_shard: "shard_run i (\<lambda>_. 0) Map.empty (mk_LRUCache c :: 'a LRUCache)" "ledger (mk_LRUCache c :: 'a LRUCache) = {#}"
proof -
  let ?C = "mk_LRUCache c :: 'a LRUCache"
  have st: "stored ?C = Map.empty" by (simp add: stored_def mk_LRUCache_def fun_eq_iff)
  have "chained ?C (\<lambda>_. [])" by (simp add: chained_def mk_LRUCache_def mk_HandleTable_def Let_def nth_Cons')
  then have "table_ok ?C {}" by (auto simp: table_ok_def members_def mk_LRUCache_def mk_HandleTable_def)
  then have "cache_inv ?C [] (\<lambda>_. 0)" by (simp add: cache_inv_def shard_ok_def) (simp add: mk_LRUCache_def)
  then show "shard_run i (\<lambda>_. 0) Map.empty ?C" by (auto simp: shard_run_def st intro: exI [of _ "[]"])
  show "ledger ?C = {#}" by (simp add: ledger_def st) (simp add: mk_LRUCache_def)
qed

lemma run_start: "run_ok \<lparr>cr_cache = NewLRUCache capacity, cr_held = [], cr_made = [], cr_latest = Map.empty\<rparr>"
proof -
  have "(\<Sum>C\<leftarrow>replicate n (mk_LRUCache c). ledger C) = {#}" for n c by (induction n) (simp_all add: new_shard(2))
  moreover have "held_at [] i = (\<lambda>_. 0)" for i by (simp add: held_at_def fun_eq_iff)
  ultimately show ?thesis by (simp add: run_ok_def NewLRUCache_def Let_def new_shard(1))
qed

lemma reachable_ok: "cache_reachable capacity R \<Longrightarrow> run_ok R"
proof (induction rule: cache_reachable.induct)
  case (step R oper R')
  then show ?case using step_permitted [of R oper] by (auto simp: step_ok_def)
qed (rule run_start)

subsection \<open>Destruction\<close>

lemma destroy_loop_ok:
  assumes "seg (c_next C) (c_prev C) a xs 0" and "distinct xs" and "0 \<notin> set xs"
    and "\<forall>x\<in>set xs. c_next C x \<noteq> x \<and> (\<exists>h. c_handles C x = Some h \<and> lh_refs h = 1)"
  shows "\<exists>C'. destroy_loop (c_next C a) C = Some C' \<and> c_handles C' = c_handles C |` (- set xs) \<and>
    c_deleted C' = c_deleted C @ map (\<lambda>x. the (stored C x)) xs"
  using assms
proof (induction xs arbitrary: C a)
  case Nil
  then show ?case by (subst destroy_loop.simps) (simp add: restrict_map_def fun_eq_iff)
next
  case (Cons x xs)
  then obtain h where h: "c_handles C x = Some h" "lh_refs h = 1" and x: "c_next C a = x" "x \<noteq> 0" "c_next C x \<noteq> x" by auto
  let ?C = "C\<lparr>c_usage := c_usage C - lh_charge h, c_deleted := c_deleted C @ [(lh_key h, lh_value h)], c_handles := (c_handles C)(x := None)\<rparr>"
  have u: "LRUCache_Unref x C = Some ?C" using h x by (simp add: LRUCache_Unref_def LRUHandle_key_def Let_def)
  have pr: "seg (c_next ?C) (c_prev ?C) x xs 0" "distinct xs" "0 \<notin> set xs"
    "\<forall>y\<in>set xs. c_next ?C y \<noteq> y \<and> (\<exists>h. c_handles ?C y = Some h \<and> lh_refs h = 1)"
    using Cons.prems by auto
  from Cons.IH [OF pr] obtain C' where
    "destroy_loop (c_next ?C x) ?C = Some C'" "c_handles C' = c_handles ?C |` (- set xs)"
    "c_deleted C' = c_deleted ?C @ map (\<lambda>y. the (stored ?C y)) xs" by blast
  then have r: "destroy_loop (c_next C x) ?C = Some C'" "c_handles C' = (c_handles C)(x := None) |` (- set xs)"
    "c_deleted C' = c_deleted ?C @ map (\<lambda>y. the (stored ?C y)) xs" by simp_all
  have "destroy_loop (c_next C a) C = Some C'" using x h u r(1) by (subst destroy_loop.simps) simp
  moreover have "c_handles C' = c_handles C |` (- set (x # xs))" by (auto simp: r(2) restrict_map_def fun_eq_iff)
  moreover have "map (\<lambda>y. the (stored ?C y)) xs = map (\<lambda>y. the (stored C y)) xs" using Cons.prems(2) by (auto simp: stored_def)
  moreover have "the (stored C x) = (lh_key h, lh_value h)" using h by (simp add: stored_def)
  ultimately show ?case using r(3) by simp
qed

lemma LRUCache_destroy_ok:
  assumes "shard_run i (\<lambda>_. 0) latest C"
  shows "\<exists>C'. LRUCache_destroy C = Some C' \<and> c_handles C' = Map.empty \<and> mset (c_deleted C') = ledger C"
proof -
  from assms obtain xs where inv: "cache_inv C xs (\<lambda>_. 0)" by (auto simp: shard_run_def)
  then have ok: "shard_ok C xs (set xs) (\<lambda>e. (if e \<in> set xs then 1 else 0) + 0)" by (simp add: cache_inv_def)
  note D = shardD [OF ok]
  have dm: "dom (c_handles C) = set xs" using D(11) by (force split: if_splits)
  have "\<forall>x\<in>set xs. c_next C x \<noteq> x \<and> (\<exists>h. c_handles C x = Some h \<and> lh_refs h = 1)"
  proof
    fix x assume x: "x \<in> set xs"
    obtain h where h: "c_handles C x = Some h" using D(8) [OF x] by blast
    then have "c_next C x \<noteq> x" "unat (lh_refs h) = unat (1 :: uint32)" using D(10) [OF h] x by simp_all
    then show "c_next C x \<noteq> x \<and> (\<exists>h. c_handles C x = Some h \<and> lh_refs h = 1)" using h by (auto simp: word_unat_eq_iff)
  qed
  from destroy_loop_ok [OF D(2,3,4) this] obtain C' where
    r: "destroy_loop (c_next C 0) C = Some C'" "c_handles C' = c_handles C |` (- set xs)" "c_deleted C' = c_deleted C @ map (\<lambda>x. the (stored C x)) xs" by blast
  have "c_handles C' = Map.empty"
  proof
    fix x show "c_handles C' x = None" using dm by (cases "x \<in> set xs") (auto simp: r(2) restrict_map_def domIff)
  qed
  moreover have "mset (c_deleted C') = ledger C" using D(3) by (simp add: r(3) ledger_def dom_stored dm mset_set_set)
  ultimately show ?thesis using r(1) by (simp add: LRUCache_destroy_def)
qed

subsection \<open>Outcomes of calls\<close>

lemma insert_outcome:
  assumes run: "run_ok R" and p: "permitted (DoInsert e key val charge) R" and d: "cache_do (DoInsert e key val charge) R = Some R'"
  defines "C \<equiv> sc_shard (cr_cache R') ! Shard (HashSlice key)"
  shows "cr_held R' = (HashSlice key, e) # cr_held R" "stored C e = Some (key, val)"
    "c_usage C \<le> c_capacity C \<or> ht_elems (c_table C) = 0"
    "c_usage C \<le> c_capacity C \<Longrightarrow> HandleTable_Lookup key (HashSlice key) C = Some e"
proof -
  let ?S = "cr_cache R" and ?hash = "HashSlice key"
  let ?C = "sc_shard ?S ! Shard ?hash"
  have e: "e \<noteq> 0" "c_handles ?C e = None" "ht_elems (c_table ?C) < 2 ^ 31" using p by (simp_all add: Let_def)
  from Insert_run [OF run_okD(2) [OF run Shard_less] refl e, of val charge] obtain C' where
    r: "LRUCache_Insert e key ?hash val charge ?C = Some (e, C')" "stored C' e = Some (key, val)"
    "c_usage C' \<le> c_capacity C' \<or> ht_elems (c_table C') = 0" "c_usage C' \<le> c_capacity C' \<longrightarrow> HandleTable_Lookup key ?hash C' = Some e" by blast
  have R': "sc_shard (cr_cache R') = (sc_shard ?S)[Shard ?hash := C']" "cr_held R' = (?hash, e) # cr_held R"
    using d r(1) by (auto simp: Cache_Insert_def Let_def with_shard_Some)
  then have C: "C = C'" using run_okD(1) [OF run] Shard_less [of ?hash] by (simp add: C_def)
  show "cr_held R' = (?hash, e) # cr_held R" "stored C e = Some (key, val)" "c_usage C \<le> c_capacity C \<or> ht_elems (c_table C) = 0"
    "c_usage C \<le> c_capacity C \<Longrightarrow> HandleTable_Lookup key ?hash C = Some e" using R'(2) r(2-4) by (simp_all add: C)
qed

lemma lookup_outcome:
  assumes run: "run_ok R" and p: "permitted (DoLookup key) R"
  shows "\<exists>h S. Cache_Lookup key (cr_cache R) = Some (h, S) \<and> (\<forall>h'. h = Some h' \<longrightarrow> cr_latest R key \<noteq> None \<and> Cache_Value h' S = cr_latest R key)"
    "HandleTable_Lookup key (HashSlice key) (sc_shard (cr_cache R) ! Shard (HashSlice key)) = Some e \<Longrightarrow> e \<noteq> 0 \<Longrightarrow>
       \<exists>S. Cache_Lookup key (cr_cache R) = Some (Some (HashSlice key, e), S)"
proof -
  let ?S = "cr_cache R" and ?hash = "HashSlice key"
  let ?C = "sc_shard ?S ! Shard ?hash"
  have "\<forall>x. held_at (cr_held R) (Shard ?hash) x + 2 < 2 ^ 32"
  proof
    fix x
    show "held_at (cr_held R) (Shard ?hash) x + 2 < 2 ^ 32" using p held_at_le [of "cr_held R" "Shard ?hash" x] by simp
  qed
  from Lookup_run [OF run_okD(2) [OF run Shard_less] this, of key] obtain e' C' where
    r: "LRUCache_Lookup key ?hash ?C = Some (e', C')" "if e' = 0 then C' = ?C else
       shard_run (Shard ?hash) ((held_at (cr_held R) (Shard ?hash))(e' := held_at (cr_held R) (Shard ?hash) e' + 1)) (cr_latest R) C' \<and>
       (\<exists>v. stored C' e' = Some (key, v) \<and> cr_latest R key = Some v)" by blast
  let ?S' = "?S\<lparr>sc_shard := (sc_shard ?S)[Shard ?hash := C']\<rparr>"
  have l: "Cache_Lookup key ?S = Some (if e' = 0 then None else Some (?hash, e'), ?S')"
    using r(1) by (simp add: Cache_Lookup_def Let_def with_shard_Some)
  have "Cache_Value (?hash, e') ?S' = map_option snd (stored C' e')"
    using run_okD(1) [OF run] Shard_less [of ?hash] by (simp add: Cache_Value_def stored_def option.map_comp comp_def)
  then show "\<exists>h S. Cache_Lookup key ?S = Some (h, S) \<and> (\<forall>h'. h = Some h' \<longrightarrow> cr_latest R key \<noteq> None \<and> Cache_Value h' S = cr_latest R key)"
    using l r(2) by (cases "e' = 0") auto
  show "\<exists>S. Cache_Lookup key ?S = Some (Some (?hash, e), S)" if "HandleTable_Lookup key ?hash ?C = Some e" "e \<noteq> 0"
  proof -
    have "e' = e" using r(1) that by (auto simp: LRUCache_Lookup_def Let_def split: option.splits)
    then show ?thesis using l that(2) by simp
  qed
qed

definition new_run :: "uint64 \<Rightarrow> 'v CacheRun" where
  "new_run capacity = \<lparr>cr_cache = NewLRUCache capacity, cr_held = [], cr_made = [], cr_latest = Map.empty\<rparr>"

lemma new_run_reachable: "cache_reachable capacity (new_run capacity)"
  unfolding new_run_def by (rule cache_reachable.start)

text \<open>A first run: the value 70 is inserted under the key 7.\<close>

lemma demo_insert:
  "\<exists>R. cache_do (DoInsert 1 [7] (70 :: nat) 1) (new_run 16) = Some R \<and> cache_reachable 16 R \<and> permitted (DoInsert 1 [7] (70 :: nat) 1) (new_run 16) \<and>
     cr_held R = [(HashSlice [7], 1)] \<and> cr_made R = [([7], 70)] \<and> cr_latest R = [[7] \<mapsto> 70] \<and> cache_value (HashSlice [7], 1) R = Some 70"
proof -
  let ?op = "DoInsert 1 [7] (70 :: nat) 1" and ?R = "new_run 16 :: nat CacheRun"
  have p: "permitted ?op ?R"
    using Shard_less [of "HashSlice [7]"] by (simp add: new_run_def NewLRUCache_def Let_def mk_LRUCache_def mk_HandleTable_def)
  have run: "run_ok ?R" by (rule reachable_ok [OF new_run_reachable])
  from step_permitted [OF run p] obtain R where R: "cache_do ?op ?R = Some R" by (auto simp: step_ok_def)
  have "cr_made R = [([7], 70)]" "cr_latest R = [[7] \<mapsto> 70]" using R by (auto simp: new_run_def)
  then show ?thesis
    using p R insert_outcome(1,2) [OF run p R] cache_reachable.step [OF new_run_reachable p R] by (auto simp: cache_value_stored new_run_def)
qed

subsection \<open>Properties\<close>

text \<open>
  C24: no use after free and no endless loop: after any calls that respect the interface, a further call that
  respects it returns without touching a freed entry, and every handle that a client goes on holding
  still gives the value it gave before.
\<close>

theorem cache_safe:
  assumes "cache_reachable capacity R" and "permitted oper R"
  shows "\<exists>R'. cache_do oper R = Some R' \<and>
    (\<forall>h\<in>set (cr_held R) \<inter> set (cr_held R'). cache_value h R \<noteq> None \<and> cache_value h R' = cache_value h R)"
  using step_permitted [OF reachable_ok [OF assms(1)] assms(2)] by (auto simp: step_ok_def)

theorem cache_safe_witness:
  "\<exists>R R'. cache_do (DoInsert 1 [7] (70 :: nat) 1) (new_run 16) = Some R \<and> cache_do (DoErase [7]) R = Some R' \<and>
     cache_value (HashSlice [7], 1) R' = Some 70"
proof -
  from demo_insert obtain R where R: "cache_do (DoInsert 1 [7] (70 :: nat) 1) (new_run 16) = Some R" "cache_reachable 16 R"
    "cr_held R = [(HashSlice [7], 1)]" "cache_value (HashSlice [7], 1) R = Some 70" by blast
  from cache_safe [OF R(2), of "DoErase [7]"] obtain R' where R': "cache_do (DoErase [7]) R = Some R'"
    "\<forall>h\<in>set (cr_held R) \<inter> set (cr_held R'). cache_value h R \<noteq> None \<and> cache_value h R' = cache_value h R" by auto
  have "cr_held R' = cr_held R" using R'(1) by auto
  then have "cache_value (HashSlice [7], 1) R' = Some 70" using R'(2) R(3,4) by simp
  then show ?thesis using R(1) R'(1) by blast
qed

text \<open>
  C26: the cache refines a map that may forget: a look-up returns, and a handle that it returns gives the value
  that was inserted last under the key, which was not erased since.
\<close>

theorem cache_refines_map:
  assumes "cache_reachable capacity R" and "permitted (DoLookup key) R"
  shows "\<exists>h S. Cache_Lookup key (cr_cache R) = Some (h, S) \<and> (\<forall>h'. h = Some h' \<longrightarrow> cr_latest R key \<noteq> None \<and> Cache_Value h' S = cr_latest R key)"
  by (rule lookup_outcome(1) [OF reachable_ok [OF assms(1)] assms(2)])

theorem cache_refines_map_witness:
  "\<exists>R h S. cache_do (DoInsert 1 [7] (70 :: nat) 1) (new_run 16) = Some R \<and> Cache_Lookup [7] (cr_cache R) = Some (h, S) \<and>
     (case h of None \<Rightarrow> True | Some h' \<Rightarrow> Cache_Value h' S = Some 70)"
proof -
  from demo_insert obtain R where R: "cache_do (DoInsert 1 [7] (70 :: nat) 1) (new_run 16) = Some R" "cache_reachable 16 R"
    "cr_held R = [(HashSlice [7], 1)]" "cr_latest R = [[7] \<mapsto> 70]" by blast
  have "permitted (DoLookup [7]) R" using R(3) by simp
  from cache_refines_map [OF R(2) this] obtain h S where "Cache_Lookup [7] (cr_cache R) = Some (h, S)"
    "\<forall>h'. h = Some h' \<longrightarrow> cr_latest R [7] \<noteq> None \<and> Cache_Value h' S = cr_latest R [7]" by blast
  then show ?thesis using R(1,4) by (intro exI [of _ R] exI [of _ h] exI [of _ S]) (auto split: option.splits)
qed

text \<open>
  C27: after an insertion the usage of the shard is within its capacity, or its table is empty; in the first case a look-up finds the entry that was inserted.
\<close>

theorem cache_insert_found:
  assumes "cache_reachable capacity R" and "permitted (DoInsert e key val charge) R"
    and "cache_do (DoInsert e key val charge) R = Some R'" and "permitted (DoLookup key) R'"
  defines "C \<equiv> sc_shard (cr_cache R') ! Shard (HashSlice key)"
  shows "(c_usage C \<le> c_capacity C \<or> ht_elems (c_table C) = 0) \<and>
    (c_usage C \<le> c_capacity C \<longrightarrow> (\<exists>S. Cache_Lookup key (cr_cache R') = Some (Some (HashSlice key, e), S)))"
proof -
  note O = insert_outcome [OF reachable_ok [OF assms(1)] assms(2,3), folded C_def]
  have "e \<noteq> 0" using assms(2) by (simp add: Let_def)
  then show ?thesis
    using O(3,4) lookup_outcome(2) [OF reachable_ok [OF cache_reachable.step [OF assms(1-3)]] assms(4), folded C_def] by blast
qed

theorem cache_insert_found_witness:
  "\<exists>R. cache_do (DoInsert 1 [7] (70 :: nat) 1) (new_run 16) = Some R \<and>
     (let C = sc_shard (cr_cache R) ! Shard (HashSlice [7])
      in c_usage C \<le> c_capacity C \<and> (\<exists>S. Cache_Lookup [7] (cr_cache R) = Some (Some (HashSlice [7], 1), S)) \<or> ht_elems (c_table C) = 0)"
proof -
  from demo_insert obtain R where R: "cache_do (DoInsert 1 [7] (70 :: nat) 1) (new_run 16) = Some R"
    "permitted (DoInsert 1 [7] (70 :: nat) 1) (new_run 16)" "cr_held R = [(HashSlice [7], 1)]" by blast
  have "permitted (DoLookup [7]) R" using R(3) by simp
  from cache_insert_found [OF new_run_reachable R(2,1) this] show ?thesis using R(1) by (auto simp: Let_def)
qed

text \<open>
  C25: nothing leaks and nothing is freed twice: when every handle was released, destroying the shards returns,
  leaves no entry in memory, and the pairs given to the deleters are, with their multiplicities, the pairs
  that were inserted.
\<close>

theorem cache_no_leak:
  assumes "cache_reachable capacity R" and "cr_held R = []"
  shows "\<exists>Cs. map LRUCache_destroy (sc_shard (cr_cache R)) = map Some Cs \<and> list_all (\<lambda>C. c_handles C = Map.empty) Cs \<and>
    (\<Sum>C\<leftarrow>Cs. mset (c_deleted C)) = mset (cr_made R)"
proof -
  note D = run_okD [OF reachable_ok [OF assms(1)]]
  have held: "held_at [] i = (\<lambda>_. 0)" for i by (simp add: held_at_def fun_eq_iff)
  have run: "\<exists>i. shard_run i (\<lambda>_. 0) (cr_latest R) C" if "C \<in> set (sc_shard (cr_cache R))" for C
    using that D(1,2) assms(2) held by (metis in_set_conv_nth)
  have "\<exists>Cs. map LRUCache_destroy Ds = map Some Cs \<and> list_all (\<lambda>C. c_handles C = Map.empty) Cs \<and> (\<Sum>C\<leftarrow>Cs. mset (c_deleted C)) = (\<Sum>C\<leftarrow>Ds. ledger C)"
    if "set Ds \<subseteq> set (sc_shard (cr_cache R))" for Ds
    using that
  proof (induction Ds)
    case (Cons C Ds)
    then obtain Cs where Cs: "map LRUCache_destroy Ds = map Some Cs" "list_all (\<lambda>C. c_handles C = Map.empty) Cs"
      "(\<Sum>C\<leftarrow>Cs. mset (c_deleted C)) = (\<Sum>C\<leftarrow>Ds. ledger C)" by auto
    obtain C' where "LRUCache_destroy C = Some C'" "c_handles C' = Map.empty" "mset (c_deleted C') = ledger C"
      using run [of C] Cons.prems LRUCache_destroy_ok by fastforce
    then show ?case using Cs by (intro exI [of _ "C' # Cs"]) simp
  qed simp
  from this [OF subset_refl] show ?thesis unfolding D(4) .
qed

theorem cache_no_leak_witness:
  "\<exists>R R' Cs. cache_do (DoInsert 1 [7] (70 :: nat) 1) (new_run 16) = Some R \<and> cache_do (DoRelease (HashSlice [7], 1)) R = Some R' \<and>
     map LRUCache_destroy (sc_shard (cr_cache R')) = map Some Cs \<and> (\<Sum>C\<leftarrow>Cs. mset (c_deleted C)) = {#([7], 70)#}"
proof -
  from demo_insert obtain R where R: "cache_do (DoInsert 1 [7] (70 :: nat) 1) (new_run 16) = Some R" "cache_reachable 16 R"
    "cr_held R = [(HashSlice [7], 1)]" "cr_made R = [([7], 70)]" by blast
  let ?op = "DoRelease (HashSlice [7], 1)"
  have p: "permitted ?op R" using R(3) by simp
  from step_permitted [OF reachable_ok [OF R(2)] p] obtain R' where R': "cache_do ?op R = Some R'" by (auto simp: step_ok_def)
  then have h: "cr_held R' = []" "cr_made R' = [([7], 70)]" using R(3,4) by auto
  from cache_no_leak [OF cache_reachable.step [OF R(2) p R'] h(1)] h(2) obtain Cs where
    "map LRUCache_destroy (sc_shard (cr_cache R')) = map Some Cs" "(\<Sum>C\<leftarrow>Cs. mset (c_deleted C)) = {#([7], 70)#}" by auto
  then show ?thesis using R(1) R' by blast
qed

end
