(* ===== verification/Enclave_CC.thy ===== *)
theory Enclave_CC
  imports Prelude "HOL-Library.Finite_Map"
begin

text \<open>
  The consistency checker inside the enclave (\<^verbatim>\<open>Enclave/cc.cpp\<close>, \<^verbatim>\<open>Enclave/op.h\<close>).
  Every client operation is announced by \<^verbatim>\<open>enclave_preput\<close>/\<^verbatim>\<open>enclave_preget\<close>, which
  record a start time, and closed by \<^verbatim>\<open>enclave_postput\<close>/\<^verbatim>\<open>enclave_postget\<close>.  A
  completed write waits in \<^verbatim>\<open>completed_list\<close> until all writes with smaller
  timestamps have completed; then it is merged into the history.

  A field of \<^verbatim>\<open>Op\<close> that its constructor leaves uninitialised is \<open>None\<close>.  A handler returns
  an \<open>outcome\<close>: it returns to its caller, it has undefined behaviour, or it never returns.
  The state after a return has \<open>g_mutex\<close> set when the handler left by one of the early
  \<^verbatim>\<open>return\<close> statements that skip the unlock; nothing releases the mutex then, so a handler
  that finds it set at its \<^verbatim>\<open>sgx_thread_mutex_lock\<close> never gets further (\<open>Diverge\<close>).
\<close>

subsection \<open>Operations and the history\<close>

record Op =
  op_id :: "uint32 option"
  op_key :: "int option"
  op_val :: "int option"
  ts_att :: "uint32 option"
  ts_rw :: "uint32 option"
  op_start :: "uint32 option"
  op_end :: "uint32 option"

definition Op_default :: Op where
  "Op_default = \<lparr>op_id = None, op_key = None, op_val = None, ts_att = None, ts_rw = None,
     op_start = None, op_end = None\<rparr>"

definition mk_Op :: "uint32 \<Rightarrow> uint32 \<Rightarrow> Op" where
  "mk_Op oid s = Op_default\<lparr>op_id := Some oid, op_start := Some s\<rparr>"

definition setStart :: "Op \<Rightarrow> uint32 \<Rightarrow> Op" where "setStart op s = op\<lparr>op_start := Some s\<rparr>"

definition setEnd :: "Op \<Rightarrow> uint32 \<Rightarrow> Op" where "setEnd op e = op\<lparr>op_end := Some e\<rparr>"

definition setTs :: "Op \<Rightarrow> uint32 \<Rightarrow> Op" where "setTs op ts = op\<lparr>ts_att := Some ts\<rparr>"

definition setTr :: "Op \<Rightarrow> uint32 \<Rightarrow> Op" where "setTr op tr = op\<lparr>ts_att := Some tr\<rparr>"

definition setTw :: "Op \<Rightarrow> uint32 \<Rightarrow> Op" where "setTw op tw = op\<lparr>ts_rw := Some tw\<rparr>"

text \<open>\<^verbatim>\<open>class RH {}\<close> has no members; nothing ever inserts into \<^verbatim>\<open>rh_list\<close>.\<close>

record HistoryW =
  current :: Op
  rh_list :: "(uint64, unit) fmap"

definition HistoryW_init :: HistoryW where
  "HistoryW_init = \<lparr>current = setEnd (setStart (setTs Op_default 0) 0) 0, rh_list = fmempty\<rparr>"

definition latest :: "HistoryW \<Rightarrow> Op" where
  "latest his = current his"

definition update :: "HistoryW \<Rightarrow> Op \<Rightarrow> HistoryW" where
  "update his op = his\<lparr>current := op\<rparr>"

subsection \<open>State of the checker\<close>

record cc_state =
  pending_list :: "(uint64, Op) fmap"
  completed_list :: "(uint64, Op) fmap"
  g_timer :: uint32
  g_id :: uint32
  history :: HistoryW
  g_mutex :: bool

definition cc_init :: cc_state where
  "cc_init = \<lparr>pending_list = fmempty, completed_list = fmempty, g_timer = 0, g_id = 0,
     history = HistoryW_init, g_mutex = False\<rparr>"

text \<open>Dereferencing \<^verbatim>\<open>end()\<close> and reading an uninitialised field are undefined.\<close>

datatype 'a outcome = Return 'a | Undefined | Diverge

fun bind_outcome :: "'a outcome \<Rightarrow> ('a \<Rightarrow> 'b outcome) \<Rightarrow> 'b outcome" where
  "bind_outcome (Return a) f = f a"
| "bind_outcome Undefined f = Undefined"
| "bind_outcome Diverge f = Diverge"

definition read :: "'a option \<Rightarrow> 'a outcome" where
  "read v = (case v of None \<Rightarrow> Undefined | Some a \<Rightarrow> Return a)"

definition findRH :: "HistoryW \<Rightarrow> uint64 \<Rightarrow> unit outcome" where
  "findRH his tr = read (fmlookup (rh_list his) tr)"

definition getTime :: "cc_state \<Rightarrow> uint32 \<times> cc_state" where
  "getTime s = (let s' = s\<lparr>g_timer := g_timer s + 1\<rparr> in (g_timer s', s'))"

definition allocId :: "cc_state \<Rightarrow> uint32 \<times> cc_state" where
  "allocId s = (let s' = s\<lparr>g_id := g_id s + 1\<rparr> in (g_id s', s'))"

text \<open>\<^verbatim>\<open>std::map::insert\<close> keeps the entry that is already there.\<close>

definition map_insert :: "uint64 \<Rightarrow> Op \<Rightarrow> (uint64, Op) fmap \<Rightarrow> (uint64, Op) fmap" where
  "map_insert k v m = (case fmlookup m k of None \<Rightarrow> fmupd k v m | Some _ \<Rightarrow> m)"

subsection \<open>Reads\<close>

text \<open>\<^verbatim>\<open>sgx_thread_mutex_lock(&g_mutex)\<close> before a critical section.\<close>

definition lock_g_mutex :: "cc_state \<Rightarrow> (cc_state \<Rightarrow> 'a outcome) \<Rightarrow> 'a outcome" where
  "lock_g_mutex s body = (if g_mutex s then Diverge else body s)"

text \<open>
  The section of \<^verbatim>\<open>enclave_preget\<close> between locking and unlocking \<^verbatim>\<open>g_mutex\<close>; the
  handler first takes the time and an id, each under a mutex of its own.
\<close>

definition preget_section :: "uint32 \<Rightarrow> uint32 \<Rightarrow> cc_state \<Rightarrow> cc_state outcome" where
  "preget_section time oid s =
     bind_outcome (read (ts_att (latest (history s)))) (\<lambda>ts.
       Return (s\<lparr>pending_list := map_insert (ucast oid) (setTr (mk_Op oid time) ts) (pending_list s)\<rparr>))"

definition enclave_preget :: "cc_state \<Rightarrow> (uint32 \<times> cc_state) outcome" where
  "enclave_preget s =
     (let (time, s) = getTime s; (oid, s) = allocId s
      in bind_outcome (lock_g_mutex s (preget_section time oid)) (\<lambda>s. Return (oid, s)))"

text \<open>
  The inner loop of \<^verbatim>\<open>lpad_verify\<close> is \<^verbatim>\<open>for (int j=0;i<pf[i];j++)\<close>: its condition does not
  mention \<^verbatim>\<open>j\<close>, whose value is never read (it is unbounded here).  \<open>pf\<close> is the caller's array,
  of which reading an element behind the end is undefined.  The hashed buffers are locals
  that nothing reads.
\<close>

partial_function (option) lpad_inner :: "int list \<Rightarrow> nat \<Rightarrow> nat \<Rightarrow> unit option" where
  "lpad_inner pf i j = (if int i < pf ! i then lpad_inner pf i (j + 1) else Some ())"

fun lpad_outer :: "int list \<Rightarrow> nat \<Rightarrow> nat \<Rightarrow> unit outcome" where
  "lpad_outer pf i 0 = Return ()"
| "lpad_outer pf i (Suc n) =
     (if i < length pf
      then (case lpad_inner pf i 0 of None \<Rightarrow> Diverge | Some _ \<Rightarrow> lpad_outer pf (i + 1) n)
      else Undefined)"

definition lpad_verify :: "unit \<Rightarrow> int list \<Rightarrow> nat \<Rightarrow> bool outcome" where
  "lpad_verify rh pf pf_index = bind_outcome (lpad_outer pf 0 pf_index) (\<lambda>_. Return True)"

definition nmt :: "Op \<Rightarrow> HistoryW \<Rightarrow> int list \<Rightarrow> nat \<Rightarrow> bool outcome" where
  "nmt op his pf pf_index =
     bind_outcome (read (ts_rw op)) (\<lambda>tw.
     bind_outcome (read (ts_att op)) (\<lambda>tr.
       if tw > tr then Return True
       else bind_outcome (findRH his (ucast tr)) (\<lambda>rh.
            bind_outcome (lpad_verify rh pf pf_index) (\<lambda>ok.
              if \<not> ok then Return False else Return True))))"

definition postget_section :: "uint32 \<Rightarrow> uint64 \<Rightarrow> int list \<Rightarrow> nat \<Rightarrow> cc_state \<Rightarrow> cc_state outcome" where
  "postget_section oid tw pf pf_index s =
     bind_outcome (read (fmlookup (pending_list s) (ucast oid))) (\<lambda>op.
       (let s = s\<lparr>pending_list := fmdrop (ucast oid) (pending_list s)\<rparr>;
            op = setTw op (ucast tw)
        in bind_outcome (nmt op (history s) pf pf_index) (\<lambda>ok.
             if \<not> ok then Return (s\<lparr>g_mutex := True\<rparr>) else Return s)))"

definition enclave_postget :: "uint32 \<Rightarrow> uint64 \<Rightarrow> int list \<Rightarrow> nat \<Rightarrow> cc_state \<Rightarrow> cc_state outcome" where
  "enclave_postget oid tw pf pf_index s =
     (let (time, s) = getTime s in lock_g_mutex s (postget_section oid tw pf pf_index))"

subsection \<open>Writes\<close>

definition preput_section :: "uint32 \<Rightarrow> uint32 \<Rightarrow> cc_state \<Rightarrow> cc_state" where
  "preput_section time oid s =
     s\<lparr>pending_list := map_insert (ucast oid) (mk_Op oid time) (pending_list s)\<rparr>"

definition enclave_preput :: "cc_state \<Rightarrow> (uint32 \<times> cc_state) outcome" where
  "enclave_preput s =
     (let (time, s) = getTime s; (oid, s) = allocId s
      in lock_g_mutex s (\<lambda>s. Return (oid, preput_section time oid s)))"

text \<open>
  \<^verbatim>\<open>truncate\<close> moves the completed writes whose timestamps continue the history into
  \<^verbatim>\<open>acl\<close>.  \<^verbatim>\<open>cur\<close> is a 32-bit \<^verbatim>\<open>Timestamp\<close>, the keys of the map are 64-bit.
\<close>

function truncate_loop :: "(uint64, Op) fmap \<Rightarrow> uint32 \<Rightarrow> Op list \<Rightarrow> (uint64, Op) fmap \<times> Op list" where
  "truncate_loop cmpl cur acl =
     (case fmlookup cmpl (ucast cur) of
        None \<Rightarrow> (cmpl, acl)
      | Some op \<Rightarrow> truncate_loop (fmdrop (ucast cur) cmpl) (cur + 1) (acl @ [op]))"
  by pat_completeness auto
termination
proof (relation "measure (\<lambda>(cmpl, cur, acl). fcard (fmdom cmpl))")
  fix cmpl :: "(uint64, Op) fmap" and cur :: uint32 and acl op
  assume "fmlookup cmpl (ucast cur) = Some op"
  then have "ucast cur \<in> fset (fmdom cmpl)" by (rule fmdomI)
  moreover have "fset (fmdom (fmdrop (ucast cur) cmpl)) = fset (fmdom cmpl) - {ucast cur}"
    by simp
  ultimately have "fcard (fmdom (fmdrop (ucast cur) cmpl)) < fcard (fmdom cmpl)"
    by (metis card_Diff1_less fcard.rep_eq finite_fset)
  then show "((fmdrop (ucast cur) cmpl, cur + 1, acl @ [op]), cmpl, cur, acl)
      \<in> measure (\<lambda>(cmpl, cur, acl). fcard (fmdom cmpl))"
    by simp
qed simp

declare truncate_loop.simps [simp del]

definition truncate_cc :: "(uint64, Op) fmap \<Rightarrow> HistoryW \<Rightarrow> ((uint64, Op) fmap \<times> Op list) outcome" where
  "truncate_cc cmpl his =
     bind_outcome (read (ts_att (latest his))) (\<lambda>ts. Return (truncate_loop cmpl (ts + 1) []))"

text \<open>
  \<^verbatim>\<open>check\<close> prints \<^verbatim>\<open>error dected\<close> for every pair of neighbouring or distant writes whose
  real-time order contradicts their timestamps, and returns true in any case.  The model
  returns the reported pairs.
\<close>

definition check_pair :: "Op list \<Rightarrow> nat \<Rightarrow> nat \<Rightarrow> bool outcome" where
  "check_pair acl i j =
     bind_outcome (read (op_end (acl ! j))) (\<lambda>e.
     bind_outcome (read (op_start (acl ! i))) (\<lambda>s. Return (e \<le> s)))"

fun check_loop :: "Op list \<Rightarrow> (nat \<times> nat) list \<Rightarrow> (nat \<times> nat) list outcome" where
  "check_loop acl [] = Return []"
| "check_loop acl ((i, j) # ps) =
     bind_outcome (check_pair acl i j) (\<lambda>bad.
     bind_outcome (check_loop acl ps) (\<lambda>rs. Return (if bad then (i, j) # rs else rs)))"

definition check :: "Op list \<Rightarrow> (bool \<times> (nat \<times> nat) list) outcome" where
  "check acl =
     (if length acl = 1 then Return (True, [])
      else bind_outcome
             (check_loop acl [(i, j). i \<leftarrow> [0..<length acl], j \<leftarrow> [i + 1..<length acl]])
             (\<lambda>rs. Return (True, rs)))"

definition try_merge :: "HistoryW \<Rightarrow> Op list \<Rightarrow> (bool \<times> HistoryW) outcome" where
  "try_merge his acl =
     (if length acl = 0 then Return (True, his)
      else bind_outcome (read (op_end (acl ! 0))) (\<lambda>e.
           bind_outcome (read (op_start (latest his))) (\<lambda>s.
             if e < s then Return (False, his) else Return (True, foldl update his acl))))"

definition postput_section ::
  "uint32 \<Rightarrow> uint32 \<Rightarrow> uint64 \<Rightarrow> cc_state \<Rightarrow> (cc_state \<times> (nat \<times> nat) list) outcome" where
  "postput_section time oid seq s =
     bind_outcome (read (fmlookup (pending_list s) (ucast oid))) (\<lambda>op.
       (let op = setTs (setEnd op time) (ucast seq);
            s = s\<lparr>pending_list := fmdrop (ucast oid) (pending_list s),
                  completed_list := map_insert seq op (completed_list s)\<rparr>
        in bind_outcome (truncate_cc (completed_list s) (history s)) (\<lambda>(cmpl, acl).
           bind_outcome (check acl) (\<lambda>(ok, errors).
             (let s = s\<lparr>completed_list := cmpl\<rparr> in
              if \<not> ok then Return (s\<lparr>g_mutex := True\<rparr>, errors)
              else bind_outcome (try_merge (history s) acl) (\<lambda>(merged, his).
                if \<not> merged then Return (s\<lparr>g_mutex := True\<rparr>, errors)
                else Return (s\<lparr>history := his\<rparr>, errors)))))))"

definition enclave_postput ::
  "uint32 \<Rightarrow> uint64 \<Rightarrow> cc_state \<Rightarrow> (cc_state \<times> (nat \<times> nat) list) outcome" where
  "enclave_postput oid seq s =
     (let (time, s) = getTime s in lock_g_mutex s (postput_section time oid seq))"

subsection \<open>Interleaved executions\<close>

text \<open>
  Any number of client threads run writes through the checker, as
  \<^verbatim>\<open>Benchmark::DoWrite\<close> does: \<^verbatim>\<open>ecall_preput1\<close>, the write itself, which obtains its
  sequence number from the store, and \<^verbatim>\<open>ecall_postput1\<close>.  A step is one critical section of
  one thread, or one group commit of the store; every write succeeds (\<^verbatim>\<open>DoWrite\<close> leaves the
  process otherwise).  The steps are guarded against wrap-around of the 32-bit counters.
\<close>

datatype thread =
  Idle
| Timed uint32
| Identified uint32 uint32
| Writing uint32
| Written uint32 uint64
| Ending uint32 uint64 uint32

record cc_sys =
  cc :: cc_state
  threads :: "nat \<Rightarrow> thread"
  db_seq :: uint64
  reports :: "(nat \<times> nat) list"

text \<open>\<open>q\<close> is the last sequence number of the store when it is opened, 0 for a new one.\<close>

definition sys_init :: "uint64 \<Rightarrow> cc_sys" where
  "sys_init q = \<lparr>cc = cc_init, threads = (\<lambda>_. Idle), db_seq = q, reports = []\<rparr>"

text \<open>
  A writer returns from \<^verbatim>\<open>SUWrite\<close> with a sequence number.  The writer at the head of the
  queue commits its batch together with those of the writers behind it.  \<^verbatim>\<open>BuildBatchGroup\<close>
  numbers the followers \<open>sequence + 1\<close>, \<open>sequence + 2\<close>, ... whatever their batches hold; the
  leader gets the old last sequence number plus the number of updates of all batches.  Which of the
  waiting writers join the group is left open; none of them is a request for a compaction, which
  has no batch.
\<close>

fun return_seq :: "uint64 \<Rightarrow> thread \<Rightarrow> thread" where
  "return_seq seq (Writing oid) = Written oid seq"
| "return_seq seq p = p"

fun BuildBatchGroup_seqs :: "uint64 \<Rightarrow> nat \<Rightarrow> nat list \<Rightarrow> (nat \<Rightarrow> thread) \<Rightarrow> nat \<Rightarrow> thread" where
  "BuildBatchGroup_seqs sequence i [] ths = ths"
| "BuildBatchGroup_seqs sequence i (w # ws) ths =
     BuildBatchGroup_seqs sequence (i + 1) ws (ths(w := return_seq (sequence + of_nat i) (ths w)))"

definition SUWrite_group :: "nat \<Rightarrow> nat list \<Rightarrow> nat list \<Rightarrow> cc_sys \<Rightarrow> cc_sys" where
  "SUWrite_group w followers counts s =
     (let last_sequence = db_seq s;
          ths = BuildBatchGroup_seqs last_sequence 1 followers (threads s);
          last_sequence = last_sequence + of_nat (sum_list counts)
      in s\<lparr>db_seq := last_sequence, threads := ths(w := return_seq last_sequence (ths w))\<rparr>)"

text \<open>\<open>N\<close> is the set of the numbers of updates that the batches of the clients have.\<close>

inductive cc_step :: "nat set \<Rightarrow> cc_sys \<Rightarrow> cc_sys \<Rightarrow> bool" for N where
  preput_time: "threads s t = Idle \<Longrightarrow> unat (g_timer (cc s)) + 1 < 2 ^ 32 \<Longrightarrow>
    getTime (cc s) = (time, c) \<Longrightarrow>
    cc_step N s (s\<lparr>cc := c, threads := (threads s)(t := Timed time)\<rparr>)"
| preput_id: "threads s t = Timed time \<Longrightarrow> unat (g_id (cc s)) + 1 < 2 ^ 32 \<Longrightarrow>
    allocId (cc s) = (oid, c) \<Longrightarrow>
    cc_step N s (s\<lparr>cc := c, threads := (threads s)(t := Identified time oid)\<rparr>)"
| preput_insert: "threads s t = Identified time oid \<Longrightarrow> \<not> g_mutex (cc s) \<Longrightarrow>
    cc_step N s (s\<lparr>cc := preput_section time oid (cc s), threads := (threads s)(t := Writing oid)\<rparr>)"
| db_write: "distinct (t # ts) \<Longrightarrow> (\<And>u. u \<in> set (t # ts) \<Longrightarrow> \<exists>oid. threads s u = Writing oid) \<Longrightarrow>
    length counts = length (t # ts) \<Longrightarrow> set counts \<subseteq> N \<Longrightarrow>
    unat (db_seq s) + sum_list counts + 1 < 2 ^ 32 \<Longrightarrow>
    cc_step N s (SUWrite_group t ts counts s)"
| postput_time: "threads s t = Written oid seq \<Longrightarrow> unat (g_timer (cc s)) + 1 < 2 ^ 32 \<Longrightarrow>
    getTime (cc s) = (time, c) \<Longrightarrow>
    cc_step N s (s\<lparr>cc := c, threads := (threads s)(t := Ending oid seq time)\<rparr>)"
| postput_merge: "threads s t = Ending oid seq time \<Longrightarrow> \<not> g_mutex (cc s) \<Longrightarrow>
    postput_section time oid seq (cc s) = Return (c, errors) \<Longrightarrow>
    cc_step N s (s\<lparr>cc := c, threads := (threads s)(t := Idle), reports := reports s @ errors\<rparr>)"

inductive cc_reachable :: "uint64 \<Rightarrow> nat set \<Rightarrow> cc_sys \<Rightarrow> bool" for q N where
  init: "unat q + 1 < 2 ^ 32 \<Longrightarrow> cc_reachable q N (sys_init q)"
| step: "cc_reachable q N s \<Longrightarrow> cc_step N s s' \<Longrightarrow> cc_reachable q N s'"

end
