(* ===== verification/Enclave_CC_Safety.thy ===== *)
theory Enclave_CC_Safety
  imports Enclave_CC
begin

text \<open>
  Honest executions of the consistency checker: whatever the interleaving of the client
  threads, no handler of a write has undefined behaviour, no false alarm is raised and the mutex
  is always released; on a new store with batches of one update all writes are in the history
  once every client is idle, while a skipped number blocks the history for ever.  Then reads, and
  the exact effect of closing a write.
\<close>

subsection \<open>Basic facts about the handlers\<close>

lemma fmlookup_map_insert:
  "fmlookup m k = None \<Longrightarrow> fmlookup (map_insert k v m) j = (if j = k then Some v else fmlookup m j)"
  by (simp add: map_insert_def)

lemma read_simps [simp]: "read (Some a) = Return a" "read None = Undefined"
  by (simp_all add: read_def)

lemma truncate_loop_run:
  "truncate_loop cmpl cur acl = (cmpl', acl') \<Longrightarrow>
   \<exists>n. acl' = acl @ map (\<lambda>i. the (fmlookup cmpl (ucast (cur + of_nat i)))) [0..<n] \<and>
     (\<forall>i<n. fmlookup cmpl (ucast (cur + of_nat i)) \<noteq> None) \<and>
     fmlookup cmpl' (ucast (cur + of_nat n)) = None \<and>
     (\<forall>k. fmlookup cmpl' k =
        (if \<exists>i<n. k = ucast (cur + of_nat i) then None else fmlookup cmpl k))"
proof (induction cmpl cur acl rule: truncate_loop.induct)
  case (1 cmpl cur acl)
  show ?case
  proof (cases "fmlookup cmpl (ucast cur)")
    case None
    with "1.prems" show ?thesis
      by (intro exI [of _ 0]) (auto simp: truncate_loop.simps [of cmpl cur acl])
  next
    case (Some op)
    let ?c = "fmdrop (ucast cur) cmpl"
    from "1.prems" Some have "truncate_loop ?c (cur + 1) (acl @ [op]) = (cmpl', acl')"
      by (simp add: truncate_loop.simps [of cmpl cur acl])
    from "1.IH" [OF Some this] obtain n where
      acl: "acl' = (acl @ [op]) @ map (\<lambda>i. the (fmlookup ?c (ucast (cur + 1 + of_nat i)))) [0..<n]"
      and mem: "\<forall>i<n. fmlookup ?c (ucast (cur + 1 + of_nat i)) \<noteq> None"
      and stop: "fmlookup cmpl' (ucast (cur + 1 + of_nat n)) = None"
      and rest: "\<forall>k. fmlookup cmpl' k =
        (if \<exists>i<n. k = ucast (cur + 1 + of_nat i) then None else fmlookup ?c k)"
      by blast
    have sh: "cur + 1 + of_nat i = cur + of_nat (Suc i)" for i by simp
    have look: "fmlookup ?c (ucast (cur + of_nat (Suc i))) = fmlookup cmpl (ucast (cur + of_nat (Suc i)))"
      if "i < n" for i
      using mem that unfolding sh by (metis fmlookup_drop)
    have "acl' = acl @ map (\<lambda>i. the (fmlookup cmpl (ucast (cur + of_nat i)))) [0..<Suc n]"
      unfolding acl sh upt_conv_Cons [OF zero_less_Suc] map_Suc_upt [symmetric]
      using Some look by simp
    moreover have "\<forall>i<Suc n. fmlookup cmpl (ucast (cur + of_nat i)) \<noteq> None"
    proof (intro allI impI)
      fix i assume "i < Suc n"
      then show "fmlookup cmpl (ucast (cur + of_nat i)) \<noteq> None"
        using Some mem look unfolding sh by (cases i) auto
    qed
    moreover have "fmlookup cmpl' (ucast (cur + of_nat (Suc n))) = None"
      using stop unfolding sh .
    moreover have "fmlookup cmpl' k =
        (if \<exists>i<Suc n. k = ucast (cur + of_nat i) then None else fmlookup cmpl k)" for k
    proof -
      have "(\<exists>i<Suc n. k = ucast (cur + of_nat i)) \<longleftrightarrow>
          k = ucast cur \<or> (\<exists>i<n. k = ucast (cur + of_nat (Suc i)))"
        by (auto simp: less_Suc_eq_0_disj)
      then show ?thesis using rest unfolding sh by auto
    qed
    ultimately show ?thesis by blast
  qed
qed

lemma check_loop_quiet:
  assumes "\<And>i j. (i, j) \<in> set ps \<Longrightarrow>
    \<exists>e s. op_end (acl ! j) = Some e \<and> op_start (acl ! i) = Some s \<and> s < e"
  shows "check_loop acl ps = Return []"
  using assms
proof (induction ps)
  case (Cons p ps)
  obtain i j where p: "p = (i, j)" by fastforce
  with Cons.prems [of i j] obtain e s where
    "op_end (acl ! j) = Some e" "op_start (acl ! i) = Some s" "s < e" by auto
  then have "check_pair acl i j = Return False"
    by (simp add: check_pair_def not_le)
  with Cons p show ?case by simp
qed simp

lemma check_quiet:
  assumes "\<And>i j. i < j \<Longrightarrow> j < length acl \<Longrightarrow>
    \<exists>e s. op_end (acl ! j) = Some e \<and> op_start (acl ! i) = Some s \<and> s < e"
  shows "check acl = Return (True, [])"
proof -
  have "check_loop acl [(i, j). i \<leftarrow> [0..<length acl], j \<leftarrow> [i + 1..<length acl]] = Return []"
    by (rule check_loop_quiet) (use assms in auto)
  then show ?thesis by (simp add: check_def)
qed

lemma latest_foldl_update: "acl \<noteq> [] \<Longrightarrow> latest (foldl update his acl) = last acl"
  by (induction acl arbitrary: his rule: rev_induct) (simp_all add: latest_def update_def)

subsection \<open>The invariant\<close>

fun oid_of :: "thread \<Rightarrow> uint32 option" where
  "oid_of (Identified time oid) = Some oid"
| "oid_of (Writing oid) = Some oid"
| "oid_of (Written oid seq) = Some oid"
| "oid_of (Ending oid seq time) = Some oid"
| "oid_of _ = None"

fun seq_of :: "thread \<Rightarrow> uint64 option" where
  "seq_of (Written oid seq) = Some seq"
| "seq_of (Ending oid seq time) = Some seq"
| "seq_of _ = None"

text \<open>The id under which the operation is in \<^verbatim>\<open>pending_list\<close>.\<close>

fun slot_of :: "thread \<Rightarrow> uint32 option" where
  "slot_of (Writing oid) = Some oid"
| "slot_of (Written oid seq) = Some oid"
| "slot_of (Ending oid seq time) = Some oid"
| "slot_of _ = None"

fun times_of :: "thread \<Rightarrow> uint32 set" where
  "times_of (Timed time) = {time}"
| "times_of (Identified time oid) = {time}"
| "times_of _ = {}"

text \<open>The start times of numbered writes that still matter, and the end times of finished ones.\<close>

definition started :: "cc_sys \<Rightarrow> uint64 \<Rightarrow> uint32 \<Rightarrow> bool" where
  "started s k st \<longleftrightarrow>
     (\<exists>th. ts_att (current (history (cc s))) = Some th \<and> k = ucast th \<and>
           op_start (current (history (cc s))) = Some st) \<or>
     (\<exists>op. fmlookup (completed_list (cc s)) k = Some op \<and> op_start op = Some st) \<or>
     (\<exists>t oid op. seq_of (threads s t) = Some k \<and> slot_of (threads s t) = Some oid \<and>
           fmlookup (pending_list (cc s)) (ucast oid) = Some op \<and> op_start op = Some st)"

definition ended :: "cc_sys \<Rightarrow> uint64 \<Rightarrow> uint32 \<Rightarrow> bool" where
  "ended s m e \<longleftrightarrow>
     (\<exists>op. fmlookup (completed_list (cc s)) m = Some op \<and> op_end op = Some e) \<or>
     (\<exists>t oid. threads s t = Ending oid m e)"

text \<open>Operation ids are unique, and \<^verbatim>\<open>pending_list\<close> holds the operations between the two calls.\<close>

definition oids_inv :: "cc_sys \<Rightarrow> bool" where
  "oids_inv s \<longleftrightarrow>
     (\<forall>t oid. oid_of (threads s t) = Some oid \<longrightarrow> oid \<le> g_id (cc s)) \<and>
     (\<forall>t t' oid. oid_of (threads s t) = Some oid \<longrightarrow> oid_of (threads s t') = Some oid \<longrightarrow> t = t')"

definition pending_inv :: "cc_sys \<Rightarrow> bool" where
  "pending_inv s \<longleftrightarrow>
     (\<forall>t. times_of (threads s t) \<subseteq> {..g_timer (cc s)}) \<and>
     (\<forall>k. fmlookup (pending_list (cc s)) k \<noteq> None \<longrightarrow>
        (\<exists>t oid. slot_of (threads s t) = Some oid \<and> k = ucast oid)) \<and>
     (\<forall>t oid. slot_of (threads s t) = Some oid \<longrightarrow>
        (\<exists>op st. fmlookup (pending_list (cc s)) (ucast oid) = Some op \<and>
           op_start op = Some st \<and> st \<le> g_timer (cc s)))"

text \<open>
  The numbers that writes hold lie after the history's timestamp and up to \<open>db_seq\<close>, and no two
  writes hold the same: a write holds it in flight or in \<^verbatim>\<open>completed_list\<close>, where the next
  number after the history's is not.  When the numbers are \<open>d\<close>ense, as they are on a new store
  with batches of one update, each number in this range belongs to some write.
\<close>

definition seqs_cover :: "bool \<Rightarrow> uint32 \<Rightarrow> cc_sys \<Rightarrow> bool" where
  "seqs_cover d th s \<longleftrightarrow>
     unat (db_seq s) + 1 < 2 ^ 32 \<and> ucast th \<le> db_seq s \<and>
     (\<forall>t q. seq_of (threads s t) = Some q \<longrightarrow>
        ucast th < q \<and> q \<le> db_seq s \<and> fmlookup (completed_list (cc s)) q = None) \<and>
     (\<forall>t t' q. seq_of (threads s t) = Some q \<longrightarrow> seq_of (threads s t') = Some q \<longrightarrow> t = t') \<and>
     (\<forall>k op. fmlookup (completed_list (cc s)) k = Some op \<longrightarrow>
        ucast th < k \<and> k \<le> db_seq s \<and> ts_att op = Some (ucast k) \<and>
        op_start op \<noteq> None \<and> op_end op \<noteq> None) \<and>
     (d \<longrightarrow> (\<forall>k. ucast th < k \<longrightarrow> k \<le> db_seq s \<longrightarrow>
        fmlookup (completed_list (cc s)) k \<noteq> None \<or> (\<exists>t. seq_of (threads s t) = Some k)))"

definition seqs_inv :: "bool \<Rightarrow> cc_sys \<Rightarrow> bool" where
  "seqs_inv d s \<longleftrightarrow>
     (\<exists>th. ts_att (current (history (cc s))) = Some th \<and> seqs_cover d th s \<and>
        fmlookup (completed_list (cc s)) (ucast (th + 1)) = None) \<and>
     op_start (current (history (cc s))) \<noteq> None"

text \<open>A write with a smaller number started before a write with a larger number ended.\<close>

definition order_inv :: "cc_sys \<Rightarrow> bool" where
  "order_inv s \<longleftrightarrow>
     (\<forall>k st. started s k st \<longrightarrow> st \<le> g_timer (cc s)) \<and>
     (\<forall>k st m e. started s k st \<longrightarrow> ended s m e \<longrightarrow> k < m \<longrightarrow> st < e)"

definition cc_inv :: "bool \<Rightarrow> cc_sys \<Rightarrow> bool" where
  "cc_inv d s \<longleftrightarrow> oids_inv s \<and> pending_inv s \<and> seqs_inv d s \<and> order_inv s \<and> \<not> g_mutex (cc s) \<and> reports s = []"

lemmas inv_parts [inv_defs] = oids_inv_def pending_inv_def seqs_inv_def seqs_cover_def order_inv_def started_def ended_def

lemma seqs_coverD:
  assumes "seqs_cover d th s"
  shows "unat (db_seq s) + 1 < 2 ^ 32" and "ucast th \<le> db_seq s"
    and "\<And>t q. seq_of (threads s t) = Some q \<Longrightarrow> ucast th < q"
    and "\<And>t q. seq_of (threads s t) = Some q \<Longrightarrow> q \<le> db_seq s"
    and "\<And>t q. seq_of (threads s t) = Some q \<Longrightarrow> fmlookup (completed_list (cc s)) q = None"
    and "\<And>t t' q. seq_of (threads s t) = Some q \<Longrightarrow> seq_of (threads s t') = Some q \<Longrightarrow> t = t'"
    and "\<And>k op. fmlookup (completed_list (cc s)) k = Some op \<Longrightarrow> ucast th < k"
    and "\<And>k op. fmlookup (completed_list (cc s)) k = Some op \<Longrightarrow> k \<le> db_seq s"
    and "\<And>k op. fmlookup (completed_list (cc s)) k = Some op \<Longrightarrow> ts_att op = Some (ucast k)"
    and "\<And>k op. fmlookup (completed_list (cc s)) k = Some op \<Longrightarrow> op_start op \<noteq> None"
    and "\<And>k op. fmlookup (completed_list (cc s)) k = Some op \<Longrightarrow> op_end op \<noteq> None"
    and "\<And>k. d \<Longrightarrow> ucast th < k \<Longrightarrow> k \<le> db_seq s \<Longrightarrow>
        fmlookup (completed_list (cc s)) k \<noteq> None \<or> (\<exists>t. seq_of (threads s t) = Some k)"
  using assms unfolding seqs_cover_def by blast+

lemma cc_inv_init: "unat q + 1 < 2 ^ 32 \<Longrightarrow> (d \<Longrightarrow> q = 0) \<Longrightarrow> cc_inv d (sys_init q)"
  by (auto simp: cc_inv_def inv_defs sys_init_def cc_init_def HistoryW_init_def setEnd_def
      setStart_def setTs_def Op_default_def)

subsection \<open>Steps that do not touch the history\<close>

lemma word_inc_less:
  fixes x :: "'a::len word"
  assumes "unat x + 1 < 2 ^ LENGTH('a)"
  shows "x < x + 1" and "unat (x + 1) = unat x + 1"
  using assms by (simp_all add: word_less_nat_alt unat_word_ariths)

lemma getTime_eq: "getTime c = (g_timer c + 1, c\<lparr>g_timer := g_timer c + 1\<rparr>)"
  by (simp add: getTime_def Let_def)

lemma allocId_eq: "allocId c = (g_id c + 1, c\<lparr>g_id := g_id c + 1\<rparr>)"
  by (simp add: allocId_def Let_def)

lemma le_inc: "unat x + 1 < 2 ^ LENGTH('a) \<Longrightarrow> y \<le> x \<Longrightarrow> y \<le> x + (1 :: 'a::len word)"
  using word_inc_less [of x] by (meson order_trans order_less_imp_le)

lemma seqs_inv_threads:
  assumes "seqs_inv d s" and "threads s' = (threads s)(t := p)" and "seq_of p = seq_of (threads s t)"
    and "completed_list (cc s') = completed_list (cc s)" and "history (cc s') = history (cc s)"
    and "db_seq s' = db_seq s"
  shows "seqs_inv d s'"
proof -
  have "seq_of (threads s' u) = seq_of (threads s u)" for u using assms(2,3) by simp
  then show ?thesis using assms unfolding seqs_inv_def seqs_cover_def by simp
qed

lemma slot_oid: "slot_of p = Some oid \<Longrightarrow> oid_of p = Some oid"
  by (cases p) auto

lemma oids_inv_threads:
  assumes "oids_inv s" and "threads s' = (threads s)(t := p)"
    and "\<And>oid. oid_of p = Some oid \<Longrightarrow> oid_of (threads s t) = Some oid"
    and "g_id (cc s') = g_id (cc s)"
  shows "oids_inv s'"
  using assms unfolding oids_inv_def by (simp split: if_splits) metis

lemma pending_inv_threads:
  assumes inv: "pending_inv s" and th: "threads s' = (threads s)(t := p)"
    and p: "slot_of p = slot_of (threads s t)"
    and tm: "times_of p \<subseteq> {..g_timer (cc s')}" and le: "g_timer (cc s) \<le> g_timer (cc s')"
    and c: "pending_list (cc s') = pending_list (cc s)"
  shows "pending_inv s'"
proof -
  have slots: "slot_of (threads s' u) = slot_of (threads s u)" for u using th p by simp
  have "times_of (threads s u) \<subseteq> {..g_timer (cc s')}" for u
    using inv le unfolding pending_inv_def by (meson atMost_subset_iff order_trans)
  then have "times_of (threads s' u) \<subseteq> {..g_timer (cc s')}" for u
    using th tm by simp
  moreover have "\<exists>op st. fmlookup (pending_list (cc s)) (ucast oid) = Some op \<and>
      op_start op = Some st \<and> st \<le> g_timer (cc s')" if "slot_of (threads s u) = Some oid" for u oid
    using inv that le unfolding pending_inv_def by (meson order_trans)
  ultimately show ?thesis
    using inv unfolding pending_inv_def c slots by blast
qed

lemma order_inv_threads:
  assumes "order_inv s" and "\<And>k st. started s' k st \<Longrightarrow> started s k st"
    and "\<And>m e. ended s' m e \<Longrightarrow> ended s m e" and "g_timer (cc s) \<le> g_timer (cc s')"
  shows "order_inv s'"
  using assms unfolding order_inv_def by (meson order_trans)

lemma preput_time_inv:
  assumes inv: "cc_inv d s" and idle: "threads s t = Idle" and g: "unat (g_timer (cc s)) + 1 < 2 ^ 32"
  shows "cc_inv d (s\<lparr>cc := cc s\<lparr>g_timer := g_timer (cc s) + 1\<rparr>,
    threads := (threads s)(t := Timed (g_timer (cc s) + 1))\<rparr>)" (is "cc_inv d ?s")
proof -
  have le: "g_timer (cc s) \<le> g_timer (cc s) + 1"
    using g le_inc [of "g_timer (cc s)"] by simp
  have "oids_inv ?s" using inv idle by (intro oids_inv_threads [of s ?s t]) (auto simp: cc_inv_def)
  moreover have "pending_inv ?s"
    using inv idle le by (intro pending_inv_threads [of s ?s t]) (auto simp: cc_inv_def)
  moreover have "seqs_inv d ?s"
    using inv idle by (intro seqs_inv_threads [of d s ?s t]) (auto simp: cc_inv_def)
  moreover have "order_inv ?s"
    by (rule order_inv_threads [of s])
      (use inv idle le in \<open>auto simp: cc_inv_def started_def ended_def split: if_splits\<close>)
  ultimately show ?thesis using inv by (simp add: cc_inv_def)
qed

lemma preput_id_inv:
  assumes inv: "cc_inv d s" and th: "threads s t = Timed time" and g: "unat (g_id (cc s)) + 1 < 2 ^ 32"
  shows "cc_inv d (s\<lparr>cc := cc s\<lparr>g_id := g_id (cc s) + 1\<rparr>,
    threads := (threads s)(t := Identified time (g_id (cc s) + 1))\<rparr>)" (is "cc_inv d ?s")
proof -
  have le: "x \<le> g_id (cc s) + 1" "x \<noteq> g_id (cc s) + 1" if "x \<le> g_id (cc s)" for x
    using that g le_inc [of "g_id (cc s)"] word_inc_less [of "g_id (cc s)"] by auto
  have "oids_inv ?s"
    using inv le by (auto simp: cc_inv_def oids_inv_def split: if_splits)
  moreover have "times_of (threads s t) \<subseteq> {..g_timer (cc s)}"
    using inv by (auto simp: cc_inv_def pending_inv_def)
  then have "pending_inv ?s"
    using inv th by (intro pending_inv_threads [of s ?s t]) (auto simp: cc_inv_def)
  moreover have "seqs_inv d ?s"
    using inv th by (intro seqs_inv_threads [of d s ?s t]) (auto simp: cc_inv_def)
  moreover have "order_inv ?s"
    by (rule order_inv_threads [of s])
      (use inv th in \<open>auto simp: cc_inv_def started_def ended_def split: if_splits\<close>)
  ultimately show ?thesis using inv by (simp add: cc_inv_def)
qed

lemma ucast_oid_eq: "(ucast (a :: uint32) :: uint64) = ucast b \<longleftrightarrow> a = b"
proof
  assume "(ucast a :: uint64) = ucast b"
  then have "ucast (ucast a :: uint64) = (ucast (ucast b :: uint64) :: uint32)" by simp
  then show "a = b" by (simp add: ucast_up_ucast_id is_up)
qed simp

lemma slot_unique:
  "oids_inv s \<Longrightarrow> oid_of (threads s t) = Some oid \<Longrightarrow> slot_of (threads s u) = Some oid \<Longrightarrow> u = t"
  using slot_oid unfolding oids_inv_def by blast

lemma preput_insert_inv:
  assumes inv: "cc_inv d s" and th: "threads s t = Identified time oid"
  shows "cc_inv d (s\<lparr>cc := preput_section time oid (cc s), threads := (threads s)(t := Writing oid)\<rparr>)"
    (is "cc_inv d ?s")
proof -
  have oids: "oids_inv s" and pend: "pending_inv s" using inv by (simp_all add: cc_inv_def)
  have other: "slot_of (threads s u) \<noteq> Some oid" for u
    using slot_unique [OF oids, of t oid u] th by auto
  then have fresh: "fmlookup (pending_list (cc s)) (ucast oid) = None"
    using pend unfolding pending_inv_def by (metis option.exhaust option.distinct(1) ucast_oid_eq)
  have look: "fmlookup (pending_list (cc ?s)) k =
      (if k = ucast oid then Some (mk_Op oid time) else fmlookup (pending_list (cc s)) k)" for k
    using fresh by (simp add: preput_section_def fmlookup_map_insert)
  have tm: "time \<le> g_timer (cc s)"
    using pend th unfolding pending_inv_def by (metis atMost_iff insert_subset times_of.simps(2))
  have rest: "completed_list (cc ?s) = completed_list (cc s)" "history (cc ?s) = history (cc s)"
    "g_timer (cc ?s) = g_timer (cc s)" "g_mutex (cc ?s) = g_mutex (cc s)" "g_id (cc ?s) = g_id (cc s)"
    by (simp_all add: preput_section_def)
  have "oids_inv ?s" using oids th rest by (intro oids_inv_threads [of s ?s t]) (auto simp: preput_section_def)
  moreover have "seqs_inv d ?s"
    using inv th by (intro seqs_inv_threads [of d s ?s t]) (auto simp: cc_inv_def preput_section_def)
  moreover have "order_inv ?s"
  proof (rule order_inv_threads [of s])
    fix k st assume "started ?s k st"
    then show "started s k st"
      unfolding started_def rest look using other by (auto simp: ucast_oid_eq split: if_splits) 
  qed (use inv rest in \<open>auto simp: cc_inv_def ended_def split: if_splits\<close>)
  moreover have "pending_inv ?s"
    unfolding pending_inv_def look rest
  proof (intro conjI allI impI)
    fix u show "times_of (threads ?s u) \<subseteq> {..g_timer (cc s)}"
      using pend by (simp add: pending_inv_def)
  next
    fix k assume "(if k = ucast oid then Some (mk_Op oid time) else fmlookup (pending_list (cc s)) k) \<noteq> None"
    then consider "k = ucast oid" | u o' where "slot_of (threads s u) = Some o'" "k = ucast o'"
      using pend unfolding pending_inv_def by metis
    then show "\<exists>u o'. slot_of (threads ?s u) = Some o' \<and> k = ucast o'"
    proof cases
      case 1 then show ?thesis by (intro exI [of _ t]) simp
    next
      case 2 then show ?thesis using th by (intro exI [of _ u]) auto
    qed
  next
    fix u o' assume "slot_of (threads ?s u) = Some o'"
    then show "\<exists>op st. (if ucast o' = (ucast oid :: uint64) then Some (mk_Op oid time)
        else fmlookup (pending_list (cc s)) (ucast o')) = Some op \<and> op_start op = Some st \<and> st \<le> g_timer (cc s)"
      using pend other tm by (auto simp: pending_inv_def mk_Op_def setStart_def ucast_oid_eq split: if_splits)
  qed
  ultimately show ?thesis using inv rest by (simp add: cc_inv_def)
qed

lemma ended_le: "seqs_inv d s \<Longrightarrow> ended s m e \<Longrightarrow> m \<le> db_seq s"
  unfolding seqs_inv_def seqs_cover_def ended_def by (metis seq_of.simps(2))

text \<open>A group commit hands out one number after the other, each larger than the last one.\<close>

definition take_number :: "nat \<Rightarrow> nat \<Rightarrow> cc_sys \<Rightarrow> cc_sys" where
  "take_number t n s = (let q = db_seq s + of_nat n
     in s\<lparr>db_seq := q, threads := (threads s)(t := return_seq q (threads s t))\<rparr>)"

lemma take_number_seq:
  fixes q :: uint64
  assumes "0 < n" and "unat q + n + 1 < 2 ^ 32"
  shows "q < q + of_nat n" and "unat (q + of_nat n) = unat q + n"
proof -
  have "unat (of_nat n :: uint64) = n" using assms by (simp add: unat_of_nat)
  with assms show eq: "unat (q + of_nat n) = unat q + n" by (simp add: unat_word_ariths)
  from eq assms show "q < q + of_nat n" by (simp add: word_less_nat_alt)
qed

lemma take_number_order:
  assumes pend: "pending_inv s" and ord: "order_inv s" and seqs: "seqs_inv d s"
    and th: "threads s t = Writing oid" and q: "db_seq s < q"
    and s': "cc s' = cc s" "threads s' = (threads s)(t := Written oid q)"
  shows "order_inv s'"
proof -
  have st: "started s' k st \<Longrightarrow> started s k st \<or> k = q \<and>
      (\<exists>op. fmlookup (pending_list (cc s)) (ucast oid) = Some op \<and> op_start op = Some st)" for k st
    using th by (auto simp: started_def s' split: if_splits)
  have en: "ended s' m e \<Longrightarrow> ended s m e" for m e
    using th by (auto simp: ended_def s' split: if_splits)
  have new: "st \<le> g_timer (cc s)"
    if "fmlookup (pending_list (cc s)) (ucast oid) = Some op" "op_start op = Some st" for op st
    using pend th that unfolding pending_inv_def by (metis option.inject slot_of.simps(1))
  have "m \<le> db_seq s" if "ended s m e" for m e using ended_le seqs that .
  then have "\<not> q < m" if "ended s m e" for m e
    using that q by (meson leD order.strict_trans)
  moreover have "started s' k st \<Longrightarrow> st \<le> g_timer (cc s)" for k st
    using st [of k st] ord new unfolding order_inv_def by blast
  ultimately show ?thesis
    using ord st en unfolding order_inv_def s'(1) by simp blast
qed

lemma take_number_cover:
  assumes cov: "seqs_cover d th s" and wr: "threads s t = Writing oid"
    and n: "0 < n" "d \<Longrightarrow> n = 1" and g: "unat (db_seq s) + n + 1 < 2 ^ 32"
    and s': "cc s' = cc s" "db_seq s' = db_seq s + of_nat n"
      "threads s' = (threads s)(t := Written oid (db_seq s + of_nat n))"
  shows "seqs_cover d th s'"
proof -
  let ?q = "db_seq s + of_nat n"
  note step = take_number_seq [OF n(1) g]
  note D = seqs_coverD [OF cov]
  have le: "k \<le> ?q" if "k \<le> db_seq s" for k
    using that step(1) by (meson order_less_imp_le order_trans)
  have dense: "k \<le> db_seq s \<or> k = ?q" if d "k \<le> ?q" for k
  proof -
    have "unat k \<le> unat (db_seq s) + 1" using that step(2) n(2) by (simp add: word_le_nat_alt)
    then show ?thesis using that(1) step(2) n(2) unfolding word_le_nat_alt word_unat_eq_iff by arith
  qed
  have new: "fmlookup (completed_list (cc s)) ?q = None"
    using D(8) step(1) by (metis leD option.exhaust)
  have newt: "seq_of (threads s u) \<noteq> Some ?q" for u
    using D(4) step(1) by (meson leD)
  have E': "fmlookup (completed_list (cc s)) k \<noteq> None \<or> (\<exists>u. seq_of (threads s' u) = Some k)"
    if "d" "ucast th < k" "k \<le> ?q" for k
  proof (cases "k = ?q")
    case False
    then have "k \<le> db_seq s" using dense that(1,3) by blast
    moreover have "u \<noteq> t" if "seq_of (threads s u) = Some k" for u
      using that wr by auto
    ultimately show ?thesis using D(12) [OF that(1,2)] by (auto simp: s')
  qed (auto simp: s' intro: exI [of _ t])
  have lt: "ucast th < ?q" using D(2) step(1) by simp
  show ?thesis unfolding seqs_cover_def s'(1,2)
  proof (intro conjI allI impI)
    show "unat ?q + 1 < 2 ^ 32" using step g by simp
    show "ucast th \<le> ?q" using lt by simp
  next
    fix u q assume "seq_of (threads s' u) = Some q"
    then have "q = ?q \<or> seq_of (threads s u) = Some q" by (auto simp: s' split: if_splits)
    then show "ucast th < q" "q \<le> ?q" "fmlookup (completed_list (cc s)) q = None"
      using D(3,4,5) lt new le by auto
  next
    fix u v q assume "seq_of (threads s' u) = Some q" "seq_of (threads s' v) = Some q"
    then show "u = v" using D(6) newt by (auto simp: s' split: if_splits)
  next
    fix k assume "d" "ucast th < k" "k \<le> ?q"
    then show "fmlookup (completed_list (cc s)) k \<noteq> None \<or> (\<exists>u. seq_of (threads s' u) = Some k)"
      by (rule E')
  qed (use D(7-11) le in auto)
qed

lemma take_number_inv:
  assumes inv: "cc_inv d s" and th: "threads s t = Writing oid" and n: "0 < n" "d \<Longrightarrow> n = 1"
    and g: "unat (db_seq s) + n + 1 < 2 ^ 32"
  shows "cc_inv d (take_number t n s)" (is "cc_inv d ?s")
proof -
  have s: "cc ?s = cc s" "db_seq ?s = db_seq s + of_nat n" "reports ?s = reports s"
    "threads ?s = (threads s)(t := Written oid (db_seq s + of_nat n))"
    using th by (simp_all add: take_number_def Let_def)
  have parts: "oids_inv s" "pending_inv s" "seqs_inv d s" "order_inv s"
    using inv by (simp_all add: cc_inv_def)
  have "oids_inv ?s" using parts(1) th s by (intro oids_inv_threads [of s ?s t]) auto
  moreover have "pending_inv ?s"
    using parts(2) th s by (intro pending_inv_threads [of s ?s t]) auto
  moreover have "order_inv ?s"
    by (rule take_number_order [OF parts(2,4,3) th take_number_seq(1) [OF n(1) g] s(1,4)])
  moreover have "seqs_inv d ?s"
    using parts(3) take_number_cover [OF _ th n g s(1,2,4)] unfolding seqs_inv_def s(1) by blast
  ultimately show ?thesis using inv s by (simp add: cc_inv_def)
qed

lemma take_followers:
  "distinct ws \<Longrightarrow>
   foldl (\<lambda>s w. take_number w 1 s) s ws =
     s\<lparr>db_seq := db_seq s + of_nat (length ws),
       threads := BuildBatchGroup_seqs q i ws (threads s)\<rparr>"
  if "q + of_nat i = db_seq s + 1"
  using that
proof (induction ws arbitrary: s i)
  case (Cons w ws)
  have q: "q + of_nat (i + 1) = db_seq (take_number w 1 s) + 1"
    using Cons.prems by (simp add: take_number_def Let_def add.assoc [symmetric])
  show ?case
    using Cons.IH [OF _ q] Cons.prems
    by (simp add: take_number_def Let_def algebra_simps fun_upd_def)
qed simp

lemma SUWrite_group_take:
  assumes "distinct (t # ts)" and "length ts \<le> sum_list counts"
  shows "SUWrite_group t ts counts s =
    take_number t (sum_list counts - length ts) (foldl (\<lambda>s w. take_number w 1 s) s ts)"
proof -
  have "of_nat (length ts) + of_nat (sum_list counts - length ts) = (of_nat (sum_list counts) :: uint64)"
    using assms(2) by (simp add: of_nat_diff)
  then show ?thesis
    using take_followers [of "db_seq s" 1 s ts] assms(1)
    by (simp add: SUWrite_group_def take_number_def Let_def add.assoc)
qed

lemma take_followers_inv:
  assumes "cc_inv d s" and "distinct ws" and "\<And>u. u \<in> set ws \<Longrightarrow> \<exists>oid. threads s u = Writing oid"
    and "unat (db_seq s) + length ws + 1 < 2 ^ 32"
  shows "cc_inv d (foldl (\<lambda>s w. take_number w 1 s) s ws) \<and>
    unat (db_seq (foldl (\<lambda>s w. take_number w 1 s) s ws)) = unat (db_seq s) + length ws \<and>
    (\<forall>u. u \<notin> set ws \<longrightarrow> threads (foldl (\<lambda>s w. take_number w 1 s) s ws) u = threads s u)"
  using assms
proof (induction ws arbitrary: s)
  case (Cons w ws)
  let ?s = "take_number w 1 s"
  obtain oid where w: "threads s w = Writing oid" using Cons.prems(3) by auto
  have inv: "cc_inv d ?s" using Cons.prems take_number_inv [OF Cons.prems(1) w, of 1] by simp
  have seq: "unat (db_seq ?s) = unat (db_seq s) + 1"
    using take_number_seq(2) [of 1 "db_seq s"] Cons.prems(4) by (simp add: take_number_def Let_def)
  have thr: "threads ?s u = threads s u" if "u \<noteq> w" for u
    using that by (simp add: take_number_def Let_def)
  have wr: "\<exists>oid. threads ?s u = Writing oid" if "u \<in> set ws" for u
    using that Cons.prems(2,3) thr [of u] by (metis distinct.simps(2) list.set_intros(2))
  have "distinct ws" and "unat (db_seq ?s) + length ws + 1 < 2 ^ 32"
    using Cons.prems(2,4) seq by simp_all
  from Cons.IH [OF inv this(1) wr this(2)] show ?case using seq thr by simp
qed simp

lemma db_write_inv:
  assumes inv: "cc_inv d s" and dist: "distinct (t # ts)"
    and wr: "\<And>u. u \<in> set (t # ts) \<Longrightarrow> \<exists>oid. threads s u = Writing oid"
    and counts: "length counts = length (t # ts)" "0 \<notin> set counts" "d \<Longrightarrow> set counts \<subseteq> {1}"
    and g: "unat (db_seq s) + sum_list counts + 1 < 2 ^ 32"
  shows "cc_inv d (SUWrite_group t ts counts s)"
proof -
  have len: "length counts \<le> sum_list counts"
    using counts(2) by (induction counts) auto
  have one: "sum_list counts = length counts" if d
    using counts(3) [OF that] by (induction counts) auto
  let ?s = "foldl (\<lambda>s w. take_number w 1 s) s ts"
  have g': "unat (db_seq s) + length ts + 1 < 2 ^ 32" using g len counts(1) by simp
  have wr': "\<And>u. u \<in> set ts \<Longrightarrow> \<exists>oid. threads s u = Writing oid" using wr by simp
  have dts: "distinct ts" "t \<notin> set ts" using dist by simp_all
  from take_followers_inv [OF inv dts(1) wr' g'] have F: "cc_inv d ?s"
    "unat (db_seq ?s) = unat (db_seq s) + length ts" "threads ?s t = threads s t"
    using dts(2) by simp_all
  obtain oid where "threads ?s t = Writing oid" using wr [of t] F(3) by auto
  moreover have "0 < sum_list counts - length ts" "d \<Longrightarrow> sum_list counts - length ts = 1"
    using len counts(1) one by simp_all
  ultimately have "cc_inv d (take_number t (sum_list counts - length ts) ?s)"
    using take_number_inv [OF F(1), of t oid] F(2) g len counts(1) by simp
  then show ?thesis using SUWrite_group_take [OF dist] len counts(1) by simp
qed

lemma postput_time_inv:
  assumes inv: "cc_inv d s" and th: "threads s t = Written oid seq" and g: "unat (g_timer (cc s)) + 1 < 2 ^ 32"
  shows "cc_inv d (s\<lparr>cc := cc s\<lparr>g_timer := g_timer (cc s) + 1\<rparr>,
    threads := (threads s)(t := Ending oid seq (g_timer (cc s) + 1))\<rparr>)" (is "cc_inv d ?s")
proof -
  have lt: "x < g_timer (cc s) + 1" if "x \<le> g_timer (cc s)" for x
    using that g word_inc_less [of "g_timer (cc s)"] by auto
  have "oids_inv ?s" using inv th by (intro oids_inv_threads [of s ?s t]) (auto simp: cc_inv_def)
  moreover have "pending_inv ?s"
    using inv th lt [of "g_timer (cc s)"] by (intro pending_inv_threads [of s ?s t]) (auto simp: cc_inv_def)
  moreover have "seqs_inv d ?s"
    using inv th by (intro seqs_inv_threads [of d s ?s t]) (auto simp: cc_inv_def)
  moreover have "order_inv ?s"
  proof -
    have "seq_of (threads ?s u) = seq_of (threads s u)" "slot_of (threads ?s u) = slot_of (threads s u)" for u
      using th by simp_all
    then have st: "started ?s k st \<Longrightarrow> started s k st" for k st
      unfolding started_def by simp
    have en: "ended ?s m e \<Longrightarrow> ended s m e \<or> e = g_timer (cc s) + 1" for m e
      by (auto simp: ended_def split: if_splits)
    have ord: "order_inv s" using inv by (simp add: cc_inv_def)
    then have "started ?s k st \<Longrightarrow> st < g_timer (cc s) + 1" for k st
      using st lt unfolding order_inv_def by blast
    then show ?thesis
      using ord st en unfolding order_inv_def by (simp add: order_less_imp_le) blast
  qed
  ultimately show ?thesis using inv by (simp add: cc_inv_def)
qed

subsection \<open>Merging into the history\<close>

text \<open>The state after the write was moved from \<^verbatim>\<open>pending_list\<close> to \<^verbatim>\<open>completed_list\<close>.\<close>

lemma postput_insert_cover:
  assumes cov: "seqs_cover d th s" and th: "threads s t = Ending oid seq time"
    and op: "ts_att op = Some (ucast seq)" "op_start op \<noteq> None" "op_end op \<noteq> None"
    and s': "db_seq s' = db_seq s" "threads s' = (threads s)(t := Idle)"
      "completed_list (cc s') = map_insert seq op (completed_list (cc s))"
  shows "seqs_cover d th s'"
proof -
  note D = seqs_coverD [OF cov]
  have sq: "seq_of (threads s t) = Some seq" by (simp add: th)
  have look: "fmlookup (completed_list (cc s')) k =
      (if k = seq then Some op else fmlookup (completed_list (cc s)) k)" for k
    using D(5) [OF sq] by (simp add: s' fmlookup_map_insert)
  have seqs: "seq_of (threads s' u) = Some q \<longleftrightarrow> seq_of (threads s u) = Some q \<and> u \<noteq> t" for u q
    by (simp add: s')
  show ?thesis unfolding seqs_cover_def s'(1) look
  proof (intro conjI allI impI)
    fix u q assume q: "seq_of (threads s' u) = Some q"
    then show "ucast th < q" "q \<le> db_seq s" using D(3,4) seqs by blast+
    show "(if q = seq then Some op else fmlookup (completed_list (cc s)) q) = None"
      using q D(5,6) sq seqs by auto
  next
    fix k assume "d" "ucast th < k" "k \<le> db_seq s"
    then show "(if k = seq then Some op else fmlookup (completed_list (cc s)) k) \<noteq> None \<or>
        (\<exists>u. seq_of (threads s' u) = Some k)"
      using D(12) [of k] sq seqs by (metis option.inject option.distinct(1))
  qed (use D op sq seqs in \<open>auto split: if_splits\<close>)
qed

lemma unat_ucast_key: "unat (ucast (w :: uint32) :: uint64) = unat w"
proof -
  have "unat w < 2 ^ 32" using unsigned_less [of w, where 'a = nat] by simp
  then have "unat w < 2 ^ 64" by simp
  then show ?thesis by (simp add: unsigned_ucast_eq take_bit_nat_eq_self unsigned_take_bit_eq)
qed

lemma truncate_keys:
  assumes cov: "seqs_cover d th s"
    and mem: "\<forall>i<n. fmlookup (completed_list (cc s)) (ucast (th + 1 + of_nat i)) \<noteq> None"
    and i: "i \<le> n"
  shows "unat (th + 1 + of_nat i) = unat th + 1 + i" and "unat th + i \<le> unat (db_seq s)"
proof -
  note D = seqs_coverD [OF cov]
  have bound: "unat th + 1 < 2 ^ 32"
    using D(1,2) by (simp add: word_le_nat_alt unat_ucast_key)
  have "unat (th + 1 + of_nat i) = unat th + 1 + i \<and> unat th + i \<le> unat (db_seq s)"
    using i
  proof (induction i)
    case 0
    then show ?case using D(2) bound word_inc_less [of th] by (simp add: word_le_nat_alt unat_ucast_key)
  next
    case (Suc i)
    then have IH: "unat (th + 1 + of_nat i) = unat th + 1 + i" by simp
    from Suc.prems mem obtain op where "fmlookup (completed_list (cc s)) (ucast (th + 1 + of_nat i)) = Some op"
      by fastforce
    from D(8) [OF this] have "unat th + 1 + i \<le> unat (db_seq s)"
      unfolding word_le_nat_alt unat_ucast_key IH .
    moreover have "th + 1 + of_nat (Suc i) = (th + 1 + of_nat i) + 1" by simp
    ultimately show ?case using IH D(1) word_inc_less(2) [of "th + 1 + of_nat i"] by simp
  qed
  then show "unat (th + 1 + of_nat i) = unat th + 1 + i" and "unat th + i \<le> unat (db_seq s)" by simp_all
qed

lemma truncate_key_iff:
  fixes k :: uint64
  assumes "seqs_cover d th s"
    and "\<forall>i<n. fmlookup (completed_list (cc s)) (ucast (th + 1 + of_nat i)) \<noteq> None"
  shows "(\<exists>i<n. k = ucast (th + 1 + of_nat i)) \<longleftrightarrow> ucast th < k \<and> unat k \<le> unat th + n"
proof -
  have "k = ucast (th + 1 + of_nat i) \<longleftrightarrow> unat k = unat th + 1 + i" if "i < n" for i
    using truncate_keys(1) [OF assms, of i] that unfolding word_unat_eq_iff unat_ucast_key by simp
  then have "(\<exists>i<n. k = ucast (th + 1 + of_nat i)) \<longleftrightarrow> (\<exists>i<n. unat k = unat th + 1 + i)" by blast
  also have "\<dots> \<longleftrightarrow> unat th < unat k \<and> unat k \<le> unat th + n"
    by (auto intro: exI [of _ "unat k - unat th - 1"])
  finally show ?thesis by (simp add: word_less_nat_alt unat_ucast_key)
qed

lemma truncate_cover:
  assumes cov: "seqs_cover d th s"
    and mem: "\<forall>i<n. fmlookup (completed_list (cc s)) (ucast (th + 1 + of_nat i)) \<noteq> None"
    and rest: "\<forall>k. fmlookup cmpl k =
        (if \<exists>i<n. k = ucast (th + 1 + of_nat i) then None else fmlookup (completed_list (cc s)) k)"
    and s': "db_seq s' = db_seq s" "threads s' = threads s" "completed_list (cc s') = cmpl"
  shows "seqs_cover d (th + of_nat n) s'"
proof -
  note D = seqs_coverD [OF cov]
  have n: "unat (th + of_nat n) = unat th + n"
  proof (cases n)
    case (Suc m)
    then show ?thesis using truncate_keys(1) [OF cov mem, of m] by (simp add: add.assoc)
  qed simp
  have look: "fmlookup cmpl k = (if ucast th < k \<and> unat k \<le> unat th + n then None
      else fmlookup (completed_list (cc s)) k)" for k
    unfolding truncate_key_iff [OF cov mem, symmetric] by (rule rest [rule_format])
  have gt: "ucast (th + of_nat n) < k \<longleftrightarrow> unat th + n < unat k" for k :: uint64
    by (simp add: word_less_nat_alt unat_ucast_key n)
  have weak: "ucast th < k" if "unat th + n < unat k" for k :: uint64
    using that by (simp add: word_less_nat_alt unat_ucast_key)
  have free: "unat th + n < unat k" if "fmlookup (completed_list (cc s)) k = None" "ucast th < k" for k
    using that truncate_key_iff [OF cov mem, of k] mem by (metis linorder_not_le)
  show ?thesis unfolding seqs_cover_def s' look gt
  proof (intro conjI allI impI)
    show "ucast (th + of_nat n) \<le> db_seq s"
      using truncate_keys(2) [OF cov mem, of n] by (simp add: word_le_nat_alt unat_ucast_key n)
  next
    fix k assume "d" "unat th + n < unat k" "k \<le> db_seq s"
    then show "(if ucast th < k \<and> unat k \<le> unat th + n then None
        else fmlookup (completed_list (cc s)) k) \<noteq> None \<or> (\<exists>t. seq_of (threads s t) = Some k)"
      using D(12) weak by auto
  next
    fix t t' q assume "seq_of (threads s t) = Some q" "seq_of (threads s t') = Some q"
    then show "t = t'" by (rule D(6))
  qed (use D free in \<open>auto split: if_splits simp: not_le dest: D(7)\<close>)
qed

text \<open>The truncated prefix passes \<^verbatim>\<open>check\<close> and \<^verbatim>\<open>try_merge\<close>.\<close>

lemma truncated_checks:
  assumes cov: "seqs_cover d th s" and ord: "order_inv s"
    and h: "ts_att (current (history (cc s))) = Some th" "op_start (current (history (cc s))) \<noteq> None"
    and mem: "\<forall>i<n. fmlookup (completed_list (cc s)) (ucast (th + 1 + of_nat i)) \<noteq> None"
    and acl: "acl = map (\<lambda>i. the (fmlookup (completed_list (cc s)) (ucast (th + 1 + of_nat i)))) [0..<n]"
  shows "check acl = Return (True, [])"
    and "try_merge (history (cc s)) acl = Return (True, foldl update (history (cc s)) acl)"
proof -
  note D = seqs_coverD [OF cov]
  have nth: "\<exists>st e. op_start (acl ! i) = Some st \<and> op_end (acl ! i) = Some e \<and>
      started s (ucast (th + 1 + of_nat i)) st \<and> ended s (ucast (th + 1 + of_nat i)) e" if "i < n" for i
  proof -
    obtain op where op: "fmlookup (completed_list (cc s)) (ucast (th + 1 + of_nat i)) = Some op"
      using mem \<open>i < n\<close> by fastforce
    then have "acl ! i = op" using that by (simp add: acl)
    with op D(10,11) [OF op] show ?thesis by (auto simp: started_def ended_def)
  qed
  have key: "(ucast (th + 1 + of_nat i) :: uint64) < ucast (th + 1 + of_nat j)" if "i < j" "j < n" for i j
    using truncate_keys(1) [OF cov mem, of i] truncate_keys(1) [OF cov mem, of j] that
    unfolding word_less_nat_alt unat_ucast_key by simp
  show "check acl = Return (True, [])"
  proof (rule check_quiet)
    fix i j assume ij: "i < j" "j < length acl"
    then have "i < n" "j < n" by (simp_all add: acl)
    from nth [OF this(1)] nth [OF this(2)] key [OF ij(1) this(2)]
    show "\<exists>e st. op_end (acl ! j) = Some e \<and> op_start (acl ! i) = Some st \<and> st < e"
      using ord unfolding order_inv_def by blast
  qed
  show "try_merge (history (cc s)) acl = Return (True, foldl update (history (cc s)) acl)"
  proof (cases "n = 0")
    case False
    then have n: "0 < n" and l: "length acl \<noteq> 0" by (simp_all add: acl)
    from nth [OF n] obtain e where e: "op_end (acl ! 0) = Some e" "ended s (ucast (th + 1)) e" by auto
    from h obtain st where st: "op_start (latest (history (cc s))) = Some st" "started s (ucast th) st"
      by (auto simp: started_def latest_def)
    have "(ucast th :: uint64) < ucast (th + 1)"
      using truncate_keys(1) [OF cov mem, of 0] unfolding word_less_nat_alt unat_ucast_key by simp
    then have "st < e" using ord e st unfolding order_inv_def by blast
    then show ?thesis using e st l by (simp add: try_merge_def)
  qed (simp add: acl try_merge_def)
qed

lemma postput_pending:
  assumes pend: "pending_inv s" and oids: "oids_inv s" and th: "threads s t = Ending oid seq time"
    and s': "threads s' = (threads s)(t := Idle)" "g_timer (cc s') = g_timer (cc s)"
      "pending_list (cc s') = fmdrop (ucast oid) (pending_list (cc s))"
  shows "pending_inv s'"
  unfolding pending_inv_def s'(2)
proof (intro conjI allI impI)
  fix u show "times_of (threads s' u) \<subseteq> {..g_timer (cc s)}"
    using pend by (simp add: s' pending_inv_def)
next
  fix k assume "fmlookup (pending_list (cc s')) k \<noteq> None"
  then have k: "k \<noteq> ucast oid" "fmlookup (pending_list (cc s)) k \<noteq> None" by (auto simp: s' split: if_splits)
  then obtain u o' where u: "slot_of (threads s u) = Some o'" "k = ucast o'"
    using pend unfolding pending_inv_def by blast
  moreover have "u \<noteq> t" using u k(1) th by auto
  ultimately show "\<exists>u o'. slot_of (threads s' u) = Some o' \<and> k = ucast o'"
    by (intro exI [of _ u] exI [of _ o']) (simp add: s')
next
  fix u o' assume "slot_of (threads s' u) = Some o'"
  then have u: "slot_of (threads s u) = Some o'" "u \<noteq> t" by (auto simp: s' split: if_splits)
  then have "o' \<noteq> oid" using slot_unique [OF oids, of t oid u] th by auto
  then have "fmlookup (pending_list (cc s')) (ucast o') = fmlookup (pending_list (cc s)) (ucast o')"
    by (simp add: s' ucast_oid_eq)
  then show "\<exists>op st. fmlookup (pending_list (cc s')) (ucast o') = Some op \<and>
      op_start op = Some st \<and> st \<le> g_timer (cc s)"
    using pend u(1) unfolding pending_inv_def by presburger
qed

text \<open>Moving the write from \<^verbatim>\<open>pending_list\<close> to \<^verbatim>\<open>completed_list\<close> adds no start or end time.\<close>

lemma postput_insert_order:
  assumes ord: "order_inv s" and th: "threads s t = Ending oid seq time"
    and new: "fmlookup (completed_list (cc s)) seq = None"
    and op: "fmlookup (pending_list (cc s)) (ucast oid) = Some op" "op_start op' = op_start op"
      "op_end op' = Some time"
    and s': "threads s' = (threads s)(t := Idle)" "g_timer (cc s') = g_timer (cc s)"
      "history (cc s') = history (cc s)"
      "pending_list (cc s') = fmdrop (ucast oid) (pending_list (cc s))"
      "completed_list (cc s') = map_insert seq op' (completed_list (cc s))"
  shows "order_inv s'"
proof (rule order_inv_threads [OF ord])
  have look: "fmlookup (completed_list (cc s')) k =
      (if k = seq then Some op' else fmlookup (completed_list (cc s)) k)" for k
    using new by (simp add: s' fmlookup_map_insert)
  {
    fix k st assume "started s' k st"
    then consider "\<exists>th. ts_att (current (history (cc s))) = Some th \<and> k = ucast th \<and>
          op_start (current (history (cc s))) = Some st"
      | "k = seq" "op_start op = Some st"
      | op where "fmlookup (completed_list (cc s)) k = Some op" "op_start op = Some st"
      | u o' op where "seq_of (threads s u) = Some k" "slot_of (threads s u) = Some o'"
          "fmlookup (pending_list (cc s)) (ucast o') = Some op" "op_start op = Some st"
      unfolding started_def look using op(2) by (auto simp: s' split: if_splits)
    then show "started s k st"
    proof cases
      case 2
      then have "seq_of (threads s t) = Some k" "slot_of (threads s t) = Some oid" using th by simp_all
      then show ?thesis using op(1) 2 unfolding started_def by blast
    qed (unfold started_def, blast+)
  }
  fix m e assume "ended s' m e"
  then show "ended s m e"
    unfolding ended_def look using op(3) th by (auto simp: s' split: if_splits)
qed (simp add: s')

lemma merge_history:
  assumes cov: "seqs_cover d ts s" and ord: "order_inv s"
    and h: "ts_att (current (history (cc s))) = Some ts" "op_start (current (history (cc s))) \<noteq> None"
    and tr: "truncate_loop (completed_list (cc s)) (ts + 1) [] = (cmpl, acl)"
    and s': "threads s' = threads s" "db_seq s' = db_seq s" "pending_list (cc s') = pending_list (cc s)"
      "g_timer (cc s') = g_timer (cc s)" "completed_list (cc s') = cmpl"
      "history (cc s') = foldl update (history (cc s)) acl"
  shows "check acl = Return (True, [])"
    and "try_merge (history (cc s)) acl = Return (True, foldl update (history (cc s)) acl)"
    and "seqs_inv d s'" and "order_inv s'"
proof -
  from truncate_loop_run [OF tr, unfolded append_Nil] obtain n where
    acl: "acl = map (\<lambda>i. the (fmlookup (completed_list (cc s)) (ucast (ts + 1 + of_nat i)))) [0..<n]"
    and mem: "\<forall>i<n. fmlookup (completed_list (cc s)) (ucast (ts + 1 + of_nat i)) \<noteq> None"
    and stop: "fmlookup cmpl (ucast (ts + 1 + of_nat n)) = None"
    and rest: "\<forall>k. fmlookup cmpl k = (if \<exists>i<n. k = ucast (ts + 1 + of_nat i) then None
        else fmlookup (completed_list (cc s)) k)"
    by blast
  show "check acl = Return (True, [])"
    and "try_merge (history (cc s)) acl = Return (True, foldl update (history (cc s)) acl)"
    by (rule truncated_checks [OF cov ord h mem acl])+
  have last: "fmlookup (completed_list (cc s)) (ucast (ts + of_nat n)) = Some (last acl)" if n: "n \<noteq> 0"
  proof -
    obtain m where m: "n = Suc m" using n by (cases n) auto
    with mem have "fmlookup (completed_list (cc s)) (ucast (ts + 1 + of_nat m)) \<noteq> None" by simp
    then show ?thesis unfolding acl m by (auto simp: add.assoc)
  qed
  have his: "current (history (cc s')) = (if n = 0 then current (history (cc s)) else last acl)"
    using latest_foldl_update [of acl "history (cc s)"] acl by (auto simp: s' latest_def)
  have "ts_att (current (history (cc s'))) = Some (ts + of_nat n)"
    "op_start (current (history (cc s'))) \<noteq> None"
    using his h seqs_coverD(9,10) [OF cov last] by (simp_all add: ucast_up_ucast_id is_up)
  moreover have "seqs_cover d (ts + of_nat n) s'"
    by (rule truncate_cover [OF cov mem rest]) (simp_all add: s')
  moreover have "fmlookup (completed_list (cc s')) (ucast (ts + of_nat n + 1)) = None"
    using stop by (simp add: s' add.commute add.left_commute)
  ultimately show "seqs_inv d s'" unfolding seqs_inv_def by blast
  have sub: "fmlookup (completed_list (cc s')) k = Some op \<Longrightarrow> fmlookup (completed_list (cc s)) k = Some op" for k op
    using rest by (simp add: s' split: if_splits)
  show "order_inv s'"
  proof (rule order_inv_threads [OF ord])
    fix k st assume "started s' k st"
    then consider "\<exists>th. ts_att (current (history (cc s'))) = Some th \<and> k = ucast th \<and>
          op_start (current (history (cc s'))) = Some st" | "started s k st"
      unfolding started_def s'(1,3) using sub by blast
    then show "started s k st"
    proof cases
      case 1
      with his h \<open>ts_att (current (history (cc s'))) = Some (ts + of_nat n)\<close> last show ?thesis
        by (cases "n = 0") (auto simp: started_def)
    qed
  next
    fix m e assume "ended s' m e"
    then show "ended s m e" unfolding ended_def s'(1) using sub by blast
  qed (simp add: s')
qed

lemma postput_merge_inv:
  assumes inv: "cc_inv d s" and th: "threads s t = Ending oid seq time"
  shows "\<exists>c. postput_section time oid seq (cc s) = Return (c, []) \<and>
    cc_inv d (s\<lparr>cc := c, threads := (threads s)(t := Idle)\<rparr>)"
proof -
  have oids: "oids_inv s" and pend: "pending_inv s" and seqs: "seqs_inv d s" and ord: "order_inv s"
    using inv by (simp_all add: cc_inv_def)
  have slot: "slot_of (threads s t) = Some oid" "seq_of (threads s t) = Some seq" using th by simp_all
  then obtain op st where op: "fmlookup (pending_list (cc s)) (ucast oid) = Some op" "op_start op = Some st"
    using pend unfolding pending_inv_def by blast
  obtain ts where ts: "ts_att (current (history (cc s))) = Some ts" "seqs_cover d ts s"
    using seqs unfolding seqs_inv_def by auto
  let ?op = "setTs (setEnd op time) (ucast seq)"
  have op': "ts_att ?op = Some (ucast seq)" "op_start ?op = op_start op" "op_end ?op = Some time"
    by (simp_all add: setTs_def setEnd_def)
  define c1 where "c1 = cc s\<lparr>pending_list := fmdrop (ucast oid) (pending_list (cc s)),
                   completed_list := map_insert seq ?op (completed_list (cc s))\<rparr>"
  let ?s1 = "s\<lparr>cc := c1, threads := (threads s)(t := Idle)\<rparr>"
  have cov: "seqs_cover d ts ?s1"
    using postput_insert_cover [OF ts(2) th, of ?op ?s1] op op' by (simp add: c1_def)
  have ord1: "order_inv ?s1"
    using postput_insert_order [OF ord th seqs_coverD(5) [OF ts(2) slot(2)] op(1), of ?op ?s1] op'
    by (simp add: c1_def)
  obtain cmpl acl where tr: "truncate_loop (completed_list c1) (ts + 1) [] = (cmpl, acl)" by fastforce
  let ?c2 = "c1\<lparr>completed_list := cmpl, history := foldl update (history c1) acl\<rparr>"
  let ?s2 = "s\<lparr>cc := ?c2, threads := (threads s)(t := Idle)\<rparr>"
  have hist: "history c1 = history (cc s)" by (simp add: c1_def)
  have hst: "op_start (current (history (cc s))) \<noteq> None" using seqs by (simp add: seqs_inv_def)
  have m: "check acl = Return (True, [])"
      "try_merge (history c1) acl = Return (True, foldl update (history c1) acl)"
      "seqs_inv d ?s2" "order_inv ?s2"
    using merge_history [OF cov ord1, of cmpl acl ?s2] ts(1) hst tr hist by simp_all
  have "postput_section time oid seq (cc s) = Return (?c2, [])"
    using op(1) ts(1) tr m(1,2) by (simp add: postput_section_def truncate_cc_def latest_def c1_def)
  moreover have "oids_inv ?s2"
    using oids th by (intro oids_inv_threads [of s ?s2 t]) (auto simp: c1_def)
  moreover have "pending_inv ?s2" using postput_pending [OF pend oids th, of ?s2] by (simp add: c1_def)
  moreover have "\<not> g_mutex ?c2" using inv by (simp add: cc_inv_def c1_def)
  ultimately show ?thesis using m(3,4) inv by (auto simp: cc_inv_def)
qed

subsection \<open>Reachable states\<close>

lemma cc_step_inv: "cc_step N s s' \<Longrightarrow> 0 \<notin> N \<Longrightarrow> (d \<Longrightarrow> N \<subseteq> {1}) \<Longrightarrow> cc_inv d s \<Longrightarrow> cc_inv d s'"
proof (induction rule: cc_step.induct)
  case (preput_time s t time c)
  then show ?case using preput_time_inv [of d s t] by (auto simp: getTime_eq)
next
  case (preput_id s t time oid c)
  then show ?case using preput_id_inv [of d s t time] by (auto simp: allocId_eq)
next
  case (preput_insert s t time oid)
  then show ?case using preput_insert_inv [of d s t time oid] by simp
next
  case (db_write t ts s counts)
  have "0 \<notin> set counts" "d \<Longrightarrow> set counts \<subseteq> {1}"
    using db_write.hyps(4) db_write.prems(1,2) by blast+
  with db_write show ?case by (intro db_write_inv) simp_all
next
  case (postput_time s t oid seq time c)
  then show ?case using postput_time_inv [of d s t oid seq] by (auto simp: getTime_eq)
next
  case (postput_merge s t oid seq time c errors)
  then show ?case using postput_merge_inv [of d s t oid seq time] by auto
qed

lemma cc_reachable_inv: "cc_reachable q N s \<Longrightarrow> 0 \<notin> N \<Longrightarrow> cc_inv (q = 0 \<and> N \<subseteq> {1}) s"
proof (induction rule: cc_reachable.induct)
  case init
  then show ?case by (intro cc_inv_init) simp_all
next
  case (step s s')
  then show ?case by (intro cc_step_inv [OF step.hyps(2)]) simp_all
qed

lemma cc_reachable_steps: "(cc_step N)\<^sup>*\<^sup>* s s' \<Longrightarrow> cc_reachable q N s \<Longrightarrow> cc_reachable q N s'"
  by (induction rule: rtranclp_induct) (auto intro: cc_reachable.step)

lemma all_idle_cover:
  assumes cov: "seqs_cover True th s" and nxt: "fmlookup (completed_list (cc s)) (ucast (th + 1)) = None"
    and idle: "\<And>t. threads s t = Idle"
  shows "db_seq s = ucast th" and "completed_list (cc s) = fmempty"
proof -
  note D = seqs_coverD [OF cov]
  have th: "unat (th + 1) = unat th + 1" using truncate_keys(1) [OF cov, of 0 0] by simp
  show eq: "db_seq s = ucast th"
  proof (rule ccontr)
    assume "db_seq s \<noteq> ucast th"
    then have "ucast th < db_seq s" using D(2) by simp
    then have "ucast th < (ucast (th + 1) :: uint64)" "ucast (th + 1) \<le> db_seq s"
      unfolding word_less_nat_alt word_le_nat_alt unat_ucast_key th by simp_all
    then show False using D(12) [of "ucast (th + 1)"] nxt idle by simp
  qed
  show "completed_list (cc s) = fmempty"
  proof (rule fmap_ext)
    fix k show "fmlookup (completed_list (cc s)) k = fmlookup fmempty k"
      using D(7,8) [of k] eq by (cases "fmlookup (completed_list (cc s)) k") auto
  qed
qed

lemma all_idle_pending:
  assumes "pending_inv s" and "\<And>t. threads s t = Idle"
  shows "pending_list (cc s) = fmempty"
proof (rule fmap_ext)
  fix k show "fmlookup (pending_list (cc s)) k = fmlookup fmempty k"
    using assms unfolding pending_inv_def by (cases "fmlookup (pending_list (cc s)) k") auto
qed

text \<open>
  A number that the store has skipped, or handed out before the enclave was started, blocks the
  history for ever.
\<close>

definition skipped :: "uint32 \<Rightarrow> cc_sys \<Rightarrow> bool" where
  "skipped th s \<longleftrightarrow> ucast th < db_seq s \<and> (\<forall>t. seq_of (threads s t) \<noteq> Some (ucast th + 1))"

lemma ucast_suc:
  assumes "unat (th :: uint32) + 1 < 2 ^ 32"
  shows "(ucast (th + 1) :: uint64) = ucast th + 1"
proof -
  have "unat (ucast th + 1 :: uint64) = unat th + 1"
    using assms word_inc_less(2) [of "ucast th :: uint64"] by (simp add: unat_ucast_key)
  then show ?thesis
    using word_inc_less(2) [of th] assms by (simp add: word_unat_eq_iff unat_ucast_key)
qed

lemma skipped_threads:
  assumes "skipped th s" and "db_seq s' = db_seq s"
    and "\<And>u q. seq_of (threads s' u) = Some q \<Longrightarrow> seq_of (threads s u) = Some q"
  shows "skipped th s'"
  using assms unfolding skipped_def by metis

lemma take_number_skipped:
  assumes "skipped th s" and "0 < n" and "unat (db_seq s) + n + 1 < 2 ^ 32"
  shows "skipped th (take_number t n s)"
proof -
  note step = take_number_seq [OF assms(2,3)]
  have "ucast th + 1 \<le> db_seq s" using assms(1) unfolding skipped_def by (simp add: inc_le)
  then have "db_seq s + of_nat n \<noteq> ucast th + 1" using step(1) by auto
  moreover have "seq_of (return_seq q p) = Some k \<Longrightarrow> seq_of p = Some k \<or> k = q" for q p k
    by (cases p) auto
  ultimately show ?thesis
    using assms(1) step(1) unfolding skipped_def take_number_def Let_def
    by (auto split: if_splits) metis
qed

lemma take_followers_skipped:
  assumes "skipped th s" and "unat (db_seq s) + length ws + 1 < 2 ^ 32"
  shows "skipped th (foldl (\<lambda>s w. take_number w 1 s) s ws) \<and>
    unat (db_seq (foldl (\<lambda>s w. take_number w 1 s) s ws)) = unat (db_seq s) + length ws"
  using assms
proof (induction ws arbitrary: s)
  case (Cons w ws)
  have "skipped th (take_number w 1 s)" using Cons.prems by (intro take_number_skipped) simp_all
  moreover have "unat (db_seq (take_number w 1 s)) = unat (db_seq s) + 1"
    using take_number_seq(2) [of 1 "db_seq s"] Cons.prems(2) by (simp add: take_number_def Let_def)
  ultimately show ?case using Cons.IH [of "take_number w 1 s"] Cons.prems(2) by simp
qed simp

lemma SUWrite_group_skipped:
  assumes "skipped th s" and "distinct (t # ts)" and "length counts = length (t # ts)"
    and "0 \<notin> set counts" and "unat (db_seq s) + sum_list counts + 1 < 2 ^ 32"
  shows "skipped th (SUWrite_group t ts counts s)"
proof -
  have len: "length counts \<le> sum_list counts" using assms(4) by (induction counts) auto
  then show ?thesis
    using take_followers_skipped [OF assms(1), of ts] SUWrite_group_take [OF assms(2), of counts s] assms(3,5)
    by (auto intro!: take_number_skipped)
qed

lemma postput_skipped:
  assumes inv: "cc_inv d s" and th: "threads s t = Ending oid seq time"
    and h: "ts_att (current (history (cc s))) = Some ts" and sk: "skipped ts s"
    and run: "postput_section time oid seq (cc s) = Return (c, errors)"
  shows "history c = history (cc s)"
    and "fmlookup (completed_list (cc s)) k = Some op \<Longrightarrow> fmlookup (completed_list c) k = Some op"
proof -
  from inv h have cov: "seqs_cover d ts s" and nxt: "fmlookup (completed_list (cc s)) (ucast (ts + 1)) = None"
    by (auto simp: cc_inv_def seqs_inv_def)
  have sq: "seq_of (threads s t) = Some seq" "slot_of (threads s t) = Some oid" using th by simp_all
  have "unat ts + 1 < 2 ^ 32"
    using seqs_coverD(1,2) [OF cov] by (simp add: word_le_nat_alt unat_ucast_key)
  then have "seq \<noteq> ucast (ts + 1)" using sk sq(1) unfolding skipped_def by (metis ucast_suc)
  moreover have new: "fmlookup (completed_list (cc s)) seq = None" by (rule seqs_coverD(5) [OF cov sq(1)])
  ultimately have "fmlookup (map_insert seq w (completed_list (cc s))) (ucast (ts + 1)) = None" for w
    using nxt by (simp add: fmlookup_map_insert)
  then have tr: "truncate_loop (map_insert seq w (completed_list (cc s))) (ts + 1) [] =
      (map_insert seq w (completed_list (cc s)), [])" for w
    by (simp add: truncate_loop.simps)
  from inv sq(2) obtain w where w: "fmlookup (pending_list (cc s)) (ucast oid) = Some w"
    unfolding cc_inv_def pending_inv_def by blast
  from run w h tr have c: "history c = history (cc s)"
    "\<exists>w. completed_list c = map_insert seq w (completed_list (cc s))"
    by (auto simp: postput_section_def truncate_cc_def latest_def check_def try_merge_def Let_def)
  show "history c = history (cc s)" by (rule c(1))
  show "fmlookup (completed_list c) k = Some op" if "fmlookup (completed_list (cc s)) k = Some op"
    using c(2) that new by (auto simp: fmlookup_map_insert)
qed

lemma cc_step_skipped:
  assumes "cc_step N s s'" and "0 \<notin> N" and "cc_inv False s"
    and "ts_att (current (history (cc s))) = Some th" and "skipped th s"
  shows "history (cc s') = history (cc s) \<and> skipped th s' \<and>
    (\<forall>k op. fmlookup (completed_list (cc s)) k = Some op \<longrightarrow> fmlookup (completed_list (cc s')) k = Some op)"
  using assms
proof (induction rule: cc_step.induct)
  case (preput_time s t time c)
  then show ?case by (auto simp: getTime_eq intro!: skipped_threads [of th s] split: if_splits)
next
  case (preput_id s t time oid c)
  then show ?case by (auto simp: allocId_eq intro!: skipped_threads [of th s] split: if_splits)
next
  case (preput_insert s t time oid)
  then show ?case by (auto simp: preput_section_def intro!: skipped_threads [of th s] split: if_splits)
next
  case (db_write t ts s counts)
  have "0 \<notin> set counts" using db_write.hyps(4) db_write.prems(1) by blast
  moreover have "cc (SUWrite_group t ts counts s) = cc s" by (simp add: SUWrite_group_def Let_def)
  ultimately show ?case using db_write SUWrite_group_skipped [of th s t ts counts] by simp
next
  case (postput_time s t oid seq time c)
  then show ?case by (auto simp: getTime_eq intro!: skipped_threads [of th s] split: if_splits)
next
  case (postput_merge s t oid seq time c errors)
  note P = postput_skipped [OF postput_merge.prems(2) postput_merge.hyps(1) postput_merge.prems(3,4)
      postput_merge.hyps(3)]
  have "skipped th (s\<lparr>cc := c, threads := (threads s)(t := Idle), reports := reports s @ errors\<rparr>)"
    by (rule skipped_threads [OF postput_merge.prems(4)]) (auto split: if_splits)
  then show ?case using P by simp
qed

text \<open>A run of one write up to the last critical section, for concrete instances.\<close>

definition sys_one :: "uint64 \<Rightarrow> nat \<Rightarrow> cc_sys" where
  "sys_one q n = \<lparr>cc = cc_init\<lparr>pending_list := fmupd 1 (mk_Op 1 1) fmempty, g_timer := 2, g_id := 1\<rparr>,
     threads = (\<lambda>_. Idle)(0 := Ending 1 (q + of_nat n) 2), db_seq = q + of_nat n, reports = []\<rparr>"

lemma sys_one_steps:
  assumes n: "n \<in> N" and g: "unat q + n + 1 < 2 ^ 32"
  shows "(cc_step N)\<^sup>*\<^sup>* (sys_init q) (sys_one q n)"
proof -
  let ?T = "\<lambda>p. (\<lambda>_. Idle)(0 := p)"
  define s1 where "s1 = (sys_init q)\<lparr>cc := cc_init\<lparr>g_timer := 1\<rparr>, threads := ?T (Timed 1)\<rparr>"
  define s2 where "s2 = s1\<lparr>cc := cc_init\<lparr>g_timer := 1, g_id := 1\<rparr>, threads := ?T (Identified 1 1)\<rparr>"
  define s3 where "s3 = s2\<lparr>cc := preput_section 1 1 (cc s2), threads := ?T (Writing 1)\<rparr>"
  define s4 where "s4 = s3\<lparr>db_seq := q + of_nat n, threads := ?T (Written 1 (q + of_nat n))\<rparr>"
  have "cc_step N (sys_init q) s1"
    using cc_step.preput_time [of "sys_init q" 0 1 "cc_init\<lparr>g_timer := 1\<rparr>"]
    by (simp add: s1_def sys_init_def getTime_eq cc_init_def)
  moreover have "cc_step N s1 s2"
    using cc_step.preput_id [of s1 0 1 1 "cc_init\<lparr>g_timer := 1, g_id := 1\<rparr>"]
    by (simp add: s1_def s2_def sys_init_def allocId_eq cc_init_def)
  moreover have "cc_step N s2 s3"
    using cc_step.preput_insert [of s2 0 1 1] by (simp add: s1_def s2_def s3_def sys_init_def cc_init_def)
  moreover have "cc_step N s3 s4"
    using cc_step.db_write [of 0 "[]" s3 "[n]" N] n g
    by (simp add: s1_def s2_def s3_def s4_def sys_init_def SUWrite_group_def Let_def)
  moreover have "cc_step N s4 (sys_one q n)"
    using cc_step.postput_time [of s4 0 1 "q + of_nat n" 2 "(cc s4)\<lparr>g_timer := 2\<rparr>"]
    by (simp add: s1_def s2_def s3_def s4_def sys_one_def sys_init_def getTime_eq cc_init_def
        preput_section_def map_insert_def)
  ultimately show ?thesis by (meson converse_rtranclp_into_rtranclp rtranclp.rtrancl_refl)
qed

lemma sys_one_reachable: "n \<in> N \<Longrightarrow> unat q + n + 1 < 2 ^ 32 \<Longrightarrow> cc_reachable q N (sys_one q n)"
  by (rule cc_reachable_steps [OF sys_one_steps]) (simp_all add: cc_reachable.init)

text \<open>The run continued to its end: the write is closed, and the client idle again.\<close>

lemma sys_one_end:
  assumes n: "n \<in> N" "0 \<notin> N" and g: "unat q + n + 1 < 2 ^ 32"
  shows "\<exists>s. (cc_step N)\<^sup>*\<^sup>* (sys_init q) s \<and> (\<forall>t. threads s t = Idle) \<and> db_seq s = q + of_nat n"
proof -
  have th: "threads (sys_one q n) 0 = Ending 1 (q + of_nat n) 2" by (simp add: sys_one_def)
  from postput_merge_inv [OF cc_reachable_inv [OF sys_one_reachable [OF n(1) g] n(2)] th] obtain c where
    run: "postput_section 2 1 (q + of_nat n) (cc (sys_one q n)) = Return (c, [])" by blast
  let ?s = "(sys_one q n)\<lparr>cc := c, threads := (threads (sys_one q n))(0 := Idle),
    reports := reports (sys_one q n) @ []\<rparr>"
  have "\<not> g_mutex (cc (sys_one q n))" by (simp add: sys_one_def cc_init_def)
  then have "(cc_step N)\<^sup>*\<^sup>* (sys_init q) ?s"
    by (intro rtranclp.rtrancl_into_rtrancl [OF sys_one_steps [OF n(1) g]]
        cc_step.postput_merge [OF th _ run])
  moreover have "\<forall>t. threads ?s t = Idle" "db_seq ?s = q + of_nat n" by (simp_all add: sys_one_def)
  ultimately show ?thesis by blast
qed

subsection \<open>Properties\<close>

text \<open>
  C1: in every interleaving of honest writers, whose batches hold any numbers of updates but none,
  on a new or a reopened store, the checker raises no alarm, \<^verbatim>\<open>g_mutex\<close> is free between critical
  sections, and \<^verbatim>\<open>enclave_postput\<close> always runs to its end, dereferences no \<^verbatim>\<open>end()\<close> iterator and
  reads no uninitialised field.
\<close>

theorem cc_no_false_alarm:
  assumes "cc_reachable q N s" and "0 \<notin> N"
  shows "reports s = [] \<and> \<not> g_mutex (cc s) \<and>
    (\<forall>t oid seq time. threads s t = Ending oid seq time \<longrightarrow>
       (\<exists>c. postput_section time oid seq (cc s) = Return (c, []) \<and> \<not> g_mutex c))"
proof -
  have inv: "cc_inv (q = 0 \<and> N \<subseteq> {1}) s" using assms by (rule cc_reachable_inv)
  have "\<exists>c. postput_section time oid seq (cc s) = Return (c, []) \<and> \<not> g_mutex c"
    if th: "threads s t = Ending oid seq time" for t oid seq time
    using postput_merge_inv [OF inv th] by (auto simp: cc_inv_def)
  then show ?thesis using inv by (simp add: cc_inv_def)
qed

theorem cc_no_false_alarm_witness:
  "reports (sys_one 7 3) = [] \<and>
     (\<exists>c. postput_section 2 1 10 (cc (sys_one 7 3)) = Return (c, []) \<and> \<not> g_mutex c)"
proof -
  have "threads (sys_one 7 3) 0 = Ending 1 10 2" by (simp add: sys_one_def)
  moreover have "cc_reachable 7 {3} (sys_one 7 3)" by (rule sys_one_reachable) simp_all
  ultimately show ?thesis using cc_no_false_alarm [of 7 "{3}" "sys_one 7 3"] by fastforce
qed

text \<open>
  C2: on a store that is new when the enclave starts and whose clients write batches of one
  update each, once all writers are idle, every write handed a sequence number by the store has
  been merged: the history stands at the last number, and no operation is left in
  \<^verbatim>\<open>pending_list\<close> or \<^verbatim>\<open>completed_list\<close>.
\<close>

theorem cc_quiescent:
  assumes "cc_reachable 0 {1} s" and "\<forall>t. threads s t = Idle"
  shows "\<exists>th. ts_att (latest (history (cc s))) = Some th \<and> db_seq s = ucast th \<and>
    completed_list (cc s) = fmempty \<and> pending_list (cc s) = fmempty"
proof -
  have inv: "cc_inv True s" using cc_reachable_inv [OF assms(1)] by simp
  then obtain th where th: "ts_att (current (history (cc s))) = Some th" and cov: "seqs_cover True th s"
    and nxt: "fmlookup (completed_list (cc s)) (ucast (th + 1)) = None"
    by (auto simp: cc_inv_def seqs_inv_def)
  have "pending_list (cc s) = fmempty"
    using all_idle_pending inv assms(2) by (simp add: cc_inv_def)
  with th all_idle_cover [OF cov nxt] assms(2) show ?thesis by (simp add: latest_def)
qed

theorem cc_quiescent_witness:
  "\<exists>s th. cc_reachable 0 {1} s \<and> db_seq s = 1 \<and> ts_att (latest (history (cc s))) = Some th \<and>
     db_seq s = ucast th \<and> completed_list (cc s) = fmempty"
proof -
  obtain s where s: "(cc_step {1})\<^sup>*\<^sup>* (sys_init 0) s" "\<forall>t. threads s t = Idle" "db_seq s = 1"
    using sys_one_end [of 1 "{1}" 0] by auto
  have "cc_reachable 0 {1} (sys_init 0)" by (rule cc_reachable.init) simp
  with s(1) have "cc_reachable 0 {1} s" by (rule cc_reachable_steps)
  then show ?thesis using cc_quiescent [of s] s(2,3) by blast
qed

text \<open>
  C3: when the store has passed the number after the history's timestamp and no client holds that
  number - the store was not new when the enclave started, or a batch of several updates used it
  up - the history never moves again and no completed write ever leaves \<^verbatim>\<open>completed_list\<close>: from
  then on no write is checked against the history.
\<close>

theorem history_stuck:
  assumes "cc_reachable q N s" and "0 \<notin> N" and "ts_att (latest (history (cc s))) = Some th"
    and "ucast th < db_seq s" and "\<forall>t. seq_of (threads s t) \<noteq> Some (ucast th + 1)"
    and "(cc_step N)\<^sup>*\<^sup>* s s'"
  shows "history (cc s') = history (cc s) \<and>
    (\<forall>k op. fmlookup (completed_list (cc s)) k = Some op \<longrightarrow> fmlookup (completed_list (cc s')) k = Some op)"
proof -
  have "cc_inv d s \<Longrightarrow> cc_inv False s" for d s
    unfolding cc_inv_def seqs_inv_def seqs_cover_def by blast
  then have inv: "cc_inv False s" using cc_reachable_inv [OF assms(1,2)] by blast
  have h: "ts_att (current (history (cc s))) = Some th" using assms(3) by (simp add: latest_def)
  have sk: "skipped th s" using assms(4,5) by (simp add: skipped_def)
  from assms(6) have "history (cc s') = history (cc s) \<and> cc_inv False s' \<and> skipped th s' \<and>
    (\<forall>k op. fmlookup (completed_list (cc s)) k = Some op \<longrightarrow> fmlookup (completed_list (cc s')) k = Some op)"
  proof (induction rule: rtranclp_induct)
    case (step u v)
    then show ?case
      using cc_step_skipped [OF step.hyps(2) assms(2), of th] cc_step_inv [OF step.hyps(2) assms(2), of False] h
      by simp
  qed (use inv sk in simp)
  then show ?thesis by blast
qed

theorem history_stuck_witness:
  "\<exists>s. cc_reachable 5 {1} s \<and> db_seq s = 6 \<and> history (cc s) = HistoryW_init"
proof -
  obtain s where s: "(cc_step {1})\<^sup>*\<^sup>* (sys_init 5) s" "db_seq s = 6"
    using sys_one_end [of 1 "{1}" 5] by auto
  have r: "cc_reachable 5 {1} (sys_init 5)" by (rule cc_reachable.init) simp
  have i: "ts_att (latest (history (cc (sys_init 5)))) = Some 0" "history (cc (sys_init 5)) = HistoryW_init"
    "\<forall>t. seq_of (threads (sys_init 5) t) \<noteq> Some (ucast (0 :: uint32) + 1)"
    by (simp_all add: sys_init_def cc_init_def HistoryW_init_def latest_def setEnd_def setStart_def setTs_def)
  have "ucast (0 :: uint32) < db_seq (sys_init 5)" by (simp add: sys_init_def)
  from history_stuck [OF r _ i(1) this i(3) s(1)] have "history (cc s) = HistoryW_init" using i(2) by simp
  moreover have "cc_reachable 5 {1} s" using s(1) r by (rule cc_reachable_steps)
  ultimately show ?thesis using s(2) by blast
qed

lemma check_eq:
  assumes "\<forall>op\<in>set acl. op_start op \<noteq> None \<and> op_end op \<noteq> None"
  shows "\<exists>errors. check acl = Return (True, errors) \<and>
    set errors = {(i, j). i < j \<and> j < length acl \<and> the (op_end (acl ! j)) \<le> the (op_start (acl ! i))}"
proof -
  have pair: "check_pair acl i j = Return (the (op_end (acl ! j)) \<le> the (op_start (acl ! i)))"
    if "i < length acl" "j < length acl" for i j
  proof -
    obtain st e where "op_start (acl ! i) = Some st" "op_end (acl ! j) = Some e"
      using assms \<open>i < length acl\<close> \<open>j < length acl\<close> nth_mem by blast
    then show ?thesis by (simp add: check_pair_def)
  qed
  have loop: "check_loop acl ps =
      Return (filter (\<lambda>(i, j). the (op_end (acl ! j)) \<le> the (op_start (acl ! i))) ps)"
    if "set ps \<subseteq> {..<length acl} \<times> {..<length acl}" for ps
    using that pair by (induction ps) auto
  let ?ps = "[(i, j). i \<leftarrow> [0..<length acl], j \<leftarrow> [i + 1..<length acl]]"
  have ps: "set ?ps = {(i, j). i < j \<and> j < length acl}" by (fastforce simp: image_iff)
  then have "set ?ps \<subseteq> {..<length acl} \<times> {..<length acl}" by auto
  from loop [OF this] have "check_loop acl ?ps =
    Return (filter (\<lambda>(i, j). the (op_end (acl ! j)) \<le> the (op_start (acl ! i))) ?ps)" .
  moreover have "set (filter (\<lambda>(i, j). the (op_end (acl ! j)) \<le> the (op_start (acl ! i))) ?ps) =
    {(i, j). i < j \<and> j < length acl \<and> the (op_end (acl ! j)) \<le> the (op_start (acl ! i))}"
    unfolding set_filter ps by blast
  moreover have "length acl = 1 \<Longrightarrow> ?ps = []" by (simp add: upt_rec)
  ultimately show ?thesis unfolding check_def by (cases "length acl = 1") auto
qed

text \<open>
  C4: \<^verbatim>\<open>check\<close> finds every contradiction inside the truncated prefix: on a vector whose
  operations all have start and end times it prints one message for each pair \<open>i < j\<close> such that
  the write with the larger timestamp ended before the other one started, and none else; it
  nevertheless returns true.
\<close>

theorem check_complete:
  assumes "\<forall>op\<in>set acl. op_start op \<noteq> None \<and> op_end op \<noteq> None"
  shows "\<exists>errors. check acl = Return (True, errors) \<and>
    set errors = {(i, j). i < j \<and> j < length acl \<and> the (op_end (acl ! j)) \<le> the (op_start (acl ! i))}"
  using assms by (rule check_eq)

theorem check_complete_witness:
  "\<exists>errors. check [setEnd (mk_Op 1 5) 6, setEnd (mk_Op 2 1) 2] = Return (True, errors) \<and>
     set errors = {(i, j). i < j \<and> j < length [setEnd (mk_Op 1 5) 6, setEnd (mk_Op 2 1) 2] \<and>
       the (op_end ([setEnd (mk_Op 1 5) 6, setEnd (mk_Op 2 1) 2] ! j)) \<le>
       the (op_start ([setEnd (mk_Op 1 5) 6, setEnd (mk_Op 2 1) 2] ! i))}"
  using check_complete [of "[setEnd (mk_Op 1 5) 6, setEnd (mk_Op 2 1) 2]"]
  by (simp add: setEnd_def mk_Op_def)

subsection \<open>Reads\<close>

lemma lpad_inner_diverges: "int i < pf ! i \<Longrightarrow> lpad_inner pf i j \<noteq> Some u"
proof
  assume i: "int i < pf ! i" and r: "lpad_inner pf i j = Some u"
  have "lpad_inner pf i j = Some u \<Longrightarrow> \<not> int i < pf ! i"
    by (rule lpad_inner.raw_induct [where P = "\<lambda>pf i j u. \<not> int i < pf ! i"]) (auto split: if_splits)
  with i r show False by simp
qed

lemma lpad_inner_stops: "\<not> int i < pf ! i \<Longrightarrow> lpad_inner pf i j = Some ()"
  by (subst lpad_inner.simps) simp

lemma lpad_outer_eq:
  "lpad_outer pf i n =
     (if \<forall>k<n. i + k < length pf \<longrightarrow> pf ! (i + k) \<le> int (i + k)
      then if n = 0 \<or> i + n \<le> length pf then Return () else Undefined else Diverge)"
proof (induction n arbitrary: i)
  case (Suc n)
  have "(\<forall>k<Suc n. i + k < length pf \<longrightarrow> pf ! (i + k) \<le> int (i + k)) \<longleftrightarrow>
      (i < length pf \<longrightarrow> pf ! i \<le> int i) \<and>
      (\<forall>k<n. i + 1 + k < length pf \<longrightarrow> pf ! (i + 1 + k) \<le> int (i + 1 + k))"
    by (auto simp: less_Suc_eq_0_disj)
  moreover have "lpad_inner pf i 0 = (if pf ! i \<le> int i then Some () else None)"
    using lpad_inner_diverges [of i pf 0] lpad_inner_stops [of i pf 0] by fastforce
  ultimately show ?case using Suc.IH [of "i + 1"] by auto
qed simp

text \<open>
  C6: \<^verbatim>\<open>lpad_verify\<close> returns exactly when no proof entry exceeds its own index, because the inner
  loop tests \<^verbatim>\<open>i\<close> instead of \<^verbatim>\<open>j\<close>; when it returns it accepts.  It reads behind the end of
  the array when \<^verbatim>\<open>pf_index\<close> exceeds its length and no entry stops it before.
\<close>

theorem lpad_verify_returns_iff:
  "lpad_verify rh pf pf_index =
     (if \<forall>i<min pf_index (length pf). pf ! i \<le> int i
      then if pf_index \<le> length pf then Return True else Undefined else Diverge)"
proof -
  have "(\<forall>k<pf_index. k < length pf \<longrightarrow> pf ! k \<le> int k) \<longleftrightarrow> (\<forall>i<min pf_index (length pf). pf ! i \<le> int i)"
    by auto
  then show ?thesis using lpad_outer_eq [of pf 0 pf_index] by (auto simp: lpad_verify_def)
qed

theorem lpad_verify_returns_iff_witness:
  "lpad_verify () [0, 1] 2 = Return True \<and> lpad_verify () [13] 1 = Diverge"
  using lpad_verify_returns_iff [of "()" "[0, 1]" 2] lpad_verify_returns_iff [of "()" "[13]" 1]
  by (auto simp: less_Suc_eq)

text \<open>
  C5: a read that is announced with \<^verbatim>\<open>enclave_preget\<close> and closed with \<^verbatim>\<open>enclave_postget\<close>, with no
  other critical section between: it blocks for ever when an earlier handler left \<^verbatim>\<open>g_mutex\<close>
  locked; if the version it returns is newer than the history, the check returns and nothing of
  the checker's state but the clock and the id counter has changed; otherwise, for the usual read
  of an already merged version, \<^verbatim>\<open>findRH\<close> dereferences \<^verbatim>\<open>rh_list.end()\<close>.
\<close>

theorem get_outcome:
  assumes "rh_list (history s) = fmempty" and "ts_att (latest (history s)) = Some tr"
    and "fmlookup (pending_list s) (ucast (g_id s + 1)) = None"
  shows "bind_outcome (enclave_preget s) (\<lambda>(oid, s). enclave_postget oid tw pf pf_index s) =
    (if g_mutex s then Diverge
     else if tr < ucast tw then Return (s\<lparr>g_timer := g_timer s + 1 + 1, g_id := g_id s + 1\<rparr>)
     else Undefined)"
proof -
  have drop: "fmdrop (ucast (g_id s + 1)) (map_insert (ucast (g_id s + 1)) op (pending_list s)) = pending_list s"
    for op using assms(3) by (intro fmap_ext) (simp add: fmlookup_map_insert)
  show ?thesis
    using assms drop
    by (simp add: enclave_preget_def getTime_eq allocId_eq preget_section_def enclave_postget_def
        postget_section_def fmlookup_map_insert nmt_def findRH_def setTr_def setTw_def Let_def
        lock_g_mutex_def)
qed

theorem get_outcome_witness:
  "bind_outcome (enclave_preget cc_init) (\<lambda>(oid, s). enclave_postget oid 5 [13] 1 s) =
     Return (cc_init\<lparr>g_timer := 2, g_id := 1\<rparr>)"
  using get_outcome [of cc_init 0 5 "[13]" 1]
  by (simp add: cc_init_def HistoryW_init_def latest_def setEnd_def setStart_def setTs_def)

subsection \<open>Closing a write\<close>






end
