(* ===== verification/Spec2Isabelle.thy ===== *)
theory Spec2Isabelle
  imports Filter_Block Version_Search Log Filename Table_Props Merger Cache_Props Enclave_CC_Safety
begin

text \<open>
  A verification library for LPAD, a LevelDB-style key-value store whose reads and writes are checked by
  an SGX enclave.  The host program (\<^verbatim>\<open>App/integration\<close>) is a log-structured store: a write goes to
  the log and to a memtable; full memtables become sorted tables; versions list the tables of each level and
  lookups search them from new to old.  The enclave (\<^verbatim>\<open>Enclave\<close>) keeps a history of operations with
  their start and end and compares it with the timestamps that the host reports.

  \<^bold>\<open>How the code is modelled.\<close>  A class is a record of its fields, a method is a function that returns
  the new record, composed as the code composes its calls.  Byte ranges, strings and slices are lists of
  8-bit words, \<^verbatim>\<open>uint32_t\<close> and \<^verbatim>\<open>uint64_t\<close> are words that wrap around; sizes that the code keeps in
  \<^verbatim>\<open>size_t\<close> and that memory bounds are natural numbers.  A \<^verbatim>\<open>Status\<close> is a byte string or none, other failures
  are options or sums.  \<^const>\<open>None\<close> stands for what the code must not do: a read outside a buffer, a freed
  entry, or a loop that does not end; theorems that an operation returns exclude all
  of these.  An assertion is checked, with the result \<^const>\<open>None\<close>, in the cache and in the write batches;
  elsewhere it is a precondition, as it is in a build without assertions.  Loops are recursive functions with a termination measure; where the end of a loop depends on data or
  on a comparator they are \<^theory_text>\<open>partial_function (option)\<close>, and that they return is proved.  No loop
  has a fuel bound; \<open>it_scan\<close> and \<open>it_collect\<close>, which walk along an iterator for the statements, take the number of
  steps, which is the number of entries.

  \<^bold>\<open>Parts, theories and what they show.\<close>
  \<^item> Encodings.  \<open>Coding\<close> (\<^verbatim>\<open>coding.h\<close>, \<^verbatim>\<open>coding.cpp\<close>): fixed-width numbers, varints, length-prefixed
    slices; every encoder is inverted by its decoder and the unrolled 32-bit varint encoder equals the 64-bit loop.
    \<open>Crc32c\<close> (\<^verbatim>\<open>crc32c.cpp\<close>): the table-driven checksum equals the bit-serial one at every alignment and
    detects bursts within four bytes.  \<open>Logging\<close> (\<^verbatim>\<open>logging.cpp\<close>): numbers and strings as text.
    \<open>Status\<close> (\<^verbatim>\<open>status.cpp\<close>): codes and messages.
  \<^item> Keys.  \<open>Comparator\<close> (\<^verbatim>\<open>slice.h\<close>, \<^verbatim>\<open>comparator.cpp\<close>) has the locales \<open>weak_comparator\<close>, \<open>comparator\<close> and
    \<open>shortening_comparator\<close>, which the bytewise comparator meets.  \<open>Dbformat\<close> (\<^verbatim>\<open>dbformat.h\<close>,
    \<^verbatim>\<open>dbformat.cpp\<close>) derives in \<open>internal_key_order\<close> the order of internal keys from that of user keys; lookup
    keys sort before exactly the entries a snapshot may see.
  \<^item> Filters.  \<open>Bloom\<close> (\<^verbatim>\<open>hash.cpp\<close>, \<^verbatim>\<open>bloom.cpp\<close>) and \<open>Filter_Block\<close> (\<^verbatim>\<open>filter_block.cpp\<close>): the locale
    \<open>filter_policy\<close>; a filter block never hides a key.
  \<^item> Memtable.  \<open>Skiplist\<close> (\<^verbatim>\<open>skiplist.h\<close>, \<^verbatim>\<open>random.h\<close>): insertion keeps the levels sorted lists of one
    another's nodes.  \<open>Memtable\<close> (\<^verbatim>\<open>memtable.cpp\<close>): lookups at a snapshot refine a versioned map.
    \<open>Write_Batch\<close> (\<^verbatim>\<open>write_batch.cpp\<close>): batches are replayed into the memtable under consecutive numbers.
  \<^item> Files.  \<open>Env_File\<close> and \<open>Env_Random\<close> (file objects of \<^verbatim>\<open>env_posix.cpp\<close>): the locales \<open>writable_file\<close>,
    \<open>reliable_file\<close> and \<open>random_file\<close>, met by the stream writer, by \<^verbatim>\<open>pread\<close> and by mapped files.
    \<open>Log\<close> (\<^verbatim>\<open>log_writer.cpp\<close>, \<^verbatim>\<open>log_reader.cpp\<close>): what was written is read back, a torn tail loses only
    the last record, a damaged fragment is rejected.  \<open>Filename\<close> (\<^verbatim>\<open>filename.cpp\<close>, \<^verbatim>\<open>env.cpp\<close>): names are
    parsed back, \<^verbatim>\<open>CURRENT\<close> changes atomically.  \<open>Version_Edit\<close> (\<^verbatim>\<open>version_edit.cpp\<close>): manifest records.
  \<^item> Iterators and tables.  \<open>Iterator\<close> (\<^verbatim>\<open>iterator.h\<close>) states the contract \<open>kv_iterator\<close> that
    every iterator here meets: \<open>Block\<close> with \<open>Block_Correct\<close> (\<^verbatim>\<open>block_builder.cpp\<close>, \<^verbatim>\<open>block.cpp\<close>),
    \<open>Merger\<close> (\<^verbatim>\<open>merger.cpp\<close>) and \<open>Two_Level\<close> (\<^verbatim>\<open>two_level_iterator.cpp\<close>).  \<open>Table_Format\<close> (\<^verbatim>\<open>format.cpp\<close>),
    \<open>Table_Builder\<close> (\<^verbatim>\<open>table_builder.cpp\<close>) and \<open>Table\<close> (\<^verbatim>\<open>table.cpp\<close>) build and read tables; \<open>Table_Correct\<close>
    proves in the locales \<open>table_writer\<close> and \<open>table_reader\<close> that a reader sees the entries the writer
    was given, by scans, seeks and filtered lookups, and \<open>Table_Props\<close> states it for database tables.
  \<^item> Versions.  \<open>Version\<close> (class \<^verbatim>\<open>Version\<close> of \<^verbatim>\<open>version_set.cpp\<close>): searches of a level, lookups through
    all levels, overlapping inputs.  \<open>Version_Search\<close>: binary searches agree with scans, the iterator over the files
    of a level meets \<open>kv_iterator\<close>, the collection of overlapping inputs ends with the least closed set.
  \<^item> Cache.  \<open>Cache\<close> (\<^verbatim>\<open>cache.cpp\<close>): hash table, circular list and reference counts on an explicit memory
    with addresses.  \<open>Cache_Safety\<close>: every operation keeps the structures and touches no freed entry.
    \<open>Cache_Props\<close>: sequences of calls as an inductive relation; the cache refines a map that may forget and leaks
    nothing.
  \<^item> Enclave.  \<open>Enclave_CC\<close> (\<^verbatim>\<open>cc.cpp\<close>, \<^verbatim>\<open>op.h\<close>): the handlers as steps of an interleaving of writers, which
    get their sequence numbers from group commits as \<^verbatim>\<open>SUWrite\<close> of \<^verbatim>\<open>db_impl.cpp\<close> hands them out: batches of any
    numbers of updates, on a new or a reopened store.
    \<open>Enclave_CC_Safety\<close>: no false alarm for honest writers, the exact effect of closing a write, completeness of
    the check of a prefix, that the history catches up on a new store with batches of one update and
    is stuck for ever once a number is skipped, and where the handlers fail.
  \<^item> \<open>Prelude\<close>: types and the lemmas on lists and words that the components share.

  \<^bold>\<open>Bounds.\<close>  Theorems on tables and blocks assume files below 4 GB, because block sizes and restart offsets are
  32 bits wide; allocations succeed; the memtable assumes entries below that size and numbers up to \<open>kMaxSequenceNumber\<close>;
  the executions of the enclave stop before its 32-bit counters or the sequence numbers pass \<open>2\<^sup>3\<^sup>2\<close>, and no batch is empty;
  the cache assumes fewer than \<open>2\<^sup>3\<^sup>1\<close> entries in a shard and fewer than \<open>2\<^sup>3\<^sup>2 - 2\<close> handles.  The witnesses
  after the theorems show that these assumptions can be met.

  \<^bold>\<open>Not modelled.\<close>  Code that consists of system calls, threads and locks (\<^verbatim>\<open>port_posix.cpp\<close>,
  \<^verbatim>\<open>atomic_pointer.h\<close>, the rest of \<^verbatim>\<open>env_posix.cpp\<close>), the arena, the background work and the write queue of
  \<^verbatim>\<open>db_impl.cpp\<close> apart from the numbers it hands out, the iterator of \<^verbatim>\<open>db_iter.cpp\<close>, the version set with the choice of compactions in
  \<^verbatim>\<open>version_set.cpp\<close>, and the table cache, which is a parameter of the lookups.  The enclave's merge sort
  (\<^verbatim>\<open>merge_sort_1c.cpp\<close>) reads a tree it never initialises and exchanges buffers with the host, so that it has no
  contract that could be stated; its hash functions are not used by any check that can fail.  Repair, dump, the
  C interface, benchmarks and tests are outside the library, and so are the earlier copies under
  \<^verbatim>\<open>App/untrusted\<close>, \<^verbatim>\<open>App/zerocpy\<close> and \<^verbatim>\<open>Enclave/zerocpy\<close>, which are not built.  Mutexes are taken to
  make each method of the cache and each handler of the enclave one step, except where the model of the enclave
  interleaves their parts.
\<close>

end
